(* ===== verification/Vex_Prelude.thy ===== *)
theory Vex_Prelude
  imports Main "HOL-Library.Word" "HOL-Library.Monad_Syntax"
begin

text \<open>
  What every component of the model shares: the C integer types of an LP64 platform, byte
  buffers, checked copies between buffers, counted loops, and the generic facts on lists and
  words the component theories rely on.

  A C array is a list whose length is the array's size. The node's own code copies between
  fixed-size arrays with computed lengths, so its copies are checked: \<open>memcpy_at\<close> and
  \<open>mem_read\<close> return \<^verbatim>\<open>None\<close> where the C code would read or write outside an array. A
  function whose model returns \<^verbatim>\<open>Some\<close> stays inside its buffers on that input.
\<close>

unbundle bit_operations_syntax

section \<open>Types\<close>

type_synonym u8 = "8 word"
type_synonym u16 = "16 word"
type_synonym u64 = "64 word"
type_synonym bytes = "u8 list"

section \<open>Collections of facts\<close>

named_theorems vex_len "lengths of the buffers the operations produce"
named_theorems vex_inv "operations preserve the invariants of their components"

section \<open>Checked buffer operations\<close>

text \<open>\<^verbatim>\<open>memcpy(dst + off, src, n)\<close>.\<close>

definition memcpy_at :: "'a list \<Rightarrow> nat \<Rightarrow> 'a list \<Rightarrow> nat \<Rightarrow> 'a list option" where
  "memcpy_at dst off src n =
     (if off + n \<le> length dst \<and> n \<le> length src
      then Some (take off dst @ take n src @ drop (off + n) dst) else None)"

text \<open>The source operand \<^verbatim>\<open>src + off\<close> of a copy of \<open>n\<close> elements.\<close>

definition mem_read :: "'a list \<Rightarrow> nat \<Rightarrow> nat \<Rightarrow> 'a list option" where
  "mem_read src off n = (if off + n \<le> length src then Some (take n (drop off src)) else None)"

text \<open>\<^verbatim>\<open>buf[i]\<close> as an rvalue and as an lvalue.\<close>

definition get_at :: "'a list \<Rightarrow> nat \<Rightarrow> 'a option" where
  "get_at xs i = (if i < length xs then Some (xs ! i) else None)"

definition set_at :: "'a list \<Rightarrow> nat \<Rightarrow> 'a \<Rightarrow> 'a list option" where
  "set_at xs i v = (if i < length xs then Some (xs[i := v]) else None)"

lemma memcpy_at_Some [simp]:
  "off + n \<le> length dst \<Longrightarrow> n \<le> length src \<Longrightarrow>
   memcpy_at dst off src n = Some (take off dst @ take n src @ drop (off + n) dst)"
  by (simp add: memcpy_at_def)

lemma mem_read_Some [simp]:
  "off + n \<le> length src \<Longrightarrow> mem_read src off n = Some (take n (drop off src))"
  by (simp add: mem_read_def)

lemma get_at_Some [simp]: "i < length xs \<Longrightarrow> get_at xs i = Some (xs ! i)"
  by (simp add: get_at_def)

lemma set_at_Some [simp]: "i < length xs \<Longrightarrow> set_at xs i v = Some (xs[i := v])"
  by (simp add: set_at_def)

lemma memcpy_at_length [vex_len]: "memcpy_at dst off src n = Some r \<Longrightarrow> length r = length dst"
  by (auto simp: memcpy_at_def split: if_splits)

lemma mem_read_length [vex_len]: "mem_read src off n = Some r \<Longrightarrow> length r = n"
  by (auto simp: mem_read_def split: if_splits)

section \<open>Loops\<close>

text \<open>\<^verbatim>\<open>FOR(i,n)\<close> of \<^verbatim>\<open>tweetnacl.c\<close>, a loop with explicit bounds, and a loop that counts down.\<close>

definition for_range :: "nat \<Rightarrow> nat \<Rightarrow> (nat \<Rightarrow> 's \<Rightarrow> 's) \<Rightarrow> 's \<Rightarrow> 's" where
  "for_range a b body s = fold body [a..<b] s"

definition for_down :: "nat \<Rightarrow> nat \<Rightarrow> (nat \<Rightarrow> 's \<Rightarrow> 's) \<Rightarrow> 's \<Rightarrow> 's" where
  "for_down hi lo body s = fold body (rev [lo..<Suc hi]) s"

abbreviation FOR :: "nat \<Rightarrow> (nat \<Rightarrow> 's \<Rightarrow> 's) \<Rightarrow> 's \<Rightarrow> 's" where
  "FOR n body s \<equiv> for_range 0 n body s"

lemma for_range_empty [simp]: "b \<le> a \<Longrightarrow> for_range a b f s = s"
  by (simp add: for_range_def)

lemma for_range_last: "a \<le> b \<Longrightarrow> for_range a (Suc b) f s = f b (for_range a b f s)"
  by (simp add: for_range_def)

lemma for_range_first: "a < b \<Longrightarrow> for_range a b f s = for_range (Suc a) b f (f a s)"
  by (simp add: for_range_def upt_rec)

lemma for_range_split:
  assumes "a \<le> m" and "m \<le> b"
  shows "for_range a b f s = for_range m b f (for_range a m f s)"
proof -
  have "[a..<b] = [a..<m] @ [m..<b]"
    using assms upt_add_eq_append [of a m "b - m"] by simp
  then show ?thesis by (simp add: for_range_def)
qed

lemma for_range_inv:
  assumes "P a s" and "a \<le> b" and "\<And>i s. a \<le> i \<Longrightarrow> i < b \<Longrightarrow> P i s \<Longrightarrow> P (Suc i) (f i s)"
  shows "P b (for_range a b f s)"
  using assms(2) assms(1,3)
proof (induction b rule: dec_induct)
  case base
  then show ?case by simp
next
  case (step n)
  then show ?case by (simp add: for_range_last)
qed

lemma for_range_preserves:
  assumes "P s" and "\<And>i s. a \<le> i \<Longrightarrow> i < b \<Longrightarrow> P s \<Longrightarrow> P (f i s)"
  shows "P (for_range a b f s)"
proof (cases "a \<le> b")
  case True
  show ?thesis
    by (rule for_range_inv [where P = "\<lambda>_ s. P s", OF assms(1) True]) (use assms(2) in auto)
next
  case False
  with assms(1) show ?thesis by simp
qed

lemma for_down_preserves:
  assumes "P s" and "\<And>i s. i \<le> hi \<Longrightarrow> lo \<le> i \<Longrightarrow> P s \<Longrightarrow> P (f i s)"
  shows "P (for_down hi lo f s)"
proof -
  have "P (fold f xs s)" if "\<And>i. i \<in> set xs \<Longrightarrow> i \<le> hi \<and> lo \<le> i" for xs
    using that assms(1)
  proof (induction xs arbitrary: s)
    case (Cons x xs)
    then show ?case using assms(2) by simp
  qed simp
  from this [of "rev [lo..<Suc hi]"] show ?thesis
    by (simp only: for_down_def set_rev set_upt) auto
qed

text \<open>Filling an array index by index is a \<^verbatim>\<open>map\<close>.\<close>

lemma for_range_fill:
  assumes "b \<le> length xs"
  shows "for_range a b (\<lambda>i ys. ys[i := f i]) xs =
           (if a \<le> b then take a xs @ map f [a..<b] @ drop b xs else xs)"
proof (cases "a \<le> b")
  case True
  have "for_range a b (\<lambda>i ys. ys[i := f i]) xs = take a xs @ map f [a..<b] @ drop b xs"
    by (rule for_range_inv [where P = "\<lambda>b ys. b \<le> length xs \<longrightarrow>
          ys = take a xs @ map f [a..<b] @ drop b xs", OF _ True, THEN mp])
       (use assms in \<open>auto simp: list_update_append Cons_nth_drop_Suc [symmetric] split: nat.splits\<close>)
  with True show ?thesis by simp
qed simp

lemma FOR_fill: "n \<le> length xs \<Longrightarrow> FOR n (\<lambda>i ys. ys[i := f i]) xs = map f [0..<n] @ drop n xs"
  by (simp add: for_range_fill)

lemma FOR_cong: "(\<And>i s. i < n \<Longrightarrow> f i s = g i s) \<Longrightarrow> FOR n f s = FOR n g s"
  unfolding for_range_def by (rule fold_cong) auto

text \<open>A counted loop whose body may leave its buffers.\<close>

primrec for_opt :: "nat \<Rightarrow> (nat \<Rightarrow> 's \<Rightarrow> 's option) \<Rightarrow> 's \<Rightarrow> 's option" where
  "for_opt 0 f s = Some s"
| "for_opt (Suc n) f s = Option.bind (for_opt n f s) (f n)"

lemma for_opt_inv:
  assumes "P 0 s" and "\<And>i s. i < n \<Longrightarrow> P i s \<Longrightarrow> \<exists>s'. f i s = Some s' \<and> P (Suc i) s'"
  shows "\<exists>s'. for_opt n f s = Some s' \<and> P n s'"
  using assms
proof (induction n)
  case (Suc n)
  then obtain s1 where s1: "for_opt n f s = Some s1" "P n s1" by fastforce
  with Suc.prems(2) [of n s1] show ?case by simp
qed simp

section \<open>C strings\<close>

text \<open>
  A \<^verbatim>\<open>char\<close> array is a list of bytes. \<open>str_bytes\<close> gives the bytes of a literal without its
  terminator, \<open>c_string\<close> the contents of an array up to its first NUL, which is what \<^verbatim>\<open>%s\<close>,
  \<^verbatim>\<open>strlen\<close> and \<^verbatim>\<open>strcmp\<close> see.
\<close>

definition str_bytes :: "string \<Rightarrow> bytes" where
  "str_bytes s = map of_char s"

definition c_string :: "bytes \<Rightarrow> bytes" where
  "c_string bs = takeWhile (\<lambda>b. b \<noteq> 0) bs"

text \<open>\<^verbatim>\<open>snprintf(buf, n, ...)\<close> on the formatted text \<open>s\<close>: at most \<open>n - 1\<close> bytes and a NUL.\<close>

definition snprintf_to :: "bytes \<Rightarrow> nat \<Rightarrow> bytes \<Rightarrow> bytes option" where
  "snprintf_to buf n s =
     (let t = take (n - 1) s @ [0] in memcpy_at buf 0 t (length t))"

text \<open>\<^verbatim>\<open>strncpy(dst, src, n)\<close>: \<open>src\<close> up to its NUL, padded with NULs to \<open>n\<close> bytes.\<close>

definition strncpy_to :: "bytes \<Rightarrow> bytes \<Rightarrow> nat \<Rightarrow> bytes option" where
  "strncpy_to dst src n =
     (let t = take n (c_string src) in memcpy_at dst 0 (t @ replicate (n - length t) 0) n)"

lemma c_string_no_nul: "0 \<notin> set bs \<Longrightarrow> c_string bs = bs"
  unfolding c_string_def takeWhile_eq_all_conv by metis

lemma c_string_append_nul: "0 \<notin> set bs \<Longrightarrow> c_string (bs @ 0 # r) = bs"
  using c_string_no_nul [of bs] by (simp add: c_string_def takeWhile_eq_all_conv takeWhile_append2)

lemma c_string_nul_free [simp]: "0 \<notin> set (c_string bs)"
  by (auto simp: c_string_def dest: set_takeWhileD)

lemma length_c_string_le: "length (c_string bs) \<le> length bs"
  by (simp add: c_string_def length_takeWhile_le)

section \<open>Words\<close>

lemma word_or_zero_iff: "a OR b = 0 \<longleftrightarrow> a = 0 \<and> b = 0" for a b :: "'a::len word"
  by (auto simp: bit_eq_iff bit_or_iff)

lemma word_xor_zero_iff: "a XOR b = 0 \<longleftrightarrow> a = b" for a b :: "'a::len word"
  by (auto simp: bit_eq_iff bit_xor_iff)

lemma unat_u8_less [simp]: "unat (b :: u8) < 256"
  using unsigned_less [of b] by simp

lemma unat_ucast_u8 [simp]: "unat (ucast (b :: u8) :: u64) = unat b"
proof -
  have "unat b < 2 ^ 64" by (rule less_trans [OF unat_u8_less]) simp
  then show ?thesis by (simp add: unsigned_ucast_eq take_bit_nat_eq_self)
qed

lemma be16_value: "unat (push_bit 8 (ucast (a :: u8)) OR ucast (b :: u8) :: u16) = 256 * unat a + unat b"
proof -
  have "push_bit 8 (ucast a) + ucast b = (push_bit 8 (ucast a) OR ucast b :: u16)"
    by (rule disjunctive_add) (auto simp: bit_simps dest: bit_imp_le_length)
  moreover have "unat (push_bit 8 (ucast a) + ucast b :: u16) = 256 * unat a + unat b"
  proof -
    have "take_bit 16 (unat c) = unat c" for c :: u8
      by (rule take_bit_nat_eq_self) (rule less_trans [OF unat_u8_less], simp)
    then have "unat (push_bit 8 (ucast a) + ucast b :: u16) = (unat a * 256 + unat b) mod 65536"
      by (simp add: unat_word_ariths push_bit_eq_mult unsigned_ucast_eq)
    moreover have "unat a * 256 + unat b < 65536"
      using unat_u8_less [of a] unat_u8_less [of b] by linarith
    ultimately show ?thesis by simp
  qed
  ultimately show ?thesis by simp
qed

section \<open>Lists\<close>

lemma list_all2_ex_right: "list_all2 P xs ys \<Longrightarrow> x \<in> set xs \<Longrightarrow> \<exists>y \<in> set ys. P x y"
  by (induction rule: list_all2_induct) auto

lemma list_all2_ex_left: "list_all2 P xs ys \<Longrightarrow> y \<in> set ys \<Longrightarrow> \<exists>x \<in> set xs. P x y"
  by (induction rule: list_all2_induct) auto

lemma memcpy_at_mid:
  "length xs = off \<Longrightarrow> length old = n \<Longrightarrow> n \<le> length src \<Longrightarrow>
   memcpy_at (xs @ old @ ys) off src n = Some (xs @ take n src @ ys)"
  by simp

lemma mem_read_mid:
  "length xs = off \<Longrightarrow> length ys = n \<Longrightarrow> mem_read (xs @ ys @ zs) off n = Some ys"
  by simp

lemma set_at_mid: "length xs = i \<Longrightarrow> set_at (xs @ y # ys) i v = Some (xs @ v # ys)"
  by auto

lemma get_at_mid: "length xs = i \<Longrightarrow> get_at (xs @ y # ys) i = Some y"
  by auto

lemma of_nat_mod_u16: "(of_nat (k mod 65536) :: u16) = of_nat k"
  by (simp add: word_unat_eq_iff unat_of_nat)

text \<open>Cutting a buffer at an offset.\<close>

lemma split_at:
  assumes "n \<le> length xs"
  obtains ys zs where "xs = ys @ zs" and "length ys = n"
  using assms that [of "take n xs" "drop n xs"] by simp

lemma split_cons:
  assumes "0 < length xs"
  obtains y ys where "xs = y # ys"
  using assms by (cases xs) auto

lemma nth_update_iff:
  "i < length xs \<Longrightarrow> xs[j := v] ! i = (if i = j then v else xs ! i)"
  by (simp add: nth_list_update)

lemma take_drop_split: "n \<le> length xs \<Longrightarrow> take n xs @ drop n xs = xs"
  by simp

lemma list_eq_prefix: "length xs = n \<Longrightarrow> take n (xs @ ys) = xs"
  by simp

end
