(* ===== verification/NaCl_Bytes.thy ===== *)
theory NaCl_Bytes
  imports Vex_Prelude
begin

text \<open>
  The byte-level helpers at the top of \<^verbatim>\<open>src/tweetnacl.c\<close>: loading and storing words in both
  byte orders, and the constant-time comparison \<^verbatim>\<open>vn\<close>.

  \<^verbatim>\<open>tweetnacl.c\<close> declares \<^verbatim>\<open>typedef unsigned long u32\<close>. On the LP64 platforms the Makefile
  builds for (Linux with gcc, cosmocc) that type has 64 bits, so \<open>u32l\<close> is \<^typ>\<open>64 word\<close>; the code
  only relies on the low 32 bits, which the Salsa20 theory proves.
\<close>

type_synonym u32l = "64 word"

section \<open>Loads and stores\<close>

definition ld32 :: "bytes \<Rightarrow> u32l" where
  "ld32 x =
     (let u = ucast (x ! 3);
          u = push_bit 8 u OR ucast (x ! 2);
          u = push_bit 8 u OR ucast (x ! 1)
      in push_bit 8 u OR ucast (x ! 0))"

definition dl64 :: "bytes \<Rightarrow> u64" where
  "dl64 x = FOR 8 (\<lambda>i u. push_bit 8 u OR ucast (x ! i)) 0"

text \<open>The stores return the bytes they write at \<^verbatim>\<open>x\<close>, in the order of the addresses.\<close>

definition st32 :: "u32l \<Rightarrow> bytes" where
  "st32 u = fst (FOR 4 (\<lambda>i (x, u). (x[i := ucast u], drop_bit 8 u)) (replicate 4 0, u))"

definition ts64 :: "u64 \<Rightarrow> bytes" where
  "ts64 u = fst (for_down 7 0 (\<lambda>i (x, u). (x[i := ucast u], drop_bit 8 u)) (replicate 8 0, u))"

lemma length_st32 [simp, vex_len]: "length (st32 u) = 4"
  by (simp add: st32_def for_range_def upt_rec)

lemma length_ts64 [simp, vex_len]: "length (ts64 u) = 8"
  by (simp add: ts64_def for_down_def upt_rec)

lemma st32_bytes: "st32 u = [ucast u, ucast (drop_bit 8 u), ucast (drop_bit 16 u), ucast (drop_bit 24 u)]"
  by (simp add: st32_def for_range_def upt_rec drop_bit_drop_bit numeral_eq_Suc)

lemma ts64_bytes: "ts64 u = map (\<lambda>i. ucast (drop_bit (56 - 8 * i) u)) [0..<8]"
  by (simp add: ts64_def for_down_def upt_rec drop_bit_drop_bit numeral_eq_Suc)

section \<open>Constant-time comparison\<close>

text \<open>
  \<^verbatim>\<open>vn\<close> accumulates the differences of all \<open>n\<close> bytes and turns the accumulator into 0 or -1
  without a branch. \<^verbatim>\<open>d - 1\<close> wraps when \<open>d\<close> is 0; the result is converted to \<^verbatim>\<open>int\<close>.
\<close>

definition vn :: "bytes \<Rightarrow> bytes \<Rightarrow> nat \<Rightarrow> int" where
  "vn x y n =
     (let d = FOR n (\<lambda>i d. d OR ucast (x ! i XOR y ! i)) (0 :: u32l)
      in sint (ucast ((1 AND drop_bit 8 (d - 1)) - 1) :: 32 word))"

definition crypto_verify_16 :: "bytes \<Rightarrow> bytes \<Rightarrow> int" where
  "crypto_verify_16 x y = vn x y 16"

definition crypto_verify_32 :: "bytes \<Rightarrow> bytes \<Rightarrow> int" where
  "crypto_verify_32 x y = vn x y 32"

text \<open>The accumulator is a byte value, and it is zero when no byte differs.\<close>

lemma vn_accumulator:
  fixes x y :: bytes
  shows "\<exists>b :: u8. FOR n (\<lambda>i d. d OR ucast (x ! i XOR y ! i)) (0 :: u32l) = ucast b \<and>
           (b = 0 \<longleftrightarrow> (\<forall>i<n. x ! i = y ! i))"
proof (induction n)
  case 0
  show ?case by (intro exI [of _ 0]) simp
next
  case (Suc n)
  then obtain b :: u8 where b: "FOR n (\<lambda>i d. d OR ucast (x ! i XOR y ! i)) (0 :: u32l) = ucast b"
    "b = 0 \<longleftrightarrow> (\<forall>i<n. x ! i = y ! i)" by blast
  have "b OR (x ! n XOR y ! n) = 0 \<longleftrightarrow> b = 0 \<and> x ! n = y ! n"
    by (simp add: word_or_zero_iff word_xor_zero_iff)
  then show ?case
    by (intro exI [of _ "b OR (x ! n XOR y ! n)"])
       (auto simp: for_range_last b less_Suc_eq unsigned_or_eq)
qed

lemma vn_mask:
  "sint (ucast ((1 AND drop_bit 8 (ucast b - 1 :: u32l)) - 1) :: 32 word) = (if b = (0 :: u8) then 0 else -1)"
proof (cases "b = 0")
  case True
  have "1 AND drop_bit 8 (- 1 :: u32l) = 1"
    by (rule bit_word_eqI) (auto simp: bit_simps bit_1_iff)
  with True show ?thesis by simp
next
  case False
  then have "0 < unat b" "unat b < 256" by (auto simp: unat_gt_0)
  then have "unat (ucast b - 1 :: u32l) < 256"
    using unat_u8_less [of b] by (simp add: unat_sub_if' less_imp_diff_less)
  then have "drop_bit 8 (ucast b - 1 :: u32l) = 0"
    by (simp add: word_unat_eq_iff drop_bit_eq_div unat_div)
  moreover have "(ucast (- 1 :: u32l) :: 32 word) = - 1"
    by (rule bit_word_eqI) (simp add: bit_simps)
  ultimately show ?thesis using False by simp
qed

text \<open>The comparison returns 0 exactly for equal contents and -1 otherwise.\<close>

lemma vn_result: "vn x y n = (if \<forall>i<n. x ! i = y ! i then 0 else -1)"
proof -
  obtain b :: u8 where "FOR n (\<lambda>i d. d OR ucast (x ! i XOR y ! i)) (0 :: u32l) = ucast b"
    "b = 0 \<longleftrightarrow> (\<forall>i<n. x ! i = y ! i)" using vn_accumulator by blast
  then show ?thesis by (simp add: vn_def vn_mask)
qed

lemma vn_take:
  "n \<le> length x \<Longrightarrow> n \<le> length y \<Longrightarrow> vn x y n = (if take n x = take n y then 0 else -1)"
  by (auto simp: vn_result list_eq_iff_nth_eq)

end
