(* ===== verification/NaCl_Hash.thy ===== *)
theory NaCl_Hash
  imports NaCl_Bytes
begin

text \<open>
  SHA-512 as \<^verbatim>\<open>src/tweetnacl.c\<close> computes it (\<^verbatim>\<open>R\<close> to \<^verbatim>\<open>crypto_hash\<close>). The constants with one-letter or
  common names carry the prefix \<open>nacl_\<close>.
\<close>

section \<open>The round functions and constants\<close>

definition nacl_R :: "u64 \<Rightarrow> nat \<Rightarrow> u64" where
  "nacl_R x c = drop_bit c x OR push_bit (64 - c) x"

definition nacl_Ch :: "u64 \<Rightarrow> u64 \<Rightarrow> u64 \<Rightarrow> u64" where
  "nacl_Ch x y z = (x AND y) XOR (NOT x AND z)"

definition nacl_Maj :: "u64 \<Rightarrow> u64 \<Rightarrow> u64 \<Rightarrow> u64" where
  "nacl_Maj x y z = (x AND y) XOR (x AND z) XOR (y AND z)"

definition nacl_Sigma0 :: "u64 \<Rightarrow> u64" where
  "nacl_Sigma0 x = nacl_R x 28 XOR nacl_R x 34 XOR nacl_R x 39"

definition nacl_Sigma1 :: "u64 \<Rightarrow> u64" where
  "nacl_Sigma1 x = nacl_R x 14 XOR nacl_R x 18 XOR nacl_R x 41"

definition nacl_sigma0 :: "u64 \<Rightarrow> u64" where
  "nacl_sigma0 x = nacl_R x 1 XOR nacl_R x 8 XOR drop_bit 7 x"

definition nacl_sigma1 :: "u64 \<Rightarrow> u64" where
  "nacl_sigma1 x = nacl_R x 19 XOR nacl_R x 61 XOR drop_bit 6 x"

text \<open>
  The round constants. The source writes them in hexadecimal; line by line they are
  \<^verbatim>\<open>0x428a2f98d728ae22 0x7137449123ef65cd 0xb5c0fbcfec4d3b2f 0xe9b5dba58189dbbc\<close>
  \<^verbatim>\<open>0x3956c25bf348b538 0x59f111f1b605d019 0x923f82a4af194f9b 0xab1c5ed5da6d8118\<close>
  \<^verbatim>\<open>0xd807aa98a3030242 0x12835b0145706fbe 0x243185be4ee4b28c 0x550c7dc3d5ffb4e2\<close>
  \<^verbatim>\<open>0x72be5d74f27b896f 0x80deb1fe3b1696b1 0x9bdc06a725c71235 0xc19bf174cf692694\<close>
  \<^verbatim>\<open>0xe49b69c19ef14ad2 0xefbe4786384f25e3 0x0fc19dc68b8cd5b5 0x240ca1cc77ac9c65\<close>
  \<^verbatim>\<open>0x2de92c6f592b0275 0x4a7484aa6ea6e483 0x5cb0a9dcbd41fbd4 0x76f988da831153b5\<close>
  \<^verbatim>\<open>0x983e5152ee66dfab 0xa831c66d2db43210 0xb00327c898fb213f 0xbf597fc7beef0ee4\<close>
  \<^verbatim>\<open>0xc6e00bf33da88fc2 0xd5a79147930aa725 0x06ca6351e003826f 0x142929670a0e6e70\<close>
  \<^verbatim>\<open>0x27b70a8546d22ffc 0x2e1b21385c26c926 0x4d2c6dfc5ac42aed 0x53380d139d95b3df\<close>
  \<^verbatim>\<open>0x650a73548baf63de 0x766a0abb3c77b2a8 0x81c2c92e47edaee6 0x92722c851482353b\<close>
  \<^verbatim>\<open>0xa2bfe8a14cf10364 0xa81a664bbc423001 0xc24b8b70d0f89791 0xc76c51a30654be30\<close>
  \<^verbatim>\<open>0xd192e819d6ef5218 0xd69906245565a910 0xf40e35855771202a 0x106aa07032bbd1b8\<close>
  \<^verbatim>\<open>0x19a4c116b8d2d0c8 0x1e376c085141ab53 0x2748774cdf8eeb99 0x34b0bcb5e19b48a8\<close>
  \<^verbatim>\<open>0x391c0cb3c5c95a63 0x4ed8aa4ae3418acb 0x5b9cca4f7763e373 0x682e6ff3d6b2b8a3\<close>
  \<^verbatim>\<open>0x748f82ee5defb2fc 0x78a5636f43172f60 0x84c87814a1f0ab72 0x8cc702081a6439ec\<close>
  \<^verbatim>\<open>0x90befffa23631e28 0xa4506cebde82bde9 0xbef9a3f7b2c67915 0xc67178f2e372532b\<close>
  \<^verbatim>\<open>0xca273eceea26619c 0xd186b8c721c0c207 0xeada7dd6cde0eb1e 0xf57d4f7fee6ed178\<close>
  \<^verbatim>\<open>0x06f067aa72176fba 0x0a637dc5a2c898a6 0x113f9804bef90dae 0x1b710b35131c471b\<close>
  \<^verbatim>\<open>0x28db77f523047d84 0x32caab7b40c72493 0x3c9ebe0a15c9bebc 0x431d67c49c100d4c\<close>
  \<^verbatim>\<open>0x4cc5d4becb3e42b6 0x597f299cfc657e2a 0x5fcb6fab3ad6faec 0x6c44198c4a475817\<close>
\<close>

definition nacl_K :: "u64 list" where
  "nacl_K = [
     4794697086780616226, 8158064640168781261, 13096744586834688815, 16840607885511220156,
     4131703408338449720, 6480981068601479193, 10538285296894168987, 12329834152419229976,
     15566598209576043074, 1334009975649890238, 2608012711638119052, 6128411473006802146,
     8268148722764581231, 9286055187155687089, 11230858885718282805, 13951009754708518548,
     16472876342353939154, 17275323862435702243, 1135362057144423861, 2597628984639134821,
     3308224258029322869, 5365058923640841347, 6679025012923562964, 8573033837759648693,
     10970295158949994411, 12119686244451234320, 12683024718118986047, 13788192230050041572,
     14330467153632333762, 15395433587784984357, 489312712824947311, 1452737877330783856,
     2861767655752347644, 3322285676063803686, 5560940570517711597, 5996557281743188959,
     7280758554555802590, 8532644243296465576, 9350256976987008742, 10552545826968843579,
     11727347734174303076, 12113106623233404929, 14000437183269869457, 14369950271660146224,
     15101387698204529176, 15463397548674623760, 17586052441742319658, 1182934255886127544,
     1847814050463011016, 2177327727835720531, 2830643537854262169, 3796741975233480872,
     4115178125766777443, 5681478168544905931, 6601373596472566643, 7507060721942968483,
     8399075790359081724, 8693463985226723168, 9568029438360202098, 10144078919501101548,
     10430055236837252648, 11840083180663258601, 13761210420658862357, 14299343276471374635,
     14566680578165727644, 15097957966210449927, 16922976911328602910, 17689382322260857208,
     500013540394364858, 748580250866718886, 1242879168328830382, 1977374033974150939,
     2944078676154940804, 3659926193048069267, 4368137639120453308, 4836135668995329356,
     5532061633213252278, 6448918945643986474, 6902733635092675308, 7801388544844847127]"

definition nacl_iv :: bytes where
  "nacl_iv = [
     0x6a, 0x09, 0xe6, 0x67, 0xf3, 0xbc, 0xc9, 0x08,
     0xbb, 0x67, 0xae, 0x85, 0x84, 0xca, 0xa7, 0x3b,
     0x3c, 0x6e, 0xf3, 0x72, 0xfe, 0x94, 0xf8, 0x2b,
     0xa5, 0x4f, 0xf5, 0x3a, 0x5f, 0x1d, 0x36, 0xf1,
     0x51, 0x0e, 0x52, 0x7f, 0xad, 0xe6, 0x82, 0xd1,
     0x9b, 0x05, 0x68, 0x8c, 0x2b, 0x3e, 0x6c, 0x1f,
     0x1f, 0x83, 0xd9, 0xab, 0xfb, 0x41, 0xbd, 0x6b,
     0x5b, 0xe0, 0xcd, 0x19, 0x13, 0x7e, 0x21, 0x79]"

lemma length_nacl_K [simp]: "length nacl_K = 80"
  by (simp add: nacl_K_def)

lemma length_nacl_iv [simp]: "length nacl_iv = 64"
  by (simp add: nacl_iv_def)

section \<open>The block function and the hash\<close>

text \<open>One iteration of the 80-step loop of \<^verbatim>\<open>crypto_hashblocks\<close> on the registers \<^verbatim>\<open>a\<close> and the window \<^verbatim>\<open>w\<close>.\<close>

definition hashblocks_step :: "nat \<Rightarrow> u64 list \<times> u64 list \<Rightarrow> u64 list \<times> u64 list" where
  "hashblocks_step i = (\<lambda>(a, w).
     let b = a;
         t = a ! 7 + nacl_Sigma1 (a ! 4) + nacl_Ch (a ! 4) (a ! 5) (a ! 6) + nacl_K ! i + w ! (i mod 16);
         b = b[7 := t + nacl_Sigma0 (a ! 0) + nacl_Maj (a ! 0) (a ! 1) (a ! 2)];
         b = b[3 := b ! 3 + t];
         a = FOR 8 (\<lambda>j a. a[(j + 1) mod 8 := b ! j]) a;
         w = (if i mod 16 = 15
              then FOR 16 (\<lambda>j w. w[j := w ! j + (w ! ((j + 9) mod 16)
                     + nacl_sigma0 (w ! ((j + 1) mod 16)) + nacl_sigma1 (w ! ((j + 14) mod 16)))]) w
              else w)
     in (a, w))"

text \<open>The \<^verbatim>\<open>while (n >= 128)\<close> loop; the result is the chaining value \<^verbatim>\<open>z\<close> and the remaining \<^verbatim>\<open>n\<close>.\<close>

function hashblocks_loop :: "u64 list \<Rightarrow> u64 list \<Rightarrow> bytes \<Rightarrow> nat \<Rightarrow> u64 list \<times> nat" where
  "hashblocks_loop z a m n =
     (if n \<ge> 128 then
        let w = map (\<lambda>i. dl64 (drop (8 * i) m)) [0..<16];
            (a, w) = FOR 80 hashblocks_step (a, w);
            (a, z) = FOR 8 (\<lambda>i (a, z). let a = a[i := a ! i + z ! i] in (a, z[i := a ! i])) (a, z)
        in hashblocks_loop z a (drop 128 m) (n - 128)
      else (z, n))"
  by pat_completeness auto
termination
  by (relation "measure (\<lambda>(z, a, m, n). n)") auto

declare hashblocks_loop.simps [simp del]

text \<open>The chaining value is stored back into the 64 bytes \<^verbatim>\<open>x\<close>.\<close>

definition crypto_hashblocks :: "bytes \<Rightarrow> bytes \<Rightarrow> nat \<Rightarrow> bytes \<times> nat" where
  "crypto_hashblocks x m n =
     (let z = map (\<lambda>i. dl64 (drop (8 * i) x)) [0..<8];
          a = z;
          (z, n) = hashblocks_loop z a m n
      in (concat (map (\<lambda>i. ts64 (z ! i)) [0..<8]), n))"

text \<open>
  \<^verbatim>\<open>m += n; n &= 127; m -= n\<close> leaves \<^verbatim>\<open>m\<close> at the last \<open>n mod 128\<close> bytes of the message; \<open>r\<close> is the
  new \<^verbatim>\<open>n\<close> and \<open>p\<close> the length 128 or 256 of the padded tail.
\<close>

definition crypto_hash :: "bytes \<Rightarrow> nat \<Rightarrow> bytes" where
  "crypto_hash m n =
     (let b = (of_nat n :: u64);
          h = fst (crypto_hashblocks nacl_iv m n);
          r = n mod 128;
          m = drop (n - r) m;
          x = replicate 256 0;
          x = FOR r (\<lambda>i x. x[i := m ! i]) x;
          x = x[r := 128];
          p = 256 - 128 * (if r < 112 then 1 else 0);
          x = x[p - 9 := ucast (drop_bit 61 b)];
          x = take (p - 8) x @ ts64 (push_bit 3 b) @ drop p x
      in fst (crypto_hashblocks h x p))"

section \<open>Lengths\<close>

lemma length_crypto_hashblocks [simp, vex_len]: "length (fst (crypto_hashblocks x m n)) = 64"
  by (simp add: crypto_hashblocks_def Let_def split: prod.splits)
     (simp add: upt_rec)

lemma length_crypto_hash [simp, vex_len]: "length (crypto_hash m n) = 64"
  by (simp add: crypto_hash_def Let_def)

end
