(* ===== verification/Vex_Util.thy ===== *)
theory Vex_Util
  imports Vex_Prelude
begin

text \<open>
  \<^verbatim>\<open>src/util.c\<close>: hexadecimal output, the millisecond clock and the random source.
  \<^verbatim>\<open>vex_log\<close> only formats text to \<^verbatim>\<open>stderr\<close> and has no model.
\<close>

section \<open>Hexadecimal encoding\<close>

definition hex_digits :: bytes where
  "hex_digits = str_bytes ''0123456789abcdef''"

definition vex_hex :: "bytes \<Rightarrow> nat \<Rightarrow> bytes \<Rightarrow> bytes option" where
  "vex_hex data len out = do {
     out \<leftarrow> for_opt len (\<lambda>i out. do {
        b \<leftarrow> get_at data i;
        out \<leftarrow> set_at out (i * 2) (hex_digits ! unat (drop_bit 4 b));
        set_at out (i * 2 + 1) (hex_digits ! unat (b AND 0x0F))
     }) out;
     set_at out (len * 2) 0
   }"

text \<open>The text of some bytes, and what the digits of the table stand for.\<close>

definition hex_pair :: "u8 \<Rightarrow> bytes" where
  "hex_pair b = [hex_digits ! unat (drop_bit 4 b), hex_digits ! unat (b AND 0x0F)]"

definition hex_text :: "bytes \<Rightarrow> bytes" where
  "hex_text bs = concat (map hex_pair bs)"

definition hex_value :: "u8 \<Rightarrow> u8" where
  "hex_value c = (if c \<le> 57 then c - 48 else c - 87)"

fun hex_parse :: "bytes \<Rightarrow> bytes" where
  "hex_parse (a # b # cs) = (16 * hex_value a + hex_value b) # hex_parse cs"
| "hex_parse _ = []"

lemma length_hex_text [simp]: "length (hex_text bs) = 2 * length bs"
  by (induction bs) (simp_all add: hex_text_def hex_pair_def)

lemma hex_text_simps [simp]: "hex_text [] = []" "hex_text (bs @ cs) = hex_text bs @ hex_text cs"
  "hex_text (b # cs) = hex_pair b @ hex_text cs"
  by (simp_all add: hex_text_def)

lemma vex_hex_loop:
  assumes "n \<le> length data" and "2 * n \<le> length out"
  shows "for_opt n (\<lambda>i out. do {
        b \<leftarrow> get_at data i;
        out \<leftarrow> set_at out (i * 2) (hex_digits ! unat (drop_bit 4 b));
        set_at out (i * 2 + 1) (hex_digits ! unat (b AND 0x0F))
     }) out = Some (hex_text (take n data) @ drop (2 * n) out)"
  using assms
proof (induction n)
  case (Suc n)
  have len: "length (hex_text (take n data)) = n * 2" using Suc.prems(1) by simp
  obtain x y r where r: "drop (2 * n) out = x # y # r"
  proof -
    have "2 \<le> length (drop (2 * n) out)" using Suc.prems(2) by simp
    then show ?thesis using that by (cases "drop (2 * n) out"; cases "tl (drop (2 * n) out)") auto
  qed
  have r2: "drop (2 * Suc n) out = r"
    using arg_cong [OF r, of "drop 2"] by simp
  have 1: "set_at (hex_text (take n data) @ x # y # r) (n * 2) a = Some (hex_text (take n data) @ a # y # r)" for a
    by (rule set_at_mid [OF len])
  have 2: "set_at (hex_text (take n data) @ a # y # r) (n * 2 + 1) b = Some (hex_text (take n data) @ a # b # r)" for a b
    using set_at_mid [of "hex_text (take n data) @ [a]" "n * 2 + 1" y r b] len by simp
  have tk: "take (Suc n) data = take n data @ [data ! n]" using Suc.prems(1) by (simp add: take_Suc_conv_app_nth)
  have "get_at data n = Some (data ! n)" using Suc.prems(1) by simp
  moreover have "2 * n \<le> length out" using Suc.prems(2) by simp
  ultimately show ?case
    using Suc by (simp add: r r2 1 2 [simplified] tk hex_pair_def del: set_at_Some mult_Suc_right)
qed simp

lemma vex_hex_result:
  assumes "n \<le> length data" and "2 * n < length out"
  shows "vex_hex data n out = Some (hex_text (take n data) @ 0 # drop (2 * n + 1) out)"
proof -
  have "drop (2 * n) out = out ! (2 * n) # drop (2 * n + 1) out"
    using Cons_nth_drop_Suc [OF assms(2)] by simp
  then have "set_at (hex_text (take n data) @ drop (2 * n) out) (n * 2) 0 =
      Some (hex_text (take n data) @ 0 # drop (2 * n + 1) out)"
    using set_at_mid [of "hex_text (take n data)" "n * 2"] assms(1) by simp
  with vex_hex_loop [of n data out] assms show ?thesis
    by (simp add: vex_hex_def)
qed

text \<open>Digits of a nibble, by the sixteen cases.\<close>

lemma all_nat_less_16:
  "(\<forall>k < (16 :: nat). P k) \<longleftrightarrow> P 0 \<and> P 1 \<and> P 2 \<and> P 3 \<and> P 4 \<and> P 5 \<and> P 6 \<and> P 7 \<and>
     P 8 \<and> P 9 \<and> P 10 \<and> P 11 \<and> P 12 \<and> P 13 \<and> P 14 \<and> P 15"
  by (simp add: numeral_eq_Suc All_less_Suc conj_ac)

lemma hex_digit_cases:
  fixes n :: u8
  assumes "unat n < 16"
  shows "hex_value (hex_digits ! unat n) = n \<and> hex_digits ! unat n \<noteq> 0"
proof -
  have "\<forall>k < 16. hex_value (hex_digits ! k) = of_nat k \<and> hex_digits ! k \<noteq> 0"
    unfolding all_nat_less_16 by (simp add: hex_digits_def str_bytes_def hex_value_def)
  with assms have "hex_value (hex_digits ! unat n) = of_nat (unat n) \<and> hex_digits ! unat n \<noteq> 0" by blast
  then show ?thesis by simp
qed

lemma nibbles:
  fixes b :: u8
  shows "unat (drop_bit 4 b) < 16" and "unat (b AND 15) < 16" and "16 * drop_bit 4 b + (b AND 15) = b"
proof -
  have m: "b AND 15 = take_bit 4 b" by (simp add: take_bit_eq_mask mask_eq_decr_exp)
  have d: "unat (drop_bit 4 b) = unat b div 16" by (simp add: unat_drop_bit_eq drop_bit_eq_div [where 'a = nat])
  have t: "unat (take_bit 4 b) = unat b mod 16" by (simp add: unsigned_take_bit_eq take_bit_eq_mod [where 'a = nat])
  show "unat (drop_bit 4 b) < 16" unfolding d by (rule less_mult_imp_div_less) simp
  show "unat (b AND 15) < 16" by (simp add: m t)
  have "16 * drop_bit 4 b + take_bit 4 b = push_bit 4 (drop_bit 4 b) + take_bit 4 b"
    by (simp add: push_bit_eq_mult)
  then show "16 * drop_bit 4 b + (b AND 15) = b"
    using bits_ident [of 4 b] by (simp add: m)
qed

lemma hex_parse_text: "hex_parse (hex_text bs) = bs"
proof (induction bs)
  case (Cons b bs)
  then show ?case
    using hex_digit_cases [OF nibbles(1), of b] hex_digit_cases [OF nibbles(2), of b] nibbles(3) [of b]
    by (simp add: hex_pair_def)
qed simp

lemma hex_text_no_nul: "0 \<notin> set (hex_text bs)"
proof (induction bs)
  case (Cons b bs)
  then show ?case
    using hex_digit_cases [OF nibbles(1), of b] hex_digit_cases [OF nibbles(2), of b]
    by (simp add: hex_pair_def eq_commute [of 0])
qed simp

section \<open>Clock\<close>

text \<open>\<^verbatim>\<open>gettimeofday\<close> supplies seconds and microseconds; C division truncates.\<close>

definition vex_time_ms :: "int \<Rightarrow> int \<Rightarrow> u64" where
  "vex_time_ms tv_sec tv_usec = word_of_int tv_sec * 1000 + word_of_int (sgn tv_usec * (\<bar>tv_usec\<bar> div 1000))"

section \<open>Random bytes\<close>

text \<open>
  What \<^verbatim>\<open>/dev/urandom\<close> does on one call of \<^verbatim>\<open>randombytes\<close>: it opens and \<^verbatim>\<open>read\<close> delivers the
  bytes \<open>bs\<close> (the code ignores a short or failed \<^verbatim>\<open>read\<close>, which leaves the rest of the buffer
  as it was), or it cannot be opened and the \<open>i\<close>-th \<^verbatim>\<open>time(NULL)\<close> of the fallback loop returns
  \<open>clk i\<close>.
\<close>

datatype urandom = Urandom bytes | No_urandom "nat \<Rightarrow> int"

primrec randombytes :: "urandom \<Rightarrow> bytes \<Rightarrow> nat \<Rightarrow> bytes" where
  "randombytes (Urandom bs) x xlen = take (min xlen (length x)) bs @ drop (length (take (min xlen (length x)) bs)) x"
| "randombytes (No_urandom clk) x xlen =
     FOR xlen (\<lambda>i x. x[i := ucast (word_of_int (clk i) XOR (of_nat i * 2654435761 :: u64))]) x"

lemma length_randombytes [simp, vex_len]: "length (randombytes r x n) = length x"
proof (cases r)
  case (No_urandom clk)
  have "length (FOR n (\<lambda>i x. x[i := f i]) x) = length x" for f :: "nat \<Rightarrow> u8"
    by (rule for_range_preserves [where P = "\<lambda>y. length y = length x"]) simp_all
  with No_urandom show ?thesis by simp
qed simp

lemma randombytes_full:
  "length bs = n \<Longrightarrow> length x = n \<Longrightarrow> randombytes (Urandom bs) x n = bs"
  by simp

text \<open>Without \<^verbatim>\<open>/dev/urandom\<close> the bytes depend on the clock alone, and only on its low byte.\<close>

lemma randombytes_fallback:
  assumes "n \<le> length x"
  shows "randombytes (No_urandom clk) x n =
     map (\<lambda>i. ucast (word_of_int (clk i) XOR (of_nat i * 2654435761 :: u64))) [0..<n] @ drop n x"
  using assms by (simp add: FOR_fill)

section \<open>Properties\<close>

text \<open>
  \<^verbatim>\<open>vex_hex\<close> stays inside a buffer of twice the length plus one and leaves a terminated
  string without inner NUL, of two digits per byte, which read as hexadecimal gives the bytes back.
\<close>

lemma hex_reads_back:
  assumes "n \<le> length data" and "2 * n < length out"
  shows "\<exists>t. vex_hex data n out = Some (t @ 0 # drop (2 * n + 1) out) \<and> length t = 2 * n \<and> 0 \<notin> set t \<and>
           hex_parse t = take n data"
  using vex_hex_result [OF assms] assms(1) by (simp add: hex_parse_text hex_text_no_nul)

lemma hex_reads_back_example:
  "\<exists>t. vex_hex [0x1f, 0xa0] 2 (replicate 5 7) = Some (t @ [0]) \<and> hex_parse t = [0x1f, 0xa0]"
  using hex_reads_back [of 2 "[0x1f, 0xa0]" "replicate 5 7"] by auto

text \<open>
  C38. Without \<^verbatim>\<open>/dev/urandom\<close> two calls in the same second return the same bytes: the nonces
  and identifiers derived from them repeat.
\<close>

theorem fallback_repeats_within_a_second:
  assumes "\<forall>i < n. clk1 i = now \<and> clk2 i = now" and "length x = n" and "length y = n"
  shows "randombytes (No_urandom clk1) x n = randombytes (No_urandom clk2) y n"
  using assms by (simp add: randombytes_fallback del: randombytes.simps)

theorem fallback_repeats_within_a_second_witness:
  "randombytes (No_urandom (\<lambda>_. 1700000000)) (replicate 24 0) 24 =
   randombytes (No_urandom (\<lambda>i. if i < 24 then 1700000000 else 0)) (replicate 24 9) 24"
  by (rule fallback_repeats_within_a_second [of _ _ 1700000000]) simp_all

end
