(* ===== verification/Vex_Packet.thy ===== *)
theory Vex_Packet
  imports NaCl_Hash Vex_Util
begin

text \<open>
  \<^verbatim>\<open>src/packet.c\<close> and the packet part of \<^verbatim>\<open>src/vex.h\<close>: the packet structure, its wire format
  and the packet identifier.
\<close>

section \<open>Constants and the packet structure\<close>

definition VEX_VERSION :: u8 where "VEX_VERSION = 0x01"
definition VEX_MAX_PACKET :: nat where "VEX_MAX_PACKET = 512"
definition VEX_HEADER_SIZE :: nat where "VEX_HEADER_SIZE = 11"
definition VEX_MAX_PAYLOAD :: nat where "VEX_MAX_PAYLOAD = VEX_MAX_PACKET - VEX_HEADER_SIZE"
definition VEX_FLAG_ENCRYPTED :: u8 where "VEX_FLAG_ENCRYPTED = push_bit 0 1"
definition VEX_FLAG_BROADCAST :: u8 where "VEX_FLAG_BROADCAST = push_bit 1 1"
definition VEX_FLAG_ACK_REQ :: u8 where "VEX_FLAG_ACK_REQ = push_bit 2 1"

lemmas vex_packet_consts [simp] =
  VEX_VERSION_def VEX_MAX_PACKET_def VEX_HEADER_SIZE_def VEX_MAX_PAYLOAD_def

record vex_packet =
  version :: u8
  packet_id :: bytes
  ttl :: u8
  flags :: u8
  payload :: bytes
  payload_len :: u16

text \<open>The array sizes of the structure; every value of the C type satisfies them.\<close>

definition packet_shape :: "vex_packet \<Rightarrow> bool" where
  "packet_shape p \<longleftrightarrow> length (packet_id p) = 8 \<and> length (payload p) = VEX_MAX_PAYLOAD"

text \<open>A local \<^verbatim>\<open>vex_packet_t pkt;\<close>. C leaves it indeterminate; the model starts it at zero.\<close>

definition packet_local :: vex_packet where
  "packet_local = \<lparr>version = 0, packet_id = replicate 8 0, ttl = 0, flags = 0,
     payload = replicate VEX_MAX_PAYLOAD 0, payload_len = 0\<rparr>"

section \<open>Operations\<close>

text \<open>The result is \<^verbatim>\<open>None\<close> for an access outside a buffer, otherwise the return value and the buffer.\<close>

definition vex_packet_encode :: "vex_packet \<Rightarrow> bytes \<Rightarrow> nat \<Rightarrow> (int \<times> bytes) option" where
  "vex_packet_encode pkt buf buf_len =
     (let total = VEX_HEADER_SIZE + unat (payload_len pkt) in
      if total > buf_len \<or> total > VEX_MAX_PACKET then Some (-1, buf)
      else if version pkt \<noteq> VEX_VERSION then Some (-1, buf)
      else do {
        buf \<leftarrow> set_at buf 0 (version pkt);
        buf \<leftarrow> memcpy_at buf 1 (packet_id pkt) 8;
        buf \<leftarrow> set_at buf 9 (ttl pkt);
        buf \<leftarrow> set_at buf 10 (flags pkt);
        buf \<leftarrow> (if payload_len pkt > 0
                then memcpy_at buf VEX_HEADER_SIZE (payload pkt) (unat (payload_len pkt))
                else Some buf);
        Some (int total, buf)
      })"

definition vex_packet_decode :: "bytes \<Rightarrow> nat \<Rightarrow> vex_packet \<Rightarrow> (int \<times> vex_packet) option" where
  "vex_packet_decode buf len pkt =
     (if len < VEX_HEADER_SIZE then Some (-1, pkt)
      else do {
        v \<leftarrow> get_at buf 0;
        let pkt = pkt\<lparr>version := v\<rparr>;
        if version pkt \<noteq> VEX_VERSION then Some (-1, pkt)
        else do {
          src \<leftarrow> mem_read buf 1 8;
          pid \<leftarrow> memcpy_at (packet_id pkt) 0 src 8;
          let pkt = pkt\<lparr>packet_id := pid\<rparr>;
          t \<leftarrow> get_at buf 9;
          let pkt = pkt\<lparr>ttl := t\<rparr>;
          f \<leftarrow> get_at buf 10;
          let pkt = pkt\<lparr>flags := f\<rparr>;
          let pkt = pkt\<lparr>payload_len := of_nat (len - VEX_HEADER_SIZE)\<rparr>;
          if unat (payload_len pkt) > VEX_MAX_PAYLOAD then Some (-1, pkt)
          else if payload_len pkt > 0 then do {
            src \<leftarrow> mem_read buf VEX_HEADER_SIZE (unat (payload_len pkt));
            pl \<leftarrow> memcpy_at (payload pkt) 0 src (unat (payload_len pkt));
            Some (0, pkt\<lparr>payload := pl\<rparr>)
          }
          else Some (0, pkt)
        }
      })"

text \<open>\<open>rnd\<close> is what the random source does on the call for the 8-byte nonce.\<close>

definition vex_packet_make_id :: "urandom \<Rightarrow> bytes \<Rightarrow> u16 \<Rightarrow> bytes \<Rightarrow> bytes option" where
  "vex_packet_make_id rnd pl len id_out =
     (let hash_input = replicate (VEX_MAX_PAYLOAD + 16) 0;
          nonce = randombytes rnd (replicate 8 0) 8
      in do {
        hash_input \<leftarrow> memcpy_at hash_input 0 pl (unat len);
        hash_input \<leftarrow> memcpy_at hash_input (unat len) nonce 8;
        let hash_output = crypto_hash hash_input (unat len + 8);
        memcpy_at id_out 0 hash_output 8
      })"

section \<open>The wire format\<close>

text \<open>The bytes the protocol puts on the wire for a packet, and the packets that denote the same data.\<close>

definition packet_wire :: "vex_packet \<Rightarrow> bytes" where
  "packet_wire p = version p # packet_id p @ [ttl p, flags p] @ take (unat (payload_len p)) (payload p)"

definition packet_data :: "vex_packet \<Rightarrow> u8 \<times> bytes \<times> u8 \<times> u8 \<times> bytes" where
  "packet_data p = (version p, packet_id p, ttl p, flags p, take (unat (payload_len p)) (payload p))"

text \<open>A packet that the encoder accepts for a full-size buffer.\<close>

definition packet_valid :: "vex_packet \<Rightarrow> bool" where
  "packet_valid p \<longleftrightarrow> packet_shape p \<and> version p = VEX_VERSION \<and> unat (payload_len p) \<le> VEX_MAX_PAYLOAD"

lemma packet_shape_local [simp]: "packet_shape packet_local"
  by (simp add: packet_shape_def packet_local_def)

lemma length_packet_wire:
  "packet_shape p \<Longrightarrow> unat (payload_len p) \<le> 501 \<Longrightarrow> length (packet_wire p) = 11 + unat (payload_len p)"
  by (simp add: packet_wire_def packet_shape_def)

lemma packet_encode_reject:
  assumes "11 + unat (payload_len p) > buf_len \<or> 501 < unat (payload_len p) \<or> version p \<noteq> 1"
  shows "vex_packet_encode p buf buf_len = Some (-1, buf)"
  using assms by (auto simp: vex_packet_encode_def Let_def)

text \<open>A buffer with room for a header and \<open>n\<close> more bytes, cut at the fields of the header.\<close>

lemma header_split:
  assumes "11 + n \<le> length buf"
  obtains b0 b8 b9 b10 bp r where "buf = b0 # b8 @ b9 # b10 # bp @ r" and "length b8 = 8" and "length bp = n"
proof -
  from assms obtain b0 x where 1: "buf = b0 # x" by (cases buf) auto
  with assms have "8 \<le> length x" by simp
  then obtain b8 y where 2: "x = b8 @ y" "length b8 = 8" by (rule split_at)
  with 1 assms have "2 \<le> length y" by simp
  then obtain b9 b10 z where 3: "y = b9 # b10 # z" by (cases y; cases "tl y") auto
  with 1 2 assms have "n \<le> length z" by simp
  then obtain bp r where "z = bp @ r" "length bp = n" by (rule split_at)
  with 1 2 3 that show ?thesis by simp
qed

lemma packet_encode_accept:
  assumes "packet_valid p" and "11 + unat (payload_len p) \<le> buf_len" and "buf_len \<le> length buf"
  shows "vex_packet_encode p buf buf_len =
           Some (int (11 + unat (payload_len p)), packet_wire p @ drop (11 + unat (payload_len p)) buf)"
proof -
  let ?n = "unat (payload_len p)"
  obtain b0 b8 b9 b10 bp r where buf: "buf = b0 # b8 @ b9 # b10 # bp @ r"
    and len: "length b8 = 8" "length bp = ?n"
    using header_split [of ?n buf] order_trans [OF assms(2,3)] by blast
  have id: "length (packet_id p) = 8" and pl: "length (payload p) = 501" "?n \<le> 501" "version p = 1"
    using assms(1) by (simp_all add: packet_valid_def packet_shape_def)
  have 1: "set_at buf 0 (version p) = Some ([version p] @ b8 @ b9 # b10 # bp @ r)"
    by (simp add: buf)
  have 2: "memcpy_at ([version p] @ b8 @ b9 # b10 # bp @ r) 1 (packet_id p) 8 =
           Some ((version p # packet_id p) @ b9 # b10 # bp @ r)"
    by (subst memcpy_at_mid) (simp_all add: len id)
  have 3: "set_at ((version p # packet_id p) @ b9 # b10 # bp @ r) 9 (ttl p) =
           Some ((version p # packet_id p @ [ttl p]) @ b10 # bp @ r)"
    by (subst set_at_mid) (simp_all add: id)
  have 4: "set_at ((version p # packet_id p @ [ttl p]) @ b10 # bp @ r) 10 (flags p) =
           Some ((version p # packet_id p @ [ttl p, flags p]) @ bp @ r)"
    by (subst set_at_mid) (simp_all add: id)
  have 5: "memcpy_at ((version p # packet_id p @ [ttl p, flags p]) @ bp @ r) 11 (payload p) ?n =
           Some ((version p # packet_id p @ [ttl p, flags p]) @ take ?n (payload p) @ r)"
    by (subst memcpy_at_mid) (simp_all add: len id pl)
  have 6: "(version p # packet_id p @ [ttl p, flags p]) @ bp @ r =
           (version p # packet_id p @ [ttl p, flags p]) @ take ?n (payload p) @ r" if "\<not> payload_len p > 0"
    using that len by (simp add: word_gt_0)
  have 7: "drop (11 + ?n) buf = r" by (simp add: buf len drop_Cons')
  have c: "(11 + ?n > buf_len \<or> 11 + ?n > 512) = False" "(version p \<noteq> VEX_VERSION) = False"
    using assms(2) pl by simp_all
  have 8: "(if payload_len p > 0
            then memcpy_at ((version p # packet_id p @ [ttl p, flags p]) @ bp @ r) 11 (payload p) ?n
            else Some ((version p # packet_id p @ [ttl p, flags p]) @ bp @ r)) =
           Some (packet_wire p @ r)"
  proof (cases "payload_len p > 0")
    case True
    then show ?thesis by (simp only: if_True 5) (simp add: packet_wire_def)
  next
    case False
    then show ?thesis by (simp only: if_False 6 [OF False]) (simp add: packet_wire_def)
  qed
  show ?thesis
    by (simp only: vex_packet_encode_def Let_def VEX_HEADER_SIZE_def VEX_MAX_PACKET_def c if_False
        1 2 3 4 8 7 Option.bind.bind_lunit)
qed

lemma packet_decode_accept:
  assumes "11 \<le> len" and "len \<le> length buf" and "buf ! 0 = 1" and "(len - 11) mod 65536 \<le> 501" and "packet_shape p"
  shows "\<exists>q. vex_packet_decode buf len p = Some (0, q) \<and> packet_valid q \<and>
             packet_wire q = take (11 + (len - 11) mod 65536) buf \<and>
             unat (payload_len q) = (len - 11) mod 65536"
proof -
  define n where "n = (len - 11) mod 65536"
  have n: "11 + n \<le> len" "n \<le> 501" "unat (of_nat n :: u16) = n"
    using assms(1,4) by (simp_all add: n_def unat_of_nat add_le_imp_le_diff le_diff_conv2)
  obtain b0 b8 b9 b10 bp r where buf: "buf = b0 # b8 @ b9 # b10 # bp @ r"
    and len: "length b8 = 8" "length bp = n"
    using header_split [of n buf] order_trans [OF n(1) assms(2)] by blast
  have b0: "b0 = 1" using assms(3) by (simp add: buf)
  have 1: "get_at buf 0 = Some b0" by (simp add: buf)
  have 2: "mem_read buf 1 8 = Some b8"
    using mem_read_mid [of "[b0]" 1 b8 8 "b9 # b10 # bp @ r"] by (simp add: buf len)
  have 3: "get_at buf 9 = Some b9"
    using get_at_mid [of "b0 # b8" 9 b9 "b10 # bp @ r"] by (simp add: buf len)
  have 4: "get_at buf 10 = Some b10"
    using get_at_mid [of "b0 # b8 @ [b9]" 10 b10 "bp @ r"] by (simp add: buf len)
  have 5: "mem_read buf 11 n = Some bp"
    using mem_read_mid [of "b0 # b8 @ [b9, b10]" 11 bp n r] by (simp add: buf len)
  have shape: "length (packet_id p) = 8" "length (payload p) = 501"
    using assms(5) by (simp_all add: packet_shape_def)
  define q where "q = p\<lparr>version := b0, packet_id := b8, ttl := b9, flags := b10, payload_len := of_nat n,
                        payload := bp @ drop n (payload p)\<rparr>"
  have z: "(of_nat n :: u16) > 0 \<longleftrightarrow> n > 0"
    using n(3) by (metis unat_0 unat_gt_0 word_gt_0 of_nat_0 neq0_conv)
  have pid: "memcpy_at (packet_id p) 0 b8 8 = Some b8"
    and pl: "memcpy_at (payload p) 0 bp n = Some (bp @ drop n (payload p))"
    using n(2) by (simp_all add: shape len)
  have c: "(len < 11) = False" "(501 < n) = False" "(of_nat (len - 11) :: u16) = of_nat n"
    using n(1,2) by (simp_all only: n_def of_nat_mod_u16) simp_all
  have "vex_packet_decode buf len p = Some (0, q)"
    using len(2) pid pl
    by (cases "n > 0"; cases p)
       (simp_all add: vex_packet_decode_def Let_def 1 2 3 4 5 b0 q_def c n(3) z
          del: mem_read_Some memcpy_at_Some get_at_Some One_nat_def)
  moreover have "packet_valid q"
    using n len shape by (simp add: packet_valid_def packet_shape_def q_def b0)
  moreover have "packet_wire q = take (11 + n) buf"
    using n len by (simp add: packet_wire_def q_def buf numeral_eq_Suc)
  ultimately show ?thesis using n by (auto simp: q_def n_def)
qed

text \<open>Every other input is refused, and no input reads outside the buffer.\<close>

lemma packet_decode_reject:
  assumes "len \<le> length buf" and "packet_shape p"
    and "len < 11 \<or> buf ! 0 \<noteq> 1 \<or> 501 < (len - 11) mod 65536"
  shows "\<exists>q. vex_packet_decode buf len p = Some (-1, q) \<and> packet_shape q"
proof (cases "len < 11 \<or> buf ! 0 \<noteq> 1")
  case True
  moreover have "11 \<le> len \<Longrightarrow> get_at buf 0 = Some (buf ! 0)" using assms(1) by (auto simp: get_at_def)
  ultimately show ?thesis
    using assms(1,2) by (cases "len < 11") (simp_all add: vex_packet_decode_def Let_def packet_shape_def)
next
  case False
  then have big: "501 < unat (of_nat (len - 11) :: u16)" using assms(3) by (simp add: unat_of_nat del: of_nat_diff)
  have "get_at buf 0 = Some (buf ! 0)" "get_at buf 9 = Some (buf ! 9)" "get_at buf 10 = Some (buf ! 10)"
    "mem_read buf 1 8 = Some (take 8 (drop 1 buf))"
    "memcpy_at (packet_id p) 0 (take 8 (drop 1 buf)) 8 = Some (take 8 (drop 1 buf))"
    using False assms(1,2) by (auto simp: get_at_def mem_read_def memcpy_at_def packet_shape_def)
  moreover have "length (take 8 (drop 1 buf)) = 8" using False assms(1) by auto
  ultimately show ?thesis using False assms(1,2) big
    by (simp add: vex_packet_decode_def Let_def packet_shape_def
          del: of_nat_diff One_nat_def mem_read_Some get_at_Some length_take)
qed

text \<open>The decoder looks at the first \<open>len\<close> bytes only.\<close>

lemma packet_decode_take:
  assumes "len \<le> length buf"
  shows "vex_packet_decode buf len p = vex_packet_decode (take len buf) len p"
proof -
  have g: "get_at (take len buf) i = get_at buf i" if "i < len" for i
    using that assms by (simp add: get_at_def)
  have m: "mem_read (take len buf) off n = mem_read buf off n" if "off + n \<le> len" for off n
    using that assms by (simp add: mem_read_def drop_take)
  have n: "11 + unat (of_nat (len - 11) :: u16) \<le> len" if "11 \<le> len"
    using that unat_of_nat [of "len - 11", where 'a = 16] mod_less_eq_dividend [of "len - 11" "2 ^ 16"] by simp
  show ?thesis
  proof (cases "11 \<le> len")
    case True
    have m1: "mem_read (take len buf) 11 (unat (of_nat (len - 11) :: u16)) = mem_read buf 11 (unat (of_nat (len - 11) :: u16))"
      by (rule m [OF n [OF True]])
    show ?thesis using True g [of 0] g [of 9] g [of 10] m [of 1 8] m1
      by (simp only: vex_packet_decode_def Let_def VEX_HEADER_SIZE_def)
         (simp del: mem_read_Some get_at_Some of_nat_diff cong: if_cong)
  qed (simp add: vex_packet_decode_def)
qed

section \<open>The identifier\<close>

definition message_id :: "urandom \<Rightarrow> bytes \<Rightarrow> bytes" where
  "message_id rnd pl =
     take 8 (crypto_hash (pl @ randombytes rnd (replicate 8 0) 8 @ replicate (509 - length pl) 0) (length pl + 8))"

lemma length_message_id [simp, vex_len]: "length (message_id rnd pl) = 8"
  by (simp add: message_id_def)

lemma make_id_result:
  assumes "unat len \<le> 501" and "unat len \<le> length pl" and "length id_out = 8"
  shows "vex_packet_make_id rnd pl len id_out = Some (message_id rnd (take (unat len) pl))"
proof -
  let ?n = "unat len" and ?nonce = "randombytes rnd (replicate 8 0) 8"
  have 1: "memcpy_at (replicate 517 0) 0 pl ?n = Some (take ?n pl @ replicate (517 - ?n) 0)"
    using assms by simp
  have 2: "memcpy_at (take ?n pl @ replicate (517 - ?n) 0) ?n ?nonce 8 =
           Some (take ?n pl @ ?nonce @ replicate (509 - ?n) 0)"
    using assms by simp
  have 3: "memcpy_at id_out 0 (crypto_hash m n) 8 = Some (take 8 (crypto_hash m n))" for m n
    using assms(3) by simp
  show ?thesis
    using assms(1,2)
    by (simp add: vex_packet_make_id_def Let_def 1 2 3 message_id_def min_def del: memcpy_at_Some)
qed

section \<open>Properties\<close>

text \<open>
  C16. Decoding never reads or writes outside its buffers, returns 0 or -1, and accepts exactly
  the buffers that hold a header with the protocol's version and whose payload length, after
  the conversion to 16 bits, fits a packet.
\<close>

theorem packet_decode_accepts_iff:
  assumes "len \<le> length buf" and "packet_shape p"
  shows "\<exists>r q. vex_packet_decode buf len p = Some (r, q) \<and> packet_shape q \<and> r \<in> {0, -1} \<and>
           (r = 0 \<longleftrightarrow> VEX_HEADER_SIZE \<le> len \<and> buf ! 0 = VEX_VERSION \<and>
                      (len - VEX_HEADER_SIZE) mod 65536 \<le> VEX_MAX_PAYLOAD)"
proof (cases "11 \<le> len \<and> buf ! 0 = 1 \<and> (len - 11) mod 65536 \<le> 501")
  case True
  then show ?thesis
    using packet_decode_accept [of len buf p] assms by (auto simp: packet_valid_def)
next
  case False
  then show ?thesis using packet_decode_reject [OF assms] by auto
qed

theorem packet_decode_accepts_iff_witness:
  "\<exists>r q. vex_packet_decode (1 # replicate 11 7) 12 packet_local = Some (r, q) \<and> r = 0"
  using packet_decode_accepts_iff [of 12 "1 # replicate 11 7" packet_local] by auto

text \<open>C15. Encoding a valid packet and decoding the bytes gives back every field and the payload.\<close>

theorem packet_roundtrip:
  assumes "packet_valid p" and "packet_shape q" and "length buf = VEX_MAX_PACKET"
  shows "\<exists>n out r. vex_packet_encode p buf VEX_MAX_PACKET = Some (int n, out) \<and>
           n = VEX_HEADER_SIZE + unat (payload_len p) \<and>
           vex_packet_decode out n q = Some (0, r) \<and> packet_data r = packet_data p"
proof -
  let ?n = "11 + unat (payload_len p)"
  have le: "unat (payload_len p) \<le> 501" and v: "version p = 1" and sh: "packet_shape p"
    using assms(1) by (simp_all add: packet_valid_def)
  let ?out = "packet_wire p @ drop ?n buf"
  have enc: "vex_packet_encode p buf 512 = Some (int ?n, ?out)"
    by (rule packet_encode_accept) (use assms le in simp_all)
  have len: "length (packet_wire p) = ?n" using sh le by (rule length_packet_wire)
  have hd: "?out ! 0 = 1" by (simp add: packet_wire_def v)
  obtain r where dec: "vex_packet_decode ?out ?n q = Some (0, r)" and r: "packet_valid r"
    and w: "packet_wire r = packet_wire p" and rl: "unat (payload_len r) = unat (payload_len p)"
    using packet_decode_accept [of ?n ?out q] len hd le assms(2) by auto
  have "packet_data r = packet_data p"
    using w rl r sh by (simp add: packet_wire_def packet_data_def packet_valid_def packet_shape_def)
  with enc dec show ?thesis by (metis vex_packet_consts(2,3))
qed

theorem packet_roundtrip_witness:
  "\<exists>out r. vex_packet_encode (packet_local\<lparr>version := 1, ttl := 7, payload_len := 2\<rparr>) (replicate 512 9) VEX_MAX_PACKET = Some (13, out) \<and>
     vex_packet_decode out 13 packet_local = Some (0, r) \<and> ttl r = 7 \<and> take (unat (payload_len r)) (payload r) = replicate 2 0"
proof -
  let ?p = "packet_local\<lparr>version := 1, ttl := 7, payload_len := 2\<rparr>"
  have "packet_valid ?p" by (simp add: packet_valid_def packet_shape_def packet_local_def)
  from packet_roundtrip [OF this packet_shape_local, of "replicate 512 9"] obtain n out r where
    "vex_packet_encode ?p (replicate 512 9) VEX_MAX_PACKET = Some (int n, out)" "n = 13"
    "vex_packet_decode out n packet_local = Some (0, r)" "packet_data r = packet_data ?p" by auto
  then show ?thesis by (simp add: packet_data_def) (simp add: packet_local_def)
qed

text \<open>A frame of at most 512 bytes that decodes is reproduced byte for byte by the encoder.\<close>

lemma packet_decode_encode:
  assumes "vex_packet_decode raw len p = Some (0, q)" and "len \<le> length raw" and "len \<le> VEX_MAX_PACKET"
    and "packet_shape p" and "length buf = VEX_MAX_PACKET"
  shows "\<exists>out. vex_packet_encode q buf VEX_MAX_PACKET = Some (int len, out) \<and> take len out = take len raw"
proof -
  have acc: "11 \<le> len" "raw ! 0 = 1"
    using packet_decode_reject [OF assms(2,4)] assms(1) by (fastforce, fastforce)
  then have "(len - 11) mod 65536 = len - 11" and le: "len - 11 \<le> 501" using assms(3) by simp_all
  with packet_decode_accept [of len raw p] assms acc
  have q: "packet_valid q" "packet_wire q = take len raw" "unat (payload_len q) = len - 11" by auto
  have "vex_packet_encode q buf 512 = Some (int (11 + (len - 11)), packet_wire q @ drop (11 + (len - 11)) buf)"
    unfolding q(3) [symmetric] by (rule packet_encode_accept) (use q assms le in simp_all)
  with q(2) acc assms(2) show ?thesis by auto
qed

lemma packet_decode_encode_example:
  "\<exists>q out. vex_packet_decode (1 # replicate 11 7) 12 packet_local = Some (0, q) \<and>
     vex_packet_encode q (replicate 512 0) VEX_MAX_PACKET = Some (12, out) \<and> take 12 out = 1 # replicate 11 7"
proof -
  obtain q where q: "vex_packet_decode (1 # replicate 11 7) 12 packet_local = Some (0, q)"
    using packet_decode_accept [of 12 "1 # replicate 11 7" packet_local] by auto
  with packet_decode_encode [OF q, of "replicate 512 0"] show ?thesis by auto
qed

text \<open>
  The length check comes after the conversion to 16 bits: a caller that passed the
  65547-byte length would see a success with an empty payload.
\<close>

lemma packet_decode_truncates_length:
  assumes "length buf = 65547" and "buf ! 0 = VEX_VERSION" and "packet_shape p"
  shows "\<exists>q. vex_packet_decode buf 65547 p = Some (0, q) \<and> payload_len q = 0"
  using packet_decode_accept [of 65547 buf p] assms by (auto simp: unat_eq_zero)

lemma packet_decode_truncates_length_example:
  "\<exists>q. vex_packet_decode (1 # replicate 65546 0) 65547 packet_local = Some (0, q) \<and> payload_len q = 0"
  by (rule packet_decode_truncates_length) simp_all

end
