(* ===== verification/Dedup_Spec.thy ===== *)
theory Dedup_Spec
  imports Vex_Prelude
begin

text \<open>
  The contract between the mesh router and its duplicate filter: what the router needs of a
  cache with a bounded capacity and a time to live, independently of how entries are stored.

  \<open>held c i t0\<close> says that the cache holds \<open>i\<close> with a time stamp of at least \<open>t0\<close>; \<open>recent c t0\<close>
  counts the entries with such time stamps. The filter may forget an entry only when it is
  older than \<open>lifetime\<close> or when \<open>capacity\<close> entries at least as recent displaced it.
\<close>

datatype 'i dedup_op = Check int 'i | Add int 'i | Prune int

primrec op_time :: "'i dedup_op \<Rightarrow> int" where
  "op_time (Check t _) = t"
| "op_time (Add t _) = t"
| "op_time (Prune t) = t"

primrec is_add :: "'i dedup_op \<Rightarrow> bool" where
  "is_add (Check _ _) = False"
| "is_add (Add _ _) = True"
| "is_add (Prune _) = False"

locale dedup_cache =
  fixes check :: "int \<Rightarrow> 'c \<Rightarrow> 'i \<Rightarrow> int \<times> 'c"
    and add :: "int \<Rightarrow> 'c \<Rightarrow> 'i \<Rightarrow> 'c"
    and prune :: "int \<Rightarrow> 'c \<Rightarrow> 'c"
    and cache_inv :: "'c \<Rightarrow> bool"
    and valid_id :: "'i \<Rightarrow> bool"
    and held :: "'c \<Rightarrow> 'i \<Rightarrow> int \<Rightarrow> bool"
    and recent :: "'c \<Rightarrow> int \<Rightarrow> nat"
    and capacity :: nat
    and lifetime :: int
  assumes inv_check: "cache_inv c \<Longrightarrow> valid_id i \<Longrightarrow> cache_inv (snd (check t c i))"
    and inv_add: "cache_inv c \<Longrightarrow> valid_id i \<Longrightarrow> cache_inv (add t c i)"
    and inv_prune: "cache_inv c \<Longrightarrow> cache_inv (prune t c)"
    and check_iff: "cache_inv c \<Longrightarrow> valid_id i \<Longrightarrow> fst (check t c i) = 1 \<longleftrightarrow> held c i (t - lifetime)"
    and check_range: "cache_inv c \<Longrightarrow> valid_id i \<Longrightarrow> fst (check t c i) \<in> {0, 1}"
    and held_check: "cache_inv c \<Longrightarrow> t \<le> t0 + lifetime \<Longrightarrow> held c j t0 \<Longrightarrow> held (snd (check t c i)) j t0"
    and held_prune: "cache_inv c \<Longrightarrow> t \<le> t0 + lifetime \<Longrightarrow> held c j t0 \<Longrightarrow> held (prune t c) j t0"
    and held_add: "cache_inv c \<Longrightarrow> t \<le> t0 + lifetime \<Longrightarrow> recent c t0 < capacity \<Longrightarrow>
                     held c j t0 \<Longrightarrow> held (add t c i) j t0"
    and held_added: "cache_inv c \<Longrightarrow> valid_id i \<Longrightarrow> held (add t c i) i t"
    and held_mono: "s \<le> t \<Longrightarrow> held c i t \<Longrightarrow> held c i s"
    and recent_check: "recent (snd (check t c i)) t0 \<le> recent c t0"
    and recent_add: "cache_inv c \<Longrightarrow> recent (add t c i) t0 \<le> Suc (recent c t0)"
    and recent_prune: "recent (prune t c) t0 \<le> recent c t0"
begin

primrec step :: "'i dedup_op \<Rightarrow> 'c \<Rightarrow> 'c" where
  "step (Check t i) c = snd (check t c i)"
| "step (Add t i) c = add t c i"
| "step (Prune t) c = prune t c"

text \<open>An identifier stays held through any operations that are early and few enough.\<close>

lemma held_run:
  assumes "cache_inv c" and "held c j t0"
    and "\<forall>o' \<in> set ops. op_time o' \<le> t0 + lifetime"
    and "\<forall>o' \<in> set ops. (\<forall>t i. o' = Check t i \<or> o' = Add t i \<longrightarrow> valid_id i)"
    and "recent c t0 + length (filter is_add ops) \<le> capacity"
  shows "held (fold step ops c) j t0 \<and> cache_inv (fold step ops c)"
  using assms
proof (induction ops arbitrary: c)
  case (Cons x ops)
  show ?case
  proof (cases x)
    case (Check t i)
    with Cons.prems recent_check [of t c i t0] show ?thesis
      by (simp add: Cons.IH inv_check held_check)
  next
    case (Add t i)
    with Cons.prems recent_add [of c t i t0] show ?thesis
      by (simp add: Cons.IH inv_add held_add)
  next
    case (Prune t)
    with Cons.prems recent_prune [of t c t0] show ?thesis
      by (simp add: Cons.IH inv_prune held_prune)
  qed
qed simp

text \<open>So an added identifier is reported as seen for its whole lifetime.\<close>

lemma added_is_seen:
  assumes "cache_inv c" and "valid_id j"
    and "\<forall>o' \<in> set ops. op_time o' \<le> t0 + lifetime"
    and "\<forall>o' \<in> set ops. (\<forall>t i. o' = Check t i \<or> o' = Add t i \<longrightarrow> valid_id i)"
    and "Suc (recent c t0) + length (filter is_add ops) \<le> capacity"
    and "t \<le> t0 + lifetime"
  shows "fst (check t (fold step ops (add t0 c j)) j) = 1"
proof -
  have "held (fold step ops (add t0 c j)) j t0 \<and> cache_inv (fold step ops (add t0 c j))"
    by (rule held_run) (use assms recent_add [of c t0 j t0] in \<open>auto intro: inv_add held_added\<close>)
  with assms(2,6) show ?thesis by (auto simp: check_iff intro: held_mono [of "t - lifetime" t0])
qed

end

end
