(* ===== verification/Vex_Seen.thy ===== *)
theory Vex_Seen
  imports Dedup_Spec
begin

text \<open>
  \<^verbatim>\<open>src/seen.c\<close>: the cache of packet identifiers. Every \<^verbatim>\<open>time(NULL)\<close> of the code is the argument
  \<open>now\<close>; times are unbounded integers, since \<^verbatim>\<open>time_t\<close> has 64 bits. The flag \<^verbatim>\<open>active\<close>, which
  is only ever 0 or 1, is a Boolean.
\<close>

section \<open>State\<close>

definition VEX_SEEN_CAPACITY :: nat where "VEX_SEEN_CAPACITY = 1000"
definition VEX_SEEN_TTL_SEC :: int where "VEX_SEEN_TTL_SEC = 60"

record seen_entry =
  seen_id :: bytes
  timestamp :: int
  active :: bool

record seen_cache =
  entries :: "seen_entry list"
  count :: nat

section \<open>Operations\<close>

definition vex_seen_init :: "seen_cache \<Rightarrow> seen_cache" where
  "vex_seen_init cache =
     \<lparr>entries = replicate VEX_SEEN_CAPACITY \<lparr>seen_id = replicate 8 0, timestamp = 0, active = False\<rparr>,
      count = 0\<rparr>"

definition expired :: "int \<Rightarrow> seen_entry \<Rightarrow> bool" where
  "expired now e \<longleftrightarrow> now - timestamp e > VEX_SEEN_TTL_SEC"

text \<open>The loop of \<^verbatim>\<open>vex_seen_check\<close> over the first \<^verbatim>\<open>count\<close> entries, with its early return.\<close>

fun seen_scan :: "int \<Rightarrow> bytes \<Rightarrow> seen_entry list \<Rightarrow> int \<times> seen_entry list" where
  "seen_scan now packet_id [] = (0, [])"
| "seen_scan now packet_id (e # es) =
     (if \<not> active e then (let (r, es') = seen_scan now packet_id es in (r, e # es'))
      else if expired now e then
        (let (r, es') = seen_scan now packet_id es in (r, e\<lparr>active := False\<rparr> # es'))
      else if take 8 (seen_id e) = take 8 packet_id then (1, e # es)
      else (let (r, es') = seen_scan now packet_id es in (r, e # es')))"

definition vex_seen_check :: "int \<Rightarrow> seen_cache \<Rightarrow> bytes \<Rightarrow> int \<times> seen_cache" where
  "vex_seen_check now cache packet_id =
     (let (r, es) = seen_scan now packet_id (take (count cache) (entries cache))
      in (r, cache\<lparr>entries := es @ drop (count cache) (entries cache)\<rparr>))"

text \<open>The first loop of \<^verbatim>\<open>vex_seen_add\<close>: the index of the first inactive or expired slot.\<close>

fun find_slot :: "int \<Rightarrow> seen_entry list \<Rightarrow> nat option" where
  "find_slot now [] = None"
| "find_slot now (e # es) =
     (if \<not> active e \<or> expired now e then Some 0 else map_option Suc (find_slot now es))"

text \<open>The second loop: the index of the oldest entry, the first one among equals.\<close>

definition oldest_slot :: "seen_entry list \<Rightarrow> nat" where
  "oldest_slot es =
     fst (for_range 1 VEX_SEEN_CAPACITY
            (\<lambda>i (oldest_idx, oldest_time).
               if timestamp (es ! i) < oldest_time then (i, timestamp (es ! i))
               else (oldest_idx, oldest_time))
            (0, timestamp (es ! 0)))"

definition vex_seen_add :: "int \<Rightarrow> seen_cache \<Rightarrow> bytes \<Rightarrow> seen_cache" where
  "vex_seen_add now cache packet_id =
     (let new = \<lparr>seen_id = take 8 packet_id, timestamp = now, active = True\<rparr> in
      case find_slot now (take VEX_SEEN_CAPACITY (entries cache)) of
        Some i \<Rightarrow> cache\<lparr>entries := (entries cache)[i := new],
                        count := (if i \<ge> count cache then i + 1 else count cache)\<rparr>
      | None \<Rightarrow> cache\<lparr>entries := (entries cache)[oldest_slot (entries cache) := new]\<rparr>)"

definition vex_seen_prune :: "int \<Rightarrow> seen_cache \<Rightarrow> seen_cache" where
  "vex_seen_prune now cache =
     cache\<lparr>entries :=
       map (\<lambda>e. if active e \<and> expired now e then e\<lparr>active := False\<rparr> else e) (take (count cache) (entries cache))
       @ drop (count cache) (entries cache)\<rparr>"

section \<open>Invariant and abstraction\<close>

text \<open>Slots from \<^verbatim>\<open>count\<close> on have never been used; this is what lets the loops stop at \<^verbatim>\<open>count\<close>.\<close>

definition seen_inv :: "seen_cache \<Rightarrow> bool" where
  "seen_inv c \<longleftrightarrow> length (entries c) = VEX_SEEN_CAPACITY \<and> count c \<le> VEX_SEEN_CAPACITY \<and>
     (\<forall>e \<in> set (drop (count c) (entries c)). \<not> active e) \<and>
     (\<forall>e \<in> set (entries c). length (seen_id e) = 8)"

definition holds_id :: "bytes \<Rightarrow> int \<Rightarrow> seen_entry \<Rightarrow> bool" where
  "holds_id i t e \<longleftrightarrow> active e \<and> seen_id e = i \<and> t \<le> timestamp e"

definition seen_held :: "seen_cache \<Rightarrow> bytes \<Rightarrow> int \<Rightarrow> bool" where
  "seen_held c i t \<longleftrightarrow> (\<exists>e \<in> set (entries c). holds_id i t e)"

definition seen_recent :: "seen_cache \<Rightarrow> int \<Rightarrow> nat" where
  "seen_recent c t = length (filter (\<lambda>e. active e \<and> t \<le> timestamp e) (entries c))"

section \<open>The loops\<close>

text \<open>What a pass over the cache may do to an entry: nothing, or deactivate it once it expired.\<close>

definition aged :: "int \<Rightarrow> seen_entry \<Rightarrow> seen_entry \<Rightarrow> bool" where
  "aged now e e' \<longleftrightarrow> e' = e \<or> (expired now e \<and> e' = e\<lparr>active := False\<rparr>)"

lemma aged_refl [simp]: "aged now e e"
  by (simp add: aged_def)

lemma aged_off [simp]: "expired now e \<Longrightarrow> aged now e (e\<lparr>active := False\<rparr>)"
  by (simp add: aged_def)

lemma aged_list_refl [simp]: "list_all2 (aged now) es es"
  by (simp add: list_all2_refl)

lemma scan_aged: "list_all2 (aged now) es (snd (seen_scan now i es))"
  by (induction es) (auto split: prod.splits)

lemma scan_result: "fst (seen_scan now i es) =
    (if \<exists>e \<in> set es. active e \<and> \<not> expired now e \<and> take 8 (seen_id e) = take 8 i then 1 else 0)"
  by (induction es) (auto split: prod.splits)

lemma check_aged:
  "list_all2 (aged now) (entries c) (entries (snd (vex_seen_check now c i)))"
proof -
  have "list_all2 (aged now) (take (count c) (entries c) @ drop (count c) (entries c))
          (snd (seen_scan now i (take (count c) (entries c))) @ drop (count c) (entries c))"
    by (rule list_all2_appendI) (simp_all add: scan_aged)
  then show ?thesis by (simp add: vex_seen_check_def case_prod_unfold Let_def)
qed

lemma prune_aged: "list_all2 (aged now) (entries c) (entries (vex_seen_prune now c))"
proof -
  have "list_all2 (aged now) xs (map (\<lambda>e. if active e \<and> expired now e then e\<lparr>active := False\<rparr> else e) xs)" for xs
    by (induction xs) (auto simp: aged_def)
  then have "list_all2 (aged now) (take (count c) (entries c) @ drop (count c) (entries c))
               (entries (vex_seen_prune now c))"
    unfolding vex_seen_prune_def by (simp del: append_take_drop_id) (rule list_all2_appendI, simp_all)
  then show ?thesis by simp
qed

lemma check_count [simp]: "count (snd (vex_seen_check now c i)) = count c"
  by (simp add: vex_seen_check_def Let_def split: prod.splits)

lemma prune_count [simp]: "count (vex_seen_prune now c) = count c"
  by (simp add: vex_seen_prune_def)

text \<open>A pass keeps the invariant and every entry that is still alive, and adds nothing.\<close>

lemma aged_inv:
  assumes "seen_inv c" and "list_all2 (aged now) (entries c) (entries c')" and "count c' = count c"
  shows "seen_inv c'"
proof -
  have len: "length (entries c') = length (entries c)"
    using assms(2) by (simp add: list_all2_lengthD)
  have "\<not> active e'" if e': "e' \<in> set (drop (count c) (entries c'))" for e'
  proof -
    have "list_all2 (aged now) (drop (count c) (entries c)) (drop (count c) (entries c'))"
      using assms(2) by (rule list_all2_dropI)
    with e' obtain e where "e \<in> set (drop (count c) (entries c))" "aged now e e'"
      by (metis list_all2_ex_left)
    with assms(1) show ?thesis by (auto simp: seen_inv_def aged_def)
  qed
  moreover have "length (seen_id e') = 8" if e': "e' \<in> set (entries c')" for e'
  proof -
    obtain e where "e \<in> set (entries c)" "aged now e e'"
      using assms(2) e' by (metis list_all2_ex_left)
    with assms(1) show ?thesis by (auto simp: seen_inv_def aged_def)
  qed
  ultimately show ?thesis using assms(1,3) len by (simp add: seen_inv_def)
qed

lemma aged_held:
  assumes "list_all2 (aged now) (entries c) (entries c')" and "now \<le> t0 + VEX_SEEN_TTL_SEC" and "seen_held c i t0"
  shows "seen_held c' i t0"
proof -
  obtain e where e: "e \<in> set (entries c)" "holds_id i t0 e" using assms(3) by (auto simp: seen_held_def)
  then obtain e' where "e' \<in> set (entries c')" "aged now e e'"
    using assms(1) by (metis list_all2_ex_right)
  moreover have "\<not> expired now e" using e(2) assms(2) by (simp add: holds_id_def expired_def)
  ultimately show ?thesis using e(2) by (auto simp: seen_held_def aged_def)
qed

lemma aged_recent:
  assumes "list_all2 (aged now) (entries c) (entries c')"
  shows "seen_recent c' t0 \<le> seen_recent c t0"
proof -
  have "length (filter (\<lambda>e. active e \<and> t0 \<le> timestamp e) ys) \<le> length (filter (\<lambda>e. active e \<and> t0 \<le> timestamp e) xs)"
    if "list_all2 (aged now) xs ys" for xs ys
    using that by (induction rule: list_all2_induct) (auto simp: aged_def)
  with assms show ?thesis by (simp add: seen_recent_def)
qed

lemma find_slot_Some:
  "find_slot now es = Some i \<Longrightarrow>
   i < length es \<and> (\<not> active (es ! i) \<or> expired now (es ! i)) \<and> (\<forall>j<i. active (es ! j) \<and> \<not> expired now (es ! j))"
proof (induction now es arbitrary: i rule: find_slot.induct)
  case (2 now e es)
  then show ?case by (cases i) (auto split: if_splits simp: less_Suc_eq_0_disj)
qed simp

lemma find_slot_None: "find_slot now es = None \<longleftrightarrow> (\<forall>e \<in> set es. active e \<and> \<not> expired now e)"
  by (induction now es rule: find_slot.induct) auto

lemma oldest_slot:
  assumes "length es = VEX_SEEN_CAPACITY"
  shows "oldest_slot es < VEX_SEEN_CAPACITY \<and>
         (\<forall>j<VEX_SEEN_CAPACITY. timestamp (es ! oldest_slot es) \<le> timestamp (es ! j)) \<and>
         (\<forall>j<oldest_slot es. timestamp (es ! oldest_slot es) < timestamp (es ! j))"
proof -
  let ?P = "\<lambda>n (i, t). i < n \<and> t = timestamp (es ! i) \<and> (\<forall>j<n. t \<le> timestamp (es ! j)) \<and>
              (\<forall>j<i. t < timestamp (es ! j))"
  have "?P VEX_SEEN_CAPACITY (for_range 1 VEX_SEEN_CAPACITY
            (\<lambda>i (oldest_idx, oldest_time).
               if timestamp (es ! i) < oldest_time then (i, timestamp (es ! i)) else (oldest_idx, oldest_time))
            (0, timestamp (es ! 0)))"
  proof (rule for_range_inv [where P = ?P])
    fix i and s :: "nat \<times> int"
    obtain k t where s: "s = (k, t)" by (cases s)
    assume "?P i s"
    then have "k < i" "t = timestamp (es ! k)" "\<forall>j<i. t \<le> timestamp (es ! j)" "\<forall>j<k. t < timestamp (es ! j)"
      unfolding s by blast+
    then show "?P (Suc i) (case s of (oldest_idx, oldest_time) \<Rightarrow>
        if timestamp (es ! i) < oldest_time then (i, timestamp (es ! i)) else (oldest_idx, oldest_time))"
      unfolding s by (auto simp: less_Suc_eq)
  qed (simp_all add: VEX_SEEN_CAPACITY_def)
  then show ?thesis unfolding oldest_slot_def by (auto split: prod.splits)
qed

section \<open>The operations against the abstraction\<close>

lemma seen_inv_init [vex_inv]: "seen_inv (vex_seen_init c)"
  by (simp add: seen_inv_def vex_seen_init_def VEX_SEEN_CAPACITY_def)

lemma seen_inv_check [vex_inv]: "seen_inv c \<Longrightarrow> seen_inv (snd (vex_seen_check now c i))"
  by (rule aged_inv [OF _ check_aged]) simp_all

lemma seen_inv_prune [vex_inv]: "seen_inv c \<Longrightarrow> seen_inv (vex_seen_prune now c)"
  by (rule aged_inv [OF _ prune_aged]) simp_all

lemma check_result:
  assumes "seen_inv c" and "length i = 8"
  shows "fst (vex_seen_check now c i) = (if seen_held c i (now - VEX_SEEN_TTL_SEC) then 1 else 0)"
proof -
  let ?pre = "take (count c) (entries c)"
  have used: "e \<in> set ?pre" if "e \<in> set (entries c)" "active e" for e
    using that assms(1) set_append [of ?pre "drop (count c) (entries c)"] by (auto simp: seen_inv_def)
  have ids: "take 8 (seen_id e) = seen_id e" if "e \<in> set ?pre" for e
    using in_set_takeD [OF that] assms(1) by (simp add: seen_inv_def)
  have "(\<exists>e \<in> set ?pre. active e \<and> \<not> expired now e \<and> take 8 (seen_id e) = take 8 i)
          \<longleftrightarrow> (\<exists>e \<in> set ?pre. holds_id i (now - VEX_SEEN_TTL_SEC) e)"
    using assms(2) by (auto simp: holds_id_def expired_def ids)
  also have "\<dots> \<longleftrightarrow> seen_held c i (now - VEX_SEEN_TTL_SEC)"
    by (auto simp: seen_held_def holds_id_def intro: used in_set_takeD)
  finally show ?thesis by (simp add: vex_seen_check_def case_prod_unfold Let_def scan_result)
qed

text \<open>\<^verbatim>\<open>vex_seen_add\<close> replaces exactly one entry: a free one, or the oldest when all are alive.\<close>

lemma add_slot:
  assumes "seen_inv c"
  obtains k where "k < VEX_SEEN_CAPACITY"
    and "entries (vex_seen_add now c i) = (entries c)[k := \<lparr>seen_id = take 8 i, timestamp = now, active = True\<rparr>]"
    and "count (vex_seen_add now c i) = max (count c) (Suc k)"
    and "\<not> active (entries c ! k) \<or> expired now (entries c ! k) \<or>
         (\<forall>e \<in> set (entries c). active e \<and> \<not> expired now e \<and> timestamp (entries c ! k) \<le> timestamp e)"
proof (cases "find_slot now (take VEX_SEEN_CAPACITY (entries c))")
  case None
  have len: "length (entries c) = VEX_SEEN_CAPACITY" using assms by (simp add: seen_inv_def)
  from None have *: "\<forall>e \<in> set (entries c). active e \<and> \<not> expired now e"
    by (simp add: find_slot_None len)
  let ?k = "oldest_slot (entries c)"
  have k: "?k < VEX_SEEN_CAPACITY" "\<forall>e \<in> set (entries c). timestamp (entries c ! ?k) \<le> timestamp e"
    using oldest_slot [OF len] by (auto simp: in_set_conv_nth len)
  have "e \<notin> set (drop (count c) (entries c))" for e
    using assms * in_set_dropD [of e "count c" "entries c"] by (auto simp: seen_inv_def)
  then have "drop (count c) (entries c) = []" by (metis list.set_intros(1) neq_Nil_conv)
  then have "count c = VEX_SEEN_CAPACITY" using assms len by (simp add: seen_inv_def)
  then show ?thesis
    by (intro that [of ?k]) (use None * k in \<open>auto simp: vex_seen_add_def max_def\<close>)
next
  case (Some k)
  from find_slot_Some [OF this] assms have "k < VEX_SEEN_CAPACITY"
    "\<not> active (entries c ! k) \<or> expired now (entries c ! k)"
    by (auto simp: seen_inv_def)
  with Some show ?thesis by (intro that [of k]) (auto simp: vex_seen_add_def max_def)
qed

lemma seen_inv_add [vex_inv]:
  assumes "seen_inv c" and "length i = 8"
  shows "seen_inv (vex_seen_add now c i)"
proof -
  obtain k where k: "k < VEX_SEEN_CAPACITY"
    "entries (vex_seen_add now c i) = (entries c)[k := \<lparr>seen_id = take 8 i, timestamp = now, active = True\<rparr>]"
    "count (vex_seen_add now c i) = max (count c) (Suc k)"
    using add_slot [OF assms(1)] by metis
  have "set (drop (max (count c) (Suc k)) (entries c)) \<subseteq> set (drop (count c) (entries c))"
    by (simp add: set_drop_subset_set_drop)
  with k assms show ?thesis
    by (auto simp: seen_inv_def drop_update_cancel dest: set_update_subset_insert [THEN subsetD])
qed

lemma held_added:
  assumes "seen_inv c" and "length i = 8"
  shows "seen_held (vex_seen_add now c i) i now"
proof -
  let ?new = "\<lparr>seen_id = take 8 i, timestamp = now, active = True\<rparr>"
  obtain k where k: "k < VEX_SEEN_CAPACITY" "entries (vex_seen_add now c i) = (entries c)[k := ?new]"
    using add_slot [OF assms(1)] by metis
  have "?new \<in> set (entries (vex_seen_add now c i))"
    unfolding k(2) by (rule set_update_memI) (use k(1) assms(1) in \<open>simp add: seen_inv_def\<close>)
  moreover have "holds_id i now ?new" using assms(2) by (simp add: holds_id_def)
  ultimately show ?thesis unfolding seen_held_def by (rule rev_bexI)
qed

text \<open>An entry survives an addition unless \<^verbatim>\<open>VEX_SEEN_CAPACITY\<close> entries are at least as recent.\<close>

lemma held_add:
  assumes "seen_inv c" and "now \<le> t0 + VEX_SEEN_TTL_SEC"
    and "seen_recent c t0 < VEX_SEEN_CAPACITY" and "seen_held c j t0"
  shows "seen_held (vex_seen_add now c i) j t0"
proof -
  obtain k where k: "k < VEX_SEEN_CAPACITY"
    "entries (vex_seen_add now c i) = (entries c)[k := \<lparr>seen_id = take 8 i, timestamp = now, active = True\<rparr>]"
    "\<not> active (entries c ! k) \<or> expired now (entries c ! k) \<or>
       (\<forall>e \<in> set (entries c). active e \<and> \<not> expired now e \<and> timestamp (entries c ! k) \<le> timestamp e)"
    using add_slot [OF assms(1)] by metis
  have len: "length (entries c) = VEX_SEEN_CAPACITY" using assms(1) by (simp add: seen_inv_def)
  obtain m where m: "m < VEX_SEEN_CAPACITY" "holds_id j t0 (entries c ! m)"
    using assms(4) len by (auto simp: seen_held_def in_set_conv_nth)
  have "m \<noteq> k"
  proof
    assume "m = k"
    then have "active (entries c ! k)" "t0 \<le> timestamp (entries c ! k)" "\<not> expired now (entries c ! k)"
      using m assms(2) by (auto simp: holds_id_def expired_def)
    with k(3) have "\<forall>e \<in> set (entries c). active e \<and> t0 \<le> timestamp e" by force
    then have "seen_recent c t0 = VEX_SEEN_CAPACITY" by (simp add: seen_recent_def len filter_id_conv)
    with assms(3) show False by simp
  qed
  then have "(entries (vex_seen_add now c i)) ! m = entries c ! m" by (simp add: k(2))
  with m len k(2) show ?thesis by (metis length_list_update nth_mem seen_held_def)
qed

lemma recent_add: "seen_inv c \<Longrightarrow> seen_recent (vex_seen_add now c i) t0 \<le> Suc (seen_recent c t0)"
proof -
  have upd: "length (filter P (xs[k := x])) \<le> Suc (length (filter P xs))" for P and xs :: "seen_entry list" and k x
  proof (cases "k < length xs")
    case True
    have "filter P xs = filter P (take k xs @ xs ! k # drop (Suc k) xs)"
      using id_take_nth_drop [OF True] by simp
    then show ?thesis by (simp add: upd_conv_take_nth_drop [OF True])
  qed (simp add: list_update_beyond)
  assume "seen_inv c"
  then show ?thesis using upd by (metis add_slot seen_recent_def)
qed

text \<open>Nothing appears in the cache but what was added.\<close>

lemma aged_held_rev:
  assumes "list_all2 (aged now) (entries c) (entries c')" and "seen_held c' i t0"
  shows "seen_held c i t0"
proof -
  obtain e' where e': "e' \<in> set (entries c')" "holds_id i t0 e'" using assms(2) by (auto simp: seen_held_def)
  then obtain e where "e \<in> set (entries c)" "aged now e e'"
    using assms(1) by (metis list_all2_ex_left)
  with e'(2) show ?thesis by (auto simp: seen_held_def aged_def holds_id_def)
qed

lemma held_add_rev:
  assumes "seen_inv c" and "length i = 8" and "seen_held (vex_seen_add now c i) j t0"
  shows "j = i \<or> seen_held c j t0"
proof -
  obtain k where "entries (vex_seen_add now c i) =
      (entries c)[k := \<lparr>seen_id = take 8 i, timestamp = now, active = True\<rparr>]"
    using add_slot [OF assms(1)] by metis
  with assms(2,3) show ?thesis
    by (auto simp: seen_held_def holds_id_def dest!: set_update_subset_insert [THEN subsetD])
qed

section \<open>The cache implements the router's contract\<close>

interpretation seen: dedup_cache vex_seen_check vex_seen_add vex_seen_prune seen_inv
  "\<lambda>i. length i = 8" seen_held seen_recent VEX_SEEN_CAPACITY VEX_SEEN_TTL_SEC
proof (unfold_locales, goal_cases)
  case (1 c i t) then show ?case by (simp add: seen_inv_check)
next
  case (2 c i t) then show ?case by (simp add: seen_inv_add)
next
  case (3 c t) then show ?case by (simp add: seen_inv_prune)
next
  case (4 c i t) then show ?case by (simp add: check_result)
next
  case (5 c i t) then show ?case by (simp add: check_result)
next
  case (6 c t t0 j i) then show ?case using aged_held [OF check_aged] by blast
next
  case (7 c t t0 j) then show ?case using aged_held [OF prune_aged] by blast
next
  case (8 c t t0 j i) then show ?case by (simp add: held_add)
next
  case (9 c i t) then show ?case by (simp add: held_added)
next
  case (10 s t c i) then show ?case by (force simp: seen_held_def holds_id_def)
next
  case (11 t c i t0) show ?case by (rule aged_recent [OF check_aged])
next
  case (12 c t i t0) then show ?case by (rule recent_add)
next
  case (13 t c t0) show ?case by (rule aged_recent [OF prune_aged])
qed

section \<open>Properties\<close>

text \<open>The identifiers the cache regards as seen at time \<open>t\<close>.\<close>

definition seen_ids :: "seen_cache \<Rightarrow> int \<Rightarrow> bytes set" where
  "seen_ids c t = {i. seen_held c i (t - VEX_SEEN_TTL_SEC)}"

text \<open>A slot of the array that the next addition may use without evicting a live entry.\<close>

definition has_free_slot :: "seen_cache \<Rightarrow> int \<Rightarrow> bool" where
  "has_free_slot c t \<longleftrightarrow> (\<exists>e \<in> set (entries c). \<not> active e \<or> expired t e)"

lemma recent_full:
  assumes "seen_inv c" and "has_free_slot c now" and "now \<le> t0 + VEX_SEEN_TTL_SEC"
  shows "seen_recent c t0 < VEX_SEEN_CAPACITY"
proof -
  obtain e where "e \<in> set (entries c)" "\<not> (active e \<and> t0 \<le> timestamp e)"
    using assms(2,3) by (force simp: has_free_slot_def expired_def)
  then have "length (filter (\<lambda>e. active e \<and> t0 \<le> timestamp e) (entries c)) < length (entries c)"
    by (metis (mono_tags, lifting) length_filter_less)
  with assms(1) show ?thesis by (simp add: seen_recent_def seen_inv_def)
qed

text \<open>Caches for the witnesses: an empty one, and one with all slots stamped in second 5.\<close>

definition empty_cache :: seen_cache where
  "empty_cache = vex_seen_init \<lparr>entries = [], count = 0\<rparr>"

definition full_cache :: seen_cache where
  "full_cache = \<lparr>entries = replicate VEX_SEEN_CAPACITY \<lparr>seen_id = replicate 8 0, timestamp = 5, active = True\<rparr>,
     count = VEX_SEEN_CAPACITY\<rparr>"

lemma seen_inv_samples [simp]: "seen_inv empty_cache" "seen_inv full_cache"
  by (simp_all add: empty_cache_def full_cache_def vex_seen_init_def seen_inv_def VEX_SEEN_CAPACITY_def)

lemma recent_empty: "seen_recent empty_cache t = 0"
  by (simp add: seen_recent_def empty_cache_def vex_seen_init_def)

text \<open>
  C10. The array implements a set of identifiers with a 60-second lifetime: a check reports
  exactly membership, checking and pruning change no later answer, and an addition with a free
  slot adds exactly its identifier.
\<close>

theorem seen_cache_refines_set:
  assumes "seen_inv c" and "length i = 8" and "now \<le> t" and "t \<le> now + VEX_SEEN_TTL_SEC"
  shows "fst (vex_seen_check now c i) = (if i \<in> seen_ids c now then 1 else 0) \<and>
         seen_ids (snd (vex_seen_check now c i)) t = seen_ids c t \<and>
         seen_ids (vex_seen_prune now c) t = seen_ids c t \<and>
         (has_free_slot c now \<longrightarrow> seen_ids (vex_seen_add now c i) t = insert i (seen_ids c t))"
proof (intro conjI impI)
  show "fst (vex_seen_check now c i) = (if i \<in> seen_ids c now then 1 else 0)"
    using assms(1,2) by (simp add: check_result seen_ids_def)
  show "seen_ids (snd (vex_seen_check now c i)) t = seen_ids c t"
    using assms(3) aged_held_rev [OF check_aged] by (auto simp: seen_ids_def intro: aged_held [OF check_aged])
  show "seen_ids (vex_seen_prune now c) t = seen_ids c t"
    using assms(3) aged_held_rev [OF prune_aged] by (auto simp: seen_ids_def intro: aged_held [OF prune_aged])
  assume "has_free_slot c now"
  then show "seen_ids (vex_seen_add now c i) t = insert i (seen_ids c t)"
    using assms recent_full [OF assms(1), of now "t - VEX_SEEN_TTL_SEC"] held_add_rev [OF assms(1,2)]
    by (auto simp: seen_ids_def intro!: held_add seen.held_mono [OF _ held_added [OF assms(1,2)]])
qed

theorem seen_cache_refines_set_witness:
  "has_free_slot empty_cache 10 \<and>
   seen_ids (vex_seen_add 10 empty_cache (replicate 8 1)) 70 = insert (replicate 8 1) (seen_ids empty_cache 70)"
proof -
  have "has_free_slot empty_cache 10"
    by (simp add: has_free_slot_def empty_cache_def vex_seen_init_def VEX_SEEN_CAPACITY_def)
  with seen_cache_refines_set [of empty_cache "replicate 8 1" 10 70] show ?thesis by (simp add: VEX_SEEN_TTL_SEC_def)
qed

text \<open>
  C20. An identifier that was added is reported as seen for 60 seconds, through any checks,
  prunings and further additions, as long as the additions and the entries that were already as
  recent fit the 1000 slots.
\<close>

theorem seen_for_a_minute:
  assumes "seen_inv c" and "length j = 8"
    and "\<forall>x \<in> set ops. op_time x \<le> t0 + VEX_SEEN_TTL_SEC"
    and "\<forall>x \<in> set ops. (\<forall>t i. x = Check t i \<or> x = Add t i \<longrightarrow> length i = 8)"
    and "Suc (seen_recent c t0) + length (filter is_add ops) \<le> VEX_SEEN_CAPACITY"
    and "t \<le> t0 + VEX_SEEN_TTL_SEC"
  shows "fst (vex_seen_check t (fold seen.step ops (vex_seen_add t0 c j)) j) = 1"
  by (rule seen.added_is_seen [OF assms])

theorem seen_for_a_minute_witness:
  "fst (vex_seen_check 60 (fold seen.step [Add 3 (replicate 8 2), Prune 30, Check 59 (replicate 8 3)]
      (vex_seen_add 0 empty_cache (replicate 8 1))) (replicate 8 1)) = 1"
  by (rule seen_for_a_minute) (auto simp: VEX_SEEN_TTL_SEC_def VEX_SEEN_CAPACITY_def recent_empty)

lemma add_evicts:
  assumes "seen_inv c" and "length i = 8" and "\<not> has_free_slot c now"
  shows "vex_seen_add now c i =
           c\<lparr>entries := (entries c)[oldest_slot (entries c) := \<lparr>seen_id = i, timestamp = now, active = True\<rparr>]\<rparr>"
proof -
  have len: "length (entries c) = VEX_SEEN_CAPACITY" using assms(1) by (simp add: seen_inv_def)
  have "find_slot now (take VEX_SEEN_CAPACITY (entries c)) = None"
    using assms(3) by (auto simp: find_slot_None has_free_slot_def len)
  with assms(2) show ?thesis by (simp add: vex_seen_add_def)
qed

text \<open>
  C21. When every slot is alive, an addition overwrites one entry with the smallest time stamp,
  keeps every other entry and the count, and makes the new identifier seen.
\<close>

theorem seen_add_evicts_oldest:
  assumes "seen_inv c" and "length i = 8" and "\<not> has_free_slot c now"
  shows "\<exists>k < VEX_SEEN_CAPACITY.
           vex_seen_add now c i = c\<lparr>entries := (entries c)[k := \<lparr>seen_id = i, timestamp = now, active = True\<rparr>]\<rparr> \<and>
           (\<forall>e \<in> set (entries c). timestamp (entries c ! k) \<le> timestamp e) \<and>
           (\<forall>j < k. timestamp (entries c ! k) < timestamp (entries c ! j)) \<and>
           i \<in> seen_ids (vex_seen_add now c i) now"
proof -
  have len: "length (entries c) = VEX_SEEN_CAPACITY" using assms(1) by (simp add: seen_inv_def)
  have "vex_seen_add now c i =
      c\<lparr>entries := (entries c)[oldest_slot (entries c) := \<lparr>seen_id = i, timestamp = now, active = True\<rparr>]\<rparr>"
    by (rule add_evicts [OF assms])
  moreover have "i \<in> seen_ids (vex_seen_add now c i) now"
    using seen.held_mono [OF _ held_added [OF assms(1,2)], of "now - VEX_SEEN_TTL_SEC" now]
    by (simp add: seen_ids_def VEX_SEEN_TTL_SEC_def)
  ultimately show ?thesis using oldest_slot [OF len] by (metis in_set_conv_nth len)
qed

theorem seen_add_evicts_oldest_witness:
  "replicate 8 1 \<in> seen_ids (vex_seen_add 9 full_cache (replicate 8 1)) 9"
proof -
  have "\<not> has_free_slot full_cache 9"
    by (simp add: has_free_slot_def full_cache_def expired_def VEX_SEEN_TTL_SEC_def)
  from seen_add_evicts_oldest [OF _ _ this, of "replicate 8 1"] show ?thesis by auto
qed

text \<open>
  C37. Time stamps have a resolution of one second, and among equally old entries the first slot
  is overwritten. If all 1000 entries were stamped in the current second, an identifier that is
  added goes to slot 0 and the next addition of the same second evicts it again.
\<close>

theorem seen_burst_forgets_newest:
  assumes "seen_inv c" and "\<forall>e \<in> set (entries c). active e \<and> timestamp e = now"
    and "\<forall>e \<in> set (entries c). seen_id e \<noteq> x" and "length x = 8" and "length y = 8" and "x \<noteq> y"
  shows "fst (vex_seen_check now (vex_seen_add now (vex_seen_add now c x) y) x) = 0"
proof -
  let ?put = "\<lambda>i. \<lparr>seen_id = i, timestamp = now, active = True\<rparr>"
  have zero: "vex_seen_add now d i = d\<lparr>entries := (entries d)[0 := ?put i]\<rparr>"
    if d: "seen_inv d" "\<forall>e \<in> set (entries d). active e \<and> timestamp e = now" and i: "length i = 8" for d i
  proof -
    have "\<not> has_free_slot d now" using d(2) by (auto simp: has_free_slot_def expired_def VEX_SEEN_TTL_SEC_def)
    note add = add_evicts [OF d(1) i this]
    have "length (entries d) = VEX_SEEN_CAPACITY" using d(1) by (simp add: seen_inv_def)
    from oldest_slot [OF this] obtain k where k: "k < VEX_SEEN_CAPACITY"
      "vex_seen_add now d i = d\<lparr>entries := (entries d)[k := ?put i]\<rparr>"
      "\<forall>j < k. timestamp (entries d ! k) < timestamp (entries d ! j)" using add by blast
    have "timestamp (entries d ! j) = now" if "j \<le> k" for j
      using that k(1) d by (simp add: seen_inv_def)
    with k(3) have "k = 0" by (metis less_irrefl le0 neq0_conv order_refl)
    with k(2) show ?thesis by simp
  qed
  let ?c1 = "vex_seen_add now c x"
  have 1: "?c1 = c\<lparr>entries := (entries c)[0 := ?put x]\<rparr>" using zero assms by blast
  have inv1: "seen_inv ?c1" using assms by (simp add: seen_inv_add)
  have "\<forall>e \<in> set (entries ?c1). active e \<and> timestamp e = now"
    using assms(2) unfolding 1 by (auto dest!: set_update_subset_insert [THEN subsetD])
  then have 2: "vex_seen_add now ?c1 y = c\<lparr>entries := (entries c)[0 := ?put y]\<rparr>"
    using zero [OF inv1 _ assms(5)] by (simp add: 1)
  have "\<not> seen_held (vex_seen_add now ?c1 y) x t" for t
    using assms(3,6) unfolding 2
    by (auto simp: seen_held_def holds_id_def dest!: set_update_subset_insert [THEN subsetD])
  then show ?thesis using inv1 assms(4,5) by (simp add: check_result seen_inv_add)
qed

theorem seen_burst_forgets_newest_witness:
  "fst (vex_seen_check 5 (vex_seen_add 5 (vex_seen_add 5 full_cache (replicate 8 1)) (replicate 8 2)) (replicate 8 1)) = 0"
proof (rule seen_burst_forgets_newest)
  show "\<forall>e \<in> set (entries full_cache). active e \<and> timestamp e = 5"
    "\<forall>e \<in> set (entries full_cache). seen_id e \<noteq> replicate 8 1" by (auto simp: full_cache_def)
qed simp_all

end
