(* ===== verification/Vex_Node.thy ===== *)
theory Vex_Node
  imports Vex_Packet Vex_Seen
begin

text \<open>
  The peer and node structures of \<^verbatim>\<open>src/vex.h\<close>. Integers that the code only uses as flags are
  Booleans; \<^verbatim>\<open>time_t\<close>, file descriptors and \<^verbatim>\<open>int\<close> counters are integers; the statistics are
  64-bit words, which wrap.
\<close>

definition VEX_DEFAULT_TTL :: u8 where "VEX_DEFAULT_TTL = 7"
definition VEX_MAX_PEERS :: nat where "VEX_MAX_PEERS = 32"
definition VEX_SCAN_INTERVAL :: int where "VEX_SCAN_INTERVAL = 15"
definition VEX_SERVICE_UUID :: bytes where
  "VEX_SERVICE_UUID = str_bytes ''0000vc01-0000-1000-8000-00805f9b34fb''"

record vex_peer =
  fd :: int
  peer_name :: bytes
  pubkey :: bytes
  peer_active :: bool
  rssi :: int
  last_seen :: int

record vex_node =
  sign_pk :: bytes
  sign_sk :: bytes
  box_pk :: bytes
  box_sk :: bytes
  node_name :: bytes
  mesh_key :: bytes
  peers :: "vex_peer list"
  peer_count :: int
  node_seen :: seen_cache
  packets_sent :: u64
  packets_received :: u64
  packets_relayed :: u64
  packets_dropped :: u64
  started_at :: int
  default_ttl :: u8
  scan_interval :: int
  relay_enabled :: bool
  lora_enabled :: bool
  running :: bool
  listen_fd :: int

text \<open>The array sizes of the structure.\<close>

definition node_shape :: "vex_node \<Rightarrow> bool" where
  "node_shape n \<longleftrightarrow> length (sign_pk n) = 32 \<and> length (sign_sk n) = 64 \<and> length (box_pk n) = 32 \<and>
     length (box_sk n) = 32 \<and> length (node_name n) = 64 \<and> length (mesh_key n) = 32 \<and>
     length (peers n) = VEX_MAX_PEERS \<and> (\<forall>p \<in> set (peers n). length (peer_name p) = 64 \<and> length (pubkey p) = 32)"

definition zero_peer :: vex_peer where
  "zero_peer = \<lparr>fd = 0, peer_name = replicate 64 0, pubkey = replicate 32 0, peer_active = False,
     rssi = 0, last_seen = 0\<rparr>"

text \<open>\<^verbatim>\<open>memset(node, 0, sizeof( *node))\<close>.\<close>

definition zero_node :: vex_node where
  "zero_node = \<lparr>sign_pk = replicate 32 0, sign_sk = replicate 64 0, box_pk = replicate 32 0,
     box_sk = replicate 32 0, node_name = replicate 64 0, mesh_key = replicate 32 0,
     peers = replicate VEX_MAX_PEERS zero_peer, peer_count = 0,
     node_seen = \<lparr>entries = replicate VEX_SEEN_CAPACITY \<lparr>seen_id = replicate 8 0, timestamp = 0, active = False\<rparr>, count = 0\<rparr>,
     packets_sent = 0, packets_received = 0, packets_relayed = 0, packets_dropped = 0, started_at = 0,
     default_ttl = 0, scan_interval = 0, relay_enabled = False, lora_enabled = False, running = False,
     listen_fd = 0\<rparr>"

lemma node_shape_zero [simp]: "node_shape zero_node"
  by (simp add: node_shape_def zero_node_def zero_peer_def VEX_MAX_PEERS_def)

end
