(* ===== verification/NaCl_Field.thy ===== *)
theory NaCl_Field
  imports NaCl_Bytes
begin

text \<open>
  Arithmetic modulo 2^255 - 19 in \<^verbatim>\<open>src/tweetnacl.c\<close> (\<^verbatim>\<open>car25519\<close> to \<^verbatim>\<open>pow2523\<close>). A field element is a
  \<^verbatim>\<open>gf\<close>: 16 signed limbs of weight 2^16, redundant and not reduced until it is packed.

  \<^verbatim>\<open>i64\<close> is a signed type whose overflow is undefined; the model computes in the integers. Shifts to the
  right are arithmetic, as gcc defines them.
\<close>

type_synonym gf = "int list"

definition gf0 :: gf where "gf0 = replicate 16 0"
definition gf1 :: gf where "gf1 = 1 # replicate 15 0"
definition gf_121665 :: gf where "gf_121665 = [0xDB41, 1, 0, 0, 0, 0, 0, 0, 0, 0, 0, 0, 0, 0, 0, 0]"
definition gf_D :: gf where
  "gf_D = [0x78a3, 0x1359, 0x4dca, 0x75eb, 0xd8ab, 0x4141, 0x0a4d, 0x0070,
           0xe898, 0x7779, 0x4079, 0x8cc7, 0xfe73, 0x2b6f, 0x6cee, 0x5203]"
definition gf_D2 :: gf where
  "gf_D2 = [0xf159, 0x26b2, 0x9b94, 0xebd6, 0xb156, 0x8283, 0x149a, 0x00e0,
            0xd130, 0xeef3, 0x80f2, 0x198e, 0xfce7, 0x56df, 0xd9dc, 0x2406]"
definition gf_X :: gf where
  "gf_X = [0xd51a, 0x8f25, 0x2d60, 0xc956, 0xa7b2, 0x9525, 0xc760, 0x692c,
           0xdc5c, 0xfdd6, 0xe231, 0xc0a4, 0x53fe, 0xcd6e, 0x36d3, 0x2169]"
definition gf_Y :: gf where
  "gf_Y = [0x6658, 0x6666, 0x6666, 0x6666, 0x6666, 0x6666, 0x6666, 0x6666,
           0x6666, 0x6666, 0x6666, 0x6666, 0x6666, 0x6666, 0x6666, 0x6666]"
definition gf_I :: gf where
  "gf_I = [0xa0b0, 0x4a0e, 0x1b27, 0xc4ee, 0xe478, 0xad2f, 0x1806, 0x2f43,
           0xd7a7, 0x3dfb, 0x0099, 0x2b4d, 0xdf0b, 0x4fc1, 0x2480, 0x2b83]"

definition set25519 :: "gf \<Rightarrow> gf" where
  "set25519 a = FOR 16 (\<lambda>i r. r[i := a ! i]) (replicate 16 0)"

definition car_step :: "nat \<Rightarrow> gf \<Rightarrow> gf" where
  "car_step i p =
     (let p = p[i := p ! i + 2 ^ 16];
          c = drop_bit 16 (p ! i);
          k = (i + 1) * (if i < 15 then 1 else 0);
          p = p[k := p ! k + (c - 1 + 37 * (c - 1) * (if i = 15 then 1 else 0))]
      in p[i := p ! i - push_bit 16 c])"

definition car25519 :: "gf \<Rightarrow> gf" where
  "car25519 p = FOR 16 car_step p"

text \<open>Swaps \<^verbatim>\<open>p\<close> and \<^verbatim>\<open>q\<close> when \<^verbatim>\<open>b\<close> is 1, without branching on it.\<close>

definition sel25519 :: "gf \<Rightarrow> gf \<Rightarrow> int \<Rightarrow> gf \<times> gf" where
  "sel25519 p q b =
     (let c = NOT (b - 1) in
      FOR 16 (\<lambda>i (p, q). let t = c AND (p ! i XOR q ! i) in (p[i := p ! i XOR t], q[i := q ! i XOR t])) (p, q))"

text \<open>One trial subtraction of the prime: the borrow chain fills \<^verbatim>\<open>m\<close>.\<close>

definition pack_sub :: "gf \<Rightarrow> gf \<Rightarrow> gf" where
  "pack_sub t m =
     (let m = m[0 := t ! 0 - 0xffed];
          m = for_range 1 15 (\<lambda>i m.
                let m = m[i := t ! i - 0xffff - (drop_bit 16 (m ! (i - 1)) AND 1)]
                in m[i - 1 := m ! (i - 1) AND 0xffff]) m
      in m[15 := t ! 15 - 0x7fff - (drop_bit 16 (m ! 14) AND 1)])"

definition pack25519 :: "gf \<Rightarrow> bytes" where
  "pack25519 n =
     (let t = FOR 16 (\<lambda>i t. t[i := n ! i]) (replicate 16 0);
          t = car25519 (car25519 (car25519 t));
          (t, m) = FOR 2 (\<lambda>j (t, m).
             let m = pack_sub t m;
                 b = drop_bit 16 (m ! 15) AND 1;
                 m = m[14 := m ! 14 AND 0xffff]
             in sel25519 t m (1 - b)) (t, replicate 16 0)
      in FOR 16 (\<lambda>i o'. o'[2 * i := word_of_int (t ! i AND 0xff),
                          2 * i + 1 := word_of_int (drop_bit 8 (t ! i))]) (replicate 32 0))"

definition neq25519 :: "gf \<Rightarrow> gf \<Rightarrow> int" where
  "neq25519 a b = crypto_verify_32 (pack25519 a) (pack25519 b)"

definition par25519 :: "gf \<Rightarrow> u8" where
  "par25519 a = pack25519 a ! 0 AND 1"

definition unpack25519 :: "bytes \<Rightarrow> gf" where
  "unpack25519 n =
     (let p = FOR 16 (\<lambda>i p. p[i := uint (n ! (2 * i)) + push_bit 8 (uint (n ! (2 * i + 1)))]) (replicate 16 0)
      in p[15 := p ! 15 AND 0x7fff])"

definition gf_A :: "gf \<Rightarrow> gf \<Rightarrow> gf" where
  "gf_A a b = FOR 16 (\<lambda>i p. p[i := a ! i + b ! i]) (replicate 16 0)"

definition gf_Z :: "gf \<Rightarrow> gf \<Rightarrow> gf" where
  "gf_Z a b = FOR 16 (\<lambda>i p. p[i := a ! i - b ! i]) (replicate 16 0)"

definition gf_M :: "gf \<Rightarrow> gf \<Rightarrow> gf" where
  "gf_M a b =
     (let t = FOR 31 (\<lambda>i t. t[i := 0]) (replicate 31 0);
          t = FOR 16 (\<lambda>i. FOR 16 (\<lambda>j t. t[i + j := t ! (i + j) + a ! i * b ! j])) t;
          t = FOR 15 (\<lambda>i t. t[i := t ! i + 38 * t ! (i + 16)]) t;
          p = FOR 16 (\<lambda>i p. p[i := t ! i]) (replicate 16 0)
      in car25519 (car25519 p))"

definition gf_S :: "gf \<Rightarrow> gf" where
  "gf_S a = gf_M a a"

definition inv25519 :: "gf \<Rightarrow> gf" where
  "inv25519 i =
     (let c = FOR 16 (\<lambda>a c. c[a := i ! a]) (replicate 16 0);
          c = for_down 253 0 (\<lambda>a c. let c = gf_S c in if a \<noteq> 2 \<and> a \<noteq> 4 then gf_M c i else c) c
      in FOR 16 (\<lambda>a p. p[a := c ! a]) (replicate 16 0))"

definition pow2523 :: "gf \<Rightarrow> gf" where
  "pow2523 i =
     (let c = FOR 16 (\<lambda>a c. c[a := i ! a]) (replicate 16 0);
          c = for_down 250 0 (\<lambda>a c. let c = gf_S c in if a \<noteq> 1 then gf_M c i else c) c
      in FOR 16 (\<lambda>a p. p[a := c ! a]) (replicate 16 0))"

lemma length_pack25519 [simp, vex_len]: "length (pack25519 n) = 32"
proof -
  have "length (FOR 16 (\<lambda>i o'. o'[2 * i := f i, 2 * i + 1 := g i]) (replicate 32 (0 :: u8))) = 32" for f g
    by (rule for_range_preserves [where P = "\<lambda>x. length x = 32"]) simp_all
  then show ?thesis by (simp add: pack25519_def Let_def split: prod.splits)
qed

end
