(* ===== verification/NaCl_Salsa20.thy ===== *)
theory NaCl_Salsa20
  imports NaCl_Bytes
begin

text \<open>
  The Salsa20 family of \<^verbatim>\<open>src/tweetnacl.c\<close>: the core in its two forms, the stream cipher Salsa20
  and its extended-nonce form XSalsa20 (\<^verbatim>\<open>crypto_stream\<close>, \<^verbatim>\<open>crypto_stream_xor\<close>).
\<close>

section \<open>The core\<close>

definition L32 :: "u32l \<Rightarrow> nat \<Rightarrow> u32l" where
  "L32 x c = push_bit c x OR drop_bit (32 - c) (x AND 0xffffffff)"

text \<open>The column step for \<^verbatim>\<open>j\<close>: the four words \<^verbatim>\<open>t\<close> and their place in \<^verbatim>\<open>w\<close>.\<close>

definition core_column :: "u32l list \<Rightarrow> nat \<Rightarrow> u32l list \<Rightarrow> u32l list" where
  "core_column x j w =
     (let t = map (\<lambda>m. x ! ((5 * j + 4 * m) mod 16)) [0..<4];
          t = t[1 := t ! 1 XOR L32 (t ! 0 + t ! 3) 7];
          t = t[2 := t ! 2 XOR L32 (t ! 1 + t ! 0) 9];
          t = t[3 := t ! 3 XOR L32 (t ! 2 + t ! 1) 13];
          t = t[0 := t ! 0 XOR L32 (t ! 3 + t ! 2) 18]
      in FOR 4 (\<lambda>m w. w[4 * j + (j + m) mod 4 := t ! m]) w)"

definition core_round :: "u32l list \<times> u32l list \<Rightarrow> u32l list \<times> u32l list" where
  "core_round = (\<lambda>(x, w).
     let w = FOR 4 (core_column x) w;
         x = FOR 16 (\<lambda>m x. x[m := w ! m]) x
     in (x, w))"

definition core_init :: "bytes \<Rightarrow> bytes \<Rightarrow> bytes \<Rightarrow> u32l list" where
  "core_init inp k c =
     FOR 4 (\<lambda>i x. x[5 * i := ld32 (drop (4 * i) c),
                     1 + i := ld32 (drop (4 * i) k),
                     6 + i := ld32 (drop (4 * i) inp),
                     11 + i := ld32 (drop (16 + 4 * i) k)]) (replicate 16 0)"

definition nacl_core :: "bytes \<Rightarrow> bytes \<Rightarrow> bytes \<Rightarrow> bool \<Rightarrow> bytes" where
  "nacl_core inp k c h =
     (let x = core_init inp k c;
          y = x;
          (x, w) = FOR 20 (\<lambda>_. core_round) (x, replicate 16 0)
      in if h then
           let x = FOR 16 (\<lambda>i x. x[i := x ! i + y ! i]) x;
               x = FOR 4 (\<lambda>i x. let x = x[5 * i := x ! (5 * i) - ld32 (drop (4 * i) c)]
                                 in x[6 + i := x ! (6 + i) - ld32 (drop (4 * i) inp)]) x
           in concat (map (\<lambda>i. st32 (x ! (5 * i))) [0..<4]) @ concat (map (\<lambda>i. st32 (x ! (6 + i))) [0..<4])
         else concat (map (\<lambda>i. st32 (x ! i + y ! i)) [0..<16]))"

definition crypto_core_salsa20 :: "bytes \<Rightarrow> bytes \<Rightarrow> bytes \<Rightarrow> bytes" where
  "crypto_core_salsa20 inp k c = nacl_core inp k c False"

definition crypto_core_hsalsa20 :: "bytes \<Rightarrow> bytes \<Rightarrow> bytes \<Rightarrow> bytes" where
  "crypto_core_hsalsa20 inp k c = nacl_core inp k c True"

definition nacl_sigma :: bytes where
  "nacl_sigma = str_bytes ''expand 32-byte k''"

section \<open>The stream\<close>

text \<open>\<^verbatim>\<open>(m?m[i]:0)\<close>: without a message the cipher returns its key stream.\<close>

definition msg_byte :: "bytes option \<Rightarrow> nat \<Rightarrow> u8" where
  "msg_byte m i = (case m of None \<Rightarrow> 0 | Some m \<Rightarrow> m ! i)"

text \<open>The 64-bit little-endian block counter in the last eight bytes of \<^verbatim>\<open>z\<close>.\<close>

definition salsa20_next :: "bytes \<Rightarrow> bytes" where
  "salsa20_next z =
     fst (for_range 8 16 (\<lambda>i (z, u). let u = u + ucast (z ! i) in (z[i := ucast u], drop_bit 8 u)) (z, 1 :: u32l))"

function salsa20_xor_loop :: "bytes option \<Rightarrow> nat \<Rightarrow> bytes \<Rightarrow> bytes \<Rightarrow> bytes" where
  "salsa20_xor_loop m b z k =
     (if b \<ge> 64 then
        let x = crypto_core_salsa20 z k nacl_sigma;
            c = map (\<lambda>i. msg_byte m i XOR x ! i) [0..<64]
        in c @ salsa20_xor_loop (map_option (drop 64) m) (b - 64) (salsa20_next z) k
      else if b \<noteq> 0 then
        let x = crypto_core_salsa20 z k nacl_sigma
        in map (\<lambda>i. msg_byte m i XOR x ! i) [0..<b]
      else [])"
  by pat_completeness auto
termination
  by (relation "measure (\<lambda>(m, b, z, k). b)") auto

declare salsa20_xor_loop.simps [simp del]

text \<open>The functions return the \<open>b\<close> bytes they write at \<^verbatim>\<open>c\<close>; all of them return 0.\<close>

definition crypto_stream_salsa20_xor :: "bytes option \<Rightarrow> nat \<Rightarrow> bytes \<Rightarrow> bytes \<Rightarrow> bytes" where
  "crypto_stream_salsa20_xor m b n k =
     (if b = 0 then []
      else let z = replicate 16 0;
               z = FOR 8 (\<lambda>i z. z[i := n ! i]) z
           in salsa20_xor_loop m b z k)"

definition crypto_stream_salsa20 :: "nat \<Rightarrow> bytes \<Rightarrow> bytes \<Rightarrow> bytes" where
  "crypto_stream_salsa20 d n k = crypto_stream_salsa20_xor None d n k"

definition crypto_stream :: "nat \<Rightarrow> bytes \<Rightarrow> bytes \<Rightarrow> bytes" where
  "crypto_stream d n k =
     (let s = crypto_core_hsalsa20 n k nacl_sigma in crypto_stream_salsa20 d (drop 16 n) s)"

definition crypto_stream_xor :: "bytes \<Rightarrow> nat \<Rightarrow> bytes \<Rightarrow> bytes \<Rightarrow> bytes" where
  "crypto_stream_xor m d n k =
     (let s = crypto_core_hsalsa20 n k nacl_sigma in crypto_stream_salsa20_xor (Some m) d (drop 16 n) s)"

section \<open>Lengths, prefixes and the key stream\<close>

lemma length_core_salsa20 [simp, vex_len]: "length (crypto_core_salsa20 i k c) = 64"
  by (simp add: crypto_core_salsa20_def nacl_core_def Let_def length_concat upt_rec split: prod.splits)

lemma length_core_hsalsa20 [simp, vex_len]: "length (crypto_core_hsalsa20 i k c) = 32"
  by (simp add: crypto_core_hsalsa20_def nacl_core_def Let_def length_concat upt_rec split: prod.splits)

lemma length_xor_loop [simp, vex_len]: "length (salsa20_xor_loop m b z k) = b"
proof (induction m b z k rule: salsa20_xor_loop.induct)
  case (1 m b z k)
  then show ?case by (subst salsa20_xor_loop.simps) (simp add: Let_def)
qed

lemma length_stream_salsa20_xor [simp, vex_len]: "length (crypto_stream_salsa20_xor m b n k) = b"
  by (simp add: crypto_stream_salsa20_xor_def Let_def)

lemma length_stream [simp, vex_len]: "length (crypto_stream d n k) = d"
  by (simp add: crypto_stream_def crypto_stream_salsa20_def Let_def)

lemma length_stream_xor [simp, vex_len]: "length (crypto_stream_xor m d n k) = d"
  by (simp add: crypto_stream_xor_def Let_def)

text \<open>Encryption is the exclusive or with the key stream.\<close>

lemma xor_loop_keystream:
  "b \<le> length m \<Longrightarrow> salsa20_xor_loop (Some m) b z k = map2 (XOR) (take b m) (salsa20_xor_loop None b z k)"
proof (induction b arbitrary: m z rule: less_induct)
  case (less b)
  have block: "map (\<lambda>i. msg_byte (Some m) i XOR x ! i) [0..<n] =
      map2 (XOR) (take n m) (map (\<lambda>i. msg_byte None i XOR x ! i) [0..<n])"
    if "n \<le> length m" for n and x :: bytes
    using that by (auto intro!: nth_equalityI simp: msg_byte_def)
  show ?case
  proof (cases "b \<ge> 64")
    case True
    have IH: "salsa20_xor_loop (Some (drop 64 m)) (b - 64) (salsa20_next z) k =
        map2 (XOR) (take (b - 64) (drop 64 m)) (salsa20_xor_loop None (b - 64) (salsa20_next z) k)"
      by (rule less.IH) (use True less.prems in auto)
    have "take b m = take 64 m @ take (b - 64) (drop 64 m)"
      using True by (metis le_add_diff_inverse take_add)
    moreover have "length (take 64 m) = 64" using True less.prems by simp
    ultimately show ?thesis
      using True less.prems block [of 64]
      by (subst (1 2) salsa20_xor_loop.simps) (simp add: Let_def IH)
  next
    case False
    then show ?thesis
      using block [of b] less.prems by (subst (1 2) salsa20_xor_loop.simps) (simp add: Let_def)
  qed
qed

text \<open>A shorter key stream is a prefix of a longer one.\<close>

lemma xor_loop_prefix:
  "a \<le> b \<Longrightarrow> take a (salsa20_xor_loop None b z k) = salsa20_xor_loop None a z k"
proof (induction b arbitrary: a z rule: less_induct)
  case (less b)
  show ?case
  proof (cases "b \<ge> 64")
    case True
    show ?thesis
    proof (cases "a \<ge> 64")
      case a: True
      have "take (a - 64) (salsa20_xor_loop None (b - 64) (salsa20_next z) k) =
            salsa20_xor_loop None (a - 64) (salsa20_next z) k"
        by (rule less.IH) (use True a less.prems in auto)
      with True a show ?thesis by (subst (1 2) salsa20_xor_loop.simps) (simp add: Let_def)
    next
      case a: False
      with True show ?thesis
        by (subst (1 2) salsa20_xor_loop.simps) (simp add: Let_def take_map)
    qed
  next
    case False
    with less.prems show ?thesis
      by (subst (1 2) salsa20_xor_loop.simps) (simp add: Let_def take_map)
  qed
qed

lemma stream_salsa20_xor_loop:
  "crypto_stream_salsa20_xor m b n k = salsa20_xor_loop m b (FOR 8 (\<lambda>i z. z[i := n ! i]) (replicate 16 0)) k"
proof (cases "b = 0")
  case True
  then show ?thesis by (subst salsa20_xor_loop.simps) (simp add: crypto_stream_salsa20_xor_def)
qed (simp add: crypto_stream_salsa20_xor_def)

lemma stream_xor_keystream:
  "d \<le> length m \<Longrightarrow> crypto_stream_xor m d n k = map2 (XOR) (take d m) (crypto_stream d n k)"
  by (simp add: crypto_stream_xor_def crypto_stream_def crypto_stream_salsa20_def Let_def
      stream_salsa20_xor_loop xor_loop_keystream)

lemma stream_prefix: "a \<le> d \<Longrightarrow> take a (crypto_stream d n k) = crypto_stream a n k"
  by (simp add: crypto_stream_def crypto_stream_salsa20_def Let_def stream_salsa20_xor_loop xor_loop_prefix)

end
