(* ===== verification/NaCl_Poly1305.thy ===== *)
theory NaCl_Poly1305
  imports NaCl_Bytes
begin

text \<open>
  The one-time authenticator of \<^verbatim>\<open>src/tweetnacl.c\<close> (\<^verbatim>\<open>add1305\<close>, \<^verbatim>\<open>crypto_onetimeauth\<close>,
  \<^verbatim>\<open>crypto_onetimeauth_verify\<close>): numbers below 2^136 as 17 limbs of eight bits in \<^verbatim>\<open>u32\<close> words.
\<close>

section \<open>Limb arithmetic\<close>

text \<open>\<^verbatim>\<open>add1305(h, c)\<close> adds \<^verbatim>\<open>c\<close> to \<^verbatim>\<open>h\<close> in place and propagates the carry.\<close>

definition add1305 :: "u32l list \<Rightarrow> u32l list \<Rightarrow> u32l list" where
  "add1305 h c =
     fst (FOR 17 (\<lambda>j (h, u). let u = u + (h ! j + c ! j) in (h[j := u AND 255], drop_bit 8 u)) (h, 0))"

definition minusp :: "u32l list" where
  "minusp = [5, 0, 0, 0, 0, 0, 0, 0, 0, 0, 0, 0, 0, 0, 0, 0, 252]"

text \<open>The product of \<^verbatim>\<open>h\<close> and \<^verbatim>\<open>r\<close>: limb \<open>i + 17\<close> comes back at limb \<open>i\<close> with weight 320 = 5 * 64.\<close>

definition mul1305 :: "u32l list \<Rightarrow> u32l list \<Rightarrow> u32l list" where
  "mul1305 h r =
     FOR 17 (\<lambda>i x. FOR 17 (\<lambda>j x. x[i := x ! i + h ! j * (if j \<le> i then r ! (i - j) else 320 * r ! (i + 17 - j))])
                     (x[i := 0]))
       (replicate 17 0)"

text \<open>The two carry passes after the product.\<close>

definition carry1305 :: "u32l list \<times> u32l \<Rightarrow> u32l list \<times> u32l" where
  "carry1305 = FOR 16 (\<lambda>j (h, u). let u = u + h ! j in (h[j := u AND 255], drop_bit 8 u))"

definition reduce1305 :: "u32l list \<Rightarrow> u32l list" where
  "reduce1305 h =
     (let (h, u) = carry1305 (h, 0);
          u = u + h ! 16;
          h = h[16 := u AND 3];
          u = 5 * drop_bit 2 u;
          (h, u) = carry1305 (h, u);
          u = u + h ! 16
      in h[16 := u])"

section \<open>The authenticator\<close>

text \<open>The clamped multiplier.\<close>

definition clamp1305 :: "bytes \<Rightarrow> u32l list" where
  "clamp1305 k =
     (let r = FOR 17 (\<lambda>j r. r[j := 0]) (replicate 17 0);
          r = FOR 16 (\<lambda>j r. r[j := ucast (k ! j)]) r;
          r = r[3 := r ! 3 AND 15];
          r = r[4 := r ! 4 AND 252];
          r = r[7 := r ! 7 AND 15];
          r = r[8 := r ! 8 AND 252];
          r = r[11 := r ! 11 AND 15];
          r = r[12 := r ! 12 AND 252]
      in r[15 := r ! 15 AND 15])"

text \<open>The next block of at most 16 bytes, with a 1 after its last byte.\<close>

definition block1305 :: "bytes \<Rightarrow> nat \<Rightarrow> u32l list" where
  "block1305 m n =
     (let c = FOR 17 (\<lambda>j c. c[j := 0]) (replicate 17 0);
          j = min 16 n;
          c = FOR j (\<lambda>j c. c[j := ucast (m ! j)]) c
      in c[j := 1])"

function auth_loop :: "u32l list \<Rightarrow> u32l list \<Rightarrow> bytes \<Rightarrow> nat \<Rightarrow> u32l list" where
  "auth_loop r h m n =
     (if n > 0 then
        let c = block1305 m n;
            j = min 16 n;
            m = drop j m;
            n' = n - j;
            h = add1305 h c;
            x = mul1305 h r;
            h = FOR 17 (\<lambda>i h. h[i := x ! i]) h;
            h = reduce1305 h
        in auth_loop r h m n'
      else h)"
  by pat_completeness auto
termination
  by (relation "measure (\<lambda>(r, h, m, n). n)") auto

declare auth_loop.simps [simp del]

text \<open>The final subtraction of the prime, undone under the mask \<^verbatim>\<open>s\<close> when it went below zero.\<close>

definition freeze1305 :: "u32l list \<Rightarrow> u32l list" where
  "freeze1305 h =
     (let g = h;
          h = add1305 h minusp;
          s = - drop_bit 7 (h ! 16)
      in FOR 17 (\<lambda>j h. h[j := h ! j XOR (s AND (g ! j XOR h ! j))]) h)"

definition crypto_onetimeauth :: "bytes \<Rightarrow> nat \<Rightarrow> bytes \<Rightarrow> bytes" where
  "crypto_onetimeauth m n k =
     (let h = FOR 17 (\<lambda>j h. h[j := 0]) (replicate 17 0);
          r = clamp1305 k;
          h = auth_loop r h m n;
          h = freeze1305 h;
          c = FOR 16 (\<lambda>j c. c[j := ucast (k ! (j + 16))]) (replicate 17 0);
          c = c[16 := 0];
          h = add1305 h c
      in map (\<lambda>j. ucast (h ! j)) [0..<16])"

definition crypto_onetimeauth_verify :: "bytes \<Rightarrow> bytes \<Rightarrow> nat \<Rightarrow> bytes \<Rightarrow> int" where
  "crypto_onetimeauth_verify h m n k =
     (let x = crypto_onetimeauth m n k in crypto_verify_16 h x)"

lemma length_onetimeauth [simp, vex_len]: "length (crypto_onetimeauth m n k) = 16"
  by (simp add: crypto_onetimeauth_def Let_def)

section \<open>What the authenticator reads\<close>

text \<open>The tag depends on the first \<open>n\<close> bytes of the message and the first 32 of the key only.\<close>

lemma block1305_cong:
  "\<forall>i<n. m ! i = m' ! i \<Longrightarrow> block1305 m n = block1305 m' n"
  unfolding block1305_def Let_def by (simp cong: FOR_cong)

lemma auth_loop_cong:
  "n \<le> length m \<Longrightarrow> n \<le> length m' \<Longrightarrow> \<forall>i<n. m ! i = m' ! i \<Longrightarrow> auth_loop r h m n = auth_loop r h m' n"
proof (induction n arbitrary: m m' h rule: less_induct)
  case (less n)
  show ?case
  proof (cases "n > 0")
    case True
    have "auth_loop r h' (drop (min 16 n) m) (n - min 16 n) = auth_loop r h' (drop (min 16 n) m') (n - min 16 n)" for h'
      by (rule less.IH) (use True less.prems in auto)
    with True show ?thesis
      by (subst (1 2) auth_loop.simps) (simp add: Let_def block1305_cong [OF less.prems(3)])
  next
    case False
    then show ?thesis by (subst (1 2) auth_loop.simps) simp
  qed
qed

lemma clamp1305_cong: "\<forall>i<16. k ! i = k' ! i \<Longrightarrow> clamp1305 k = clamp1305 k'"
  unfolding clamp1305_def Let_def by (simp cong: FOR_cong)

lemma onetimeauth_cong:
  assumes "n \<le> length m" and "n \<le> length m'" and "\<forall>i<n. m ! i = m' ! i" and "\<forall>i<32. k ! i = k' ! i"
  shows "crypto_onetimeauth m n k = crypto_onetimeauth m' n k'"
proof -
  have "clamp1305 k = clamp1305 k'" using assms(4) by (intro clamp1305_cong) simp
  moreover have "FOR 16 (\<lambda>j c. c[j := ucast (k ! (j + 16))]) c = FOR 16 (\<lambda>j c. c[j := ucast (k' ! (j + 16))]) c"
    for c :: "u32l list"
    using assms(4) by (intro FOR_cong) simp
  ultimately show ?thesis
    using auth_loop_cong [OF assms(1-3)] by (simp add: crypto_onetimeauth_def Let_def)
qed

end
