(* ===== verification/NaCl_Secretbox.thy ===== *)
theory NaCl_Secretbox
  imports NaCl_Salsa20 NaCl_Poly1305
begin

text \<open>
  Secret-key authenticated encryption of \<^verbatim>\<open>src/tweetnacl.c\<close>: \<^verbatim>\<open>crypto_secretbox\<close> and
  \<^verbatim>\<open>crypto_secretbox_open\<close>. The models return the code's \<^verbatim>\<open>int\<close> and the output buffer, which the
  early error returns leave as it was.
\<close>

section \<open>The contract\<close>

text \<open>
  What the node's own code relies on: sealing succeeds on a padded message and leaves sixteen
  zero bytes in front; opening what was sealed under the same nonce and key gives the message
  back; an input shorter than the padding is refused.
\<close>

locale secret_box =
  fixes box :: "bytes \<Rightarrow> bytes \<Rightarrow> nat \<Rightarrow> bytes \<Rightarrow> bytes \<Rightarrow> int \<times> bytes"
    and box_open :: "bytes \<Rightarrow> bytes \<Rightarrow> nat \<Rightarrow> bytes \<Rightarrow> bytes \<Rightarrow> int \<times> bytes"
  assumes box_ok: "32 \<le> d \<Longrightarrow> d \<le> length m \<Longrightarrow> d \<le> length c \<Longrightarrow>
        fst (box c m d n k) = 0 \<and> length (snd (box c m d n k)) = length c \<and>
        take 16 (snd (box c m d n k)) = replicate 16 0"
    and open_box: "32 \<le> d \<Longrightarrow> d \<le> length m \<Longrightarrow> d \<le> length c \<Longrightarrow> take 32 m = replicate 32 0 \<Longrightarrow>
        d \<le> length c' \<Longrightarrow> take d c' = take d (snd (box c m d n k)) \<Longrightarrow>
        box_open m' c' d n k = (0, take d m @ drop d m')"
    and open_short: "d < 32 \<Longrightarrow> box_open m c d n k = (-1, m)"
begin

text \<open>A message survives padding, sealing, removing the sixteen zeros, adding them again and opening.\<close>

lemma open_padded:
  assumes "padded = replicate 32 0 @ p @ junk" and "d = 32 + length p" and "d \<le> length c"
    and "ct = take (d - 16) (drop 16 (snd (box c padded d n k)))"
  shows "box_open m' (replicate 16 0 @ ct @ junk') d n k = (0, replicate 32 0 @ p @ drop d m')"
proof -
  have ok: "length (snd (box c padded d n k)) = length c" "take 16 (snd (box c padded d n k)) = replicate 16 0"
    using box_ok [of d padded c n k] assms by simp_all
  have "take d (snd (box c padded d n k)) = take 16 (snd (box c padded d n k)) @ ct"
    using assms(2,4) take_add [of 16 "d - 16" "snd (box c padded d n k)"] by simp
  then have ct: "take d (snd (box c padded d n k)) = replicate 16 0 @ ct" using ok(2) by simp
  have len: "length ct = d - 16" using assms ok(1) by simp
  have "box_open m' (replicate 16 0 @ ct @ junk') d n k = (0, take d padded @ drop d m')"
    by (rule open_box [where c = c]) (use assms len ct in simp_all)
  with assms(1,2) show ?thesis by simp
qed

end

section \<open>The functions\<close>

definition crypto_secretbox :: "bytes \<Rightarrow> bytes \<Rightarrow> nat \<Rightarrow> bytes \<Rightarrow> bytes \<Rightarrow> int \<times> bytes" where
  "crypto_secretbox c m d n k =
     (if d < 32 then (-1, c)
      else
        let c = crypto_stream_xor m d n k @ drop d c;
            tag = crypto_onetimeauth (drop 32 c) (d - 32) c;
            c = take 16 c @ tag @ drop 32 c;
            c = FOR 16 (\<lambda>i c. c[i := 0]) c
        in (0, c))"

definition crypto_secretbox_open :: "bytes \<Rightarrow> bytes \<Rightarrow> nat \<Rightarrow> bytes \<Rightarrow> bytes \<Rightarrow> int \<times> bytes" where
  "crypto_secretbox_open m c d n k =
     (if d < 32 then (-1, m)
      else
        let x = crypto_stream 32 n k in
        if crypto_onetimeauth_verify (drop 16 c) (drop 32 c) (d - 32) x \<noteq> 0 then (-1, m)
        else
          let m = crypto_stream_xor c d n k @ drop d m;
              m = FOR 32 (\<lambda>i m. m[i := 0]) m
          in (0, m))"

section \<open>The functions keep the contract\<close>

lemma secretbox_result:
  assumes "32 \<le> d" and "d \<le> length c"
  shows "crypto_secretbox c m d n k =
     (0, replicate 16 0 @ crypto_onetimeauth (drop 32 (crypto_stream_xor m d n k @ drop d c)) (d - 32)
                            (crypto_stream_xor m d n k @ drop d c)
         @ drop 32 (crypto_stream_xor m d n k) @ drop d c)"
  using assms by (simp add: crypto_secretbox_def Let_def FOR_fill map_replicate_const)

text \<open>The first 32 bytes of the sealed buffer are the key stream the authenticator is keyed with.\<close>

lemma stream_xor_zero_prefix:
  assumes "32 \<le> d" and "d \<le> length m" and "take 32 m = replicate 32 0"
  shows "take 32 (crypto_stream_xor m d n k) = crypto_stream 32 n k"
proof -
  have "take 32 (crypto_stream_xor m d n k) = map2 (XOR) (take 32 m) (take 32 (crypto_stream d n k))"
    using assms(1,2) by (simp add: stream_xor_keystream take_zip take_map)
  also have "\<dots> = crypto_stream 32 n k"
    using assms by (simp add: stream_prefix zip_replicate1 comp_def)
  finally show ?thesis .
qed

lemma stream_xor_involution:
  assumes "d \<le> length m" and "length c = d" and "c = crypto_stream_xor m d n k"
  shows "crypto_stream_xor c d n k = take d m"
  using assms by (auto intro!: nth_equalityI simp: stream_xor_keystream xor.assoc)

text \<open>
  Opening depends on the bytes from 16 on only: the tag and the ciphertext. The zeros in front of
  a sealed buffer decrypt to key stream that the final loop overwrites.
\<close>

lemma secretbox_open_sealed:
  assumes "32 \<le> d" and "d \<le> length m" and "d \<le> length c" and "take 32 m = replicate 32 0"
    and "d \<le> length c'" and "take d c' = take d (snd (crypto_secretbox c m d n k))"
  shows "crypto_secretbox_open m' c' d n k = (0, take d m @ drop d m')"
proof -
  let ?s = "crypto_stream_xor m d n k"
  let ?tag = "crypto_onetimeauth (drop 32 (?s @ drop d c)) (d - 32) (?s @ drop d c)"
  have c': "take d c' = replicate 16 0 @ ?tag @ drop 32 ?s"
    using assms by (simp add: secretbox_result)
  then have split: "c' = replicate 16 0 @ ?tag @ drop 32 ?s @ drop d c'"
    by (metis append_take_drop_id append_assoc)
  have "crypto_onetimeauth (drop 32 c') (d - 32) (crypto_stream 32 n k) = ?tag"
  proof (rule onetimeauth_cong)
    show "\<forall>i<d - 32. drop 32 c' ! i = drop 32 (?s @ drop d c) ! i"
      using assms(1) by (subst split) (simp add: nth_append)
    show "\<forall>i<32. crypto_stream 32 n k ! i = (?s @ drop d c) ! i"
      unfolding stream_xor_zero_prefix [OF assms(1,2,4), symmetric] using assms(1) by (simp add: nth_append)
  qed (use assms in simp_all)
  moreover have "take 16 (drop 16 c') = ?tag" by (subst split) simp
  ultimately have tag: "crypto_onetimeauth_verify (drop 16 c') (drop 32 c') (d - 32) (crypto_stream 32 n k) = 0"
    using assms(1,5) by (simp add: crypto_onetimeauth_verify_def crypto_verify_16_def vn_take Let_def)
  have "drop 32 (crypto_stream_xor c' d n k) = drop 32 (crypto_stream_xor ?s d n k)"
    using assms(1,5) c'
    by (simp add: stream_xor_keystream drop_map drop_zip)
  also have "\<dots> = drop 32 (take d m)" using stream_xor_involution [OF assms(2)] by simp
  finally have "replicate 32 0 @ drop 32 (crypto_stream_xor c' d n k) = take d m"
    using assms(1,4) by (metis append_take_drop_id min.absorb1 take_take)
  with tag assms(1) show ?thesis
    by (simp add: crypto_secretbox_open_def Let_def FOR_fill map_replicate_const)
qed

interpretation nacl_box: secret_box crypto_secretbox crypto_secretbox_open
proof (unfold_locales, goal_cases)
  case (1 d m c n k)
  then show ?case by (simp add: secretbox_result)
next
  case (2 d m c c' n k m')
  then show ?case by (rule secretbox_open_sealed)
next
  case (3 d m c n k)
  then show ?case by (simp add: crypto_secretbox_open_def)
qed

text \<open>The outcomes of opening: success needs at least the padding, and the buffer keeps its size.\<close>

lemma secretbox_open_cases:
  assumes "d \<le> length m" and "crypto_secretbox_open m c d n k = (r, m')"
  shows "(r = 0 \<and> 32 \<le> d \<or> r = -1 \<and> m' = m) \<and> length m' = length m"
  using assms by (auto simp: crypto_secretbox_open_def Let_def FOR_fill split: if_splits)

end
