(* ===== verification/NaCl_Box.thy ===== *)
theory NaCl_Box
  imports NaCl_Field NaCl_Secretbox "Vex_Util"
begin

text \<open>
  X25519 and public-key authenticated encryption in \<^verbatim>\<open>src/tweetnacl.c\<close> (\<^verbatim>\<open>crypto_scalarmult\<close> to
  \<^verbatim>\<open>crypto_box_open\<close>).
\<close>

section \<open>Scalar multiplication\<close>

text \<open>The clamped scalar.\<close>

definition clamp25519 :: "bytes \<Rightarrow> bytes" where
  "clamp25519 n =
     (let z = FOR 31 (\<lambda>i z. z[i := n ! i]) (replicate 32 0);
          z = z[31 := (n ! 31 AND 127) OR 64]
      in z[0 := z ! 0 AND 248])"

text \<open>One step of the Montgomery ladder on the bit \<^verbatim>\<open>r\<close>; \<^verbatim>\<open>x\<close> is the base point's coordinate.\<close>

definition ladder_step :: "gf \<Rightarrow> int \<Rightarrow> gf \<times> gf \<times> gf \<times> gf \<Rightarrow> gf \<times> gf \<times> gf \<times> gf" where
  "ladder_step x r = (\<lambda>(a, b, c, d).
     let (a, b) = sel25519 a b r;
         (c, d) = sel25519 c d r;
         e = gf_A a c;
         a = gf_Z a c;
         c = gf_A b d;
         b = gf_Z b d;
         d = gf_S e;
         f = gf_S a;
         a = gf_M c a;
         c = gf_M b e;
         e = gf_A a c;
         a = gf_Z a c;
         b = gf_S a;
         c = gf_Z d f;
         a = gf_M c gf_121665;
         a = gf_A a d;
         c = gf_M c a;
         a = gf_M d f;
         d = gf_M b x;
         b = gf_S e;
         (a, b) = sel25519 a b r;
         (c, d) = sel25519 c d r
     in (a, b, c, d))"

definition crypto_scalarmult :: "bytes \<Rightarrow> bytes \<Rightarrow> bytes" where
  "crypto_scalarmult n p =
     (let z = clamp25519 n;
          x = unpack25519 p;
          b = FOR 16 (\<lambda>i b. b[i := x ! i]) (replicate 16 0);
          d = replicate 16 0;
          a = replicate 16 0;
          c = replicate 16 0;
          d = d[0 := 1];
          a = a[0 := 1];
          (a, b, c, d) = for_down 254 0
            (\<lambda>i. ladder_step x (uint (drop_bit (i mod 8) (z ! (i div 8)) AND 1))) (a, b, c, d);
          x32 = inv25519 c;
          x16 = gf_M a x32
      in pack25519 x16)"

definition nacl_9 :: bytes where "nacl_9 = 9 # replicate 31 0"
definition nacl_0 :: bytes where "nacl_0 = replicate 16 0"

definition crypto_scalarmult_base :: "bytes \<Rightarrow> bytes" where
  "crypto_scalarmult_base n = crypto_scalarmult n nacl_9"

section \<open>Boxes\<close>

text \<open>The key pair \<^verbatim>\<open>(y, x)\<close>: public key, secret key; \<open>x0\<close> is the secret key's buffer before the call.\<close>

definition crypto_box_keypair :: "urandom \<Rightarrow> bytes \<Rightarrow> bytes \<times> bytes" where
  "crypto_box_keypair rnd x0 =
     (let x = randombytes rnd x0 32 in (crypto_scalarmult_base x, x))"

definition crypto_box_beforenm :: "bytes \<Rightarrow> bytes \<Rightarrow> bytes" where
  "crypto_box_beforenm y x =
     (let s = crypto_scalarmult x y in crypto_core_hsalsa20 nacl_0 s nacl_sigma)"

definition crypto_box_afternm :: "bytes \<Rightarrow> bytes \<Rightarrow> nat \<Rightarrow> bytes \<Rightarrow> bytes \<Rightarrow> int \<times> bytes" where
  "crypto_box_afternm c m d n k = crypto_secretbox c m d n k"

definition crypto_box_open_afternm :: "bytes \<Rightarrow> bytes \<Rightarrow> nat \<Rightarrow> bytes \<Rightarrow> bytes \<Rightarrow> int \<times> bytes" where
  "crypto_box_open_afternm m c d n k = crypto_secretbox_open m c d n k"

definition crypto_box :: "bytes \<Rightarrow> bytes \<Rightarrow> nat \<Rightarrow> bytes \<Rightarrow> bytes \<Rightarrow> bytes \<Rightarrow> int \<times> bytes" where
  "crypto_box c m d n y x =
     (let k = crypto_box_beforenm y x in crypto_box_afternm c m d n k)"

definition crypto_box_open :: "bytes \<Rightarrow> bytes \<Rightarrow> nat \<Rightarrow> bytes \<Rightarrow> bytes \<Rightarrow> bytes \<Rightarrow> int \<times> bytes" where
  "crypto_box_open m c d n y x =
     (let k = crypto_box_beforenm y x in crypto_box_open_afternm m c d n k)"

lemma length_scalarmult [simp, vex_len]: "length (crypto_scalarmult n p) = 32"
  by (simp add: crypto_scalarmult_def Let_def split: prod.splits)

lemma length_box_keypair [vex_len]:
  "length (fst (crypto_box_keypair rnd x)) = 32" "length (snd (crypto_box_keypair rnd x)) = length x"
  by (simp_all add: crypto_box_keypair_def crypto_scalarmult_base_def Let_def)

end
