(* ===== verification/NaCl_Sign.thy ===== *)
theory NaCl_Sign
  imports NaCl_Field NaCl_Hash Vex_Util
begin

text \<open>
  Ed25519 signatures in \<^verbatim>\<open>src/tweetnacl.c\<close> (\<^verbatim>\<open>add\<close> to \<^verbatim>\<open>crypto_sign_open\<close>). A point is its four
  extended coordinates \<^verbatim>\<open>(X, Y, Z, T)\<close>.
\<close>

type_synonym point = "gf \<times> gf \<times> gf \<times> gf"

section \<open>Points\<close>

text \<open>\<^verbatim>\<open>add(p, q)\<close> replaces \<open>p\<close> by \<open>p + q\<close>; it reads \<open>q\<close> before it writes \<open>p\<close>, so \<^verbatim>\<open>add(p, p)\<close> doubles.\<close>

definition point_add :: "point \<Rightarrow> point \<Rightarrow> point" where
  "point_add = (\<lambda>(p0, p1, p2, p3) (q0, q1, q2, q3).
     let a = gf_Z p1 p0;
         t = gf_Z q1 q0;
         a = gf_M a t;
         b = gf_A p0 p1;
         t = gf_A q0 q1;
         b = gf_M b t;
         c = gf_M p3 q3;
         c = gf_M c gf_D2;
         d = gf_M p2 q2;
         d = gf_A d d;
         e = gf_Z b a;
         f = gf_Z d c;
         g = gf_A d c;
         h = gf_A b a
     in (gf_M e f, gf_M h g, gf_M g f, gf_M e h))"

definition point_cswap :: "point \<Rightarrow> point \<Rightarrow> u8 \<Rightarrow> point \<times> point" where
  "point_cswap = (\<lambda>(p0, p1, p2, p3) (q0, q1, q2, q3) b.
     let (p0, q0) = sel25519 p0 q0 (uint b);
         (p1, q1) = sel25519 p1 q1 (uint b);
         (p2, q2) = sel25519 p2 q2 (uint b);
         (p3, q3) = sel25519 p3 q3 (uint b)
     in ((p0, p1, p2, p3), (q0, q1, q2, q3)))"

definition point_pack :: "point \<Rightarrow> bytes" where
  "point_pack = (\<lambda>(p0, p1, p2, p3).
     let zi = inv25519 p2;
         tx = gf_M p0 zi;
         ty = gf_M p1 zi;
         r = pack25519 ty
     in r[31 := r ! 31 XOR push_bit 7 (par25519 tx)])"

text \<open>\<^verbatim>\<open>scalarmult(p, q, s)\<close> sets \<open>p\<close> to the multiple and leaves \<open>q\<close> changed; both are returned.\<close>

definition scalarmult_step :: "bytes \<Rightarrow> nat \<Rightarrow> point \<times> point \<Rightarrow> point \<times> point" where
  "scalarmult_step s i = (\<lambda>(p, q).
     let b = drop_bit (i mod 8) (s ! (i div 8)) AND 1;
         (p, q) = point_cswap p q b;
         q = point_add q p;
         p = point_add p p
     in point_cswap p q b)"

definition point_scalarmult :: "point \<Rightarrow> bytes \<Rightarrow> point \<times> point" where
  "point_scalarmult q s =
     (let p = (set25519 gf0, set25519 gf1, set25519 gf1, set25519 gf0)
      in for_down 255 0 (scalarmult_step s) (p, q))"

definition scalarbase :: "bytes \<Rightarrow> point" where
  "scalarbase s =
     (let q = (set25519 gf_X, set25519 gf_Y, set25519 gf1, gf_M gf_X gf_Y)
      in fst (point_scalarmult q s))"

section \<open>Key pairs\<close>

definition sign_clamp :: "bytes \<Rightarrow> bytes" where
  "sign_clamp d =
     (let d = d[0 := d ! 0 AND 248];
          d = d[31 := d ! 31 AND 127]
      in d[31 := d ! 31 OR 64])"

text \<open>Returns \<^verbatim>\<open>(pk, sk)\<close>; \<open>sk0\<close> is the 64-byte buffer of the secret key before the call.\<close>

definition crypto_sign_keypair :: "urandom \<Rightarrow> bytes \<Rightarrow> bytes \<times> bytes" where
  "crypto_sign_keypair rnd sk0 =
     (let sk = randombytes rnd (take 32 sk0) 32 @ drop 32 sk0;
          d = sign_clamp (crypto_hash sk 32);
          p = scalarbase d;
          pk = point_pack p;
          sk = FOR 32 (\<lambda>i sk. sk[32 + i := pk ! i]) sk
      in (pk, sk))"

section \<open>Arithmetic modulo the group order\<close>

definition nacl_L :: "int list" where
  "nacl_L = [0xed, 0xd3, 0xf5, 0x5c, 0x1a, 0x63, 0x12, 0x58, 0xd6, 0x9c, 0xf7, 0xa2, 0xde, 0xf9, 0xde, 0x14,
             0, 0, 0, 0, 0, 0, 0, 0, 0, 0, 0, 0, 0, 0, 0, 0x10]"

text \<open>The first loop of \<^verbatim>\<open>modL\<close> for one \<open>i\<close>.\<close>

definition modL_fold :: "nat \<Rightarrow> int list \<Rightarrow> int list" where
  "modL_fold i x =
     (let (x, carry) = for_range (i - 32) (i - 12) (\<lambda>j (x, carry).
            let x = x[j := x ! j + (carry - 16 * x ! i * nacl_L ! (j - (i - 32)))];
                carry = drop_bit 8 (x ! j + 128)
            in (x[j := x ! j - push_bit 8 carry], carry)) (x, 0);
          j = i - 12;
          x = x[j := x ! j + carry]
      in x[i := 0])"

text \<open>
  Returns the 32 bytes it writes at \<^verbatim>\<open>r\<close>. \<^verbatim>\<open>x\<close> has 64 entries; the multiplications with the unsigned
  \<^verbatim>\<open>L\<close> wrap modulo 2^64 and convert back to the signed result.
\<close>

definition modL :: "int list \<Rightarrow> bytes" where
  "modL x =
     (let x = for_down 63 32 modL_fold x;
          (x, carry) = FOR 32 (\<lambda>j (x, carry).
            let x = x[j := x ! j + (carry - drop_bit 4 (x ! 31) * nacl_L ! j)];
                carry = drop_bit 8 (x ! j)
            in (x[j := x ! j AND 255], carry)) (x, 0);
          x = FOR 32 (\<lambda>j x. x[j := x ! j - carry * nacl_L ! j]) x;
          (x, r) = FOR 32 (\<lambda>i (x, r).
            let x = x[i + 1 := x ! (i + 1) + drop_bit 8 (x ! i)]
            in (x, r[i := word_of_int (x ! i AND 255)])) (x, replicate 32 0)
      in r)"

text \<open>\<^verbatim>\<open>reduce\<close> on a 64-byte buffer: the upper half is left zero.\<close>

definition nacl_reduce :: "bytes \<Rightarrow> bytes" where
  "nacl_reduce r =
     (let x = map (\<lambda>i. uint (r ! i)) [0..<64];
          r = replicate 64 0
      in modL x @ drop 32 r)"

section \<open>Signing and verifying\<close>

text \<open>Returns the signed message of length \<open>n + 64\<close>.\<close>

definition crypto_sign :: "bytes \<Rightarrow> nat \<Rightarrow> bytes \<Rightarrow> bytes \<times> nat" where
  "crypto_sign m n sk =
     (let d = sign_clamp (crypto_hash sk 32);
          smlen = n + 64;
          sm = replicate (n + 64) 0;
          sm = FOR n (\<lambda>i sm. sm[64 + i := m ! i]) sm;
          sm = FOR 32 (\<lambda>i sm. sm[32 + i := d ! (32 + i)]) sm;
          r = nacl_reduce (crypto_hash (drop 32 sm) (n + 32));
          p = scalarbase r;
          sm = point_pack p @ drop 32 sm;
          sm = FOR 32 (\<lambda>i sm. sm[i + 32 := sk ! (i + 32)]) sm;
          h = nacl_reduce (crypto_hash sm (n + 64));
          x = FOR 64 (\<lambda>i x. x[i := 0]) (replicate 64 0);
          x = FOR 32 (\<lambda>i x. x[i := uint (r ! i)]) x;
          x = FOR 32 (\<lambda>i. FOR 32 (\<lambda>j x. x[i + j := x ! (i + j) + uint (h ! i) * uint (d ! j)])) x;
          sm = take 32 sm @ modL x @ drop 64 sm
      in (sm, smlen))"

text \<open>Decompression of a public key to the negated point; \<open>None\<close> is the return value -1.\<close>

definition unpackneg :: "bytes \<Rightarrow> point option" where
  "unpackneg p =
     (let r2 = set25519 gf1;
          r1 = unpack25519 p;
          num = gf_S r1;
          den = gf_M num gf_D;
          num = gf_Z num r2;
          den = gf_A r2 den;
          den2 = gf_S den;
          den4 = gf_S den2;
          den6 = gf_M den4 den2;
          t = gf_M den6 num;
          t = gf_M t den;
          t = pow2523 t;
          t = gf_M t num;
          t = gf_M t den;
          t = gf_M t den;
          r0 = gf_M t den;
          chk = gf_S r0;
          chk = gf_M chk den;
          r0 = (if neq25519 chk num \<noteq> 0 then gf_M r0 gf_I else r0);
          chk = gf_S r0;
          chk = gf_M chk den
      in if neq25519 chk num \<noteq> 0 then None
         else let r0 = (if par25519 r0 = drop_bit 7 (p ! 31) then gf_Z gf0 r0 else r0);
                  r3 = gf_M r0 r1
              in Some (r0, r1, r2, r3))"

text \<open>
  Returns the code's \<^verbatim>\<open>int\<close>, the buffer \<open>m\<close> and \<^verbatim>\<open>*mlen\<close>, which is the unsigned -1 on failure.
\<close>

definition crypto_sign_open :: "bytes \<Rightarrow> bytes \<Rightarrow> nat \<Rightarrow> bytes \<Rightarrow> int \<times> bytes \<times> u64" where
  "crypto_sign_open m sm n pk =
     (let mlen = - 1 in
      if n < 64 then (-1, m, mlen)
      else case unpackneg pk of
        None \<Rightarrow> (-1, m, mlen)
      | Some q \<Rightarrow>
         let m = FOR n (\<lambda>i m. m[i := sm ! i]) m;
             m = FOR 32 (\<lambda>i m. m[i + 32 := pk ! i]) m;
             h = nacl_reduce (crypto_hash m n);
             (p, q) = point_scalarmult q h;
             q = scalarbase (drop 32 sm);
             p = point_add p q;
             t = point_pack p;
             n = n - 64
         in if crypto_verify_32 sm t \<noteq> 0 then (-1, FOR n (\<lambda>i m. m[i := 0]) m, mlen)
            else (0, FOR n (\<lambda>i m. m[i := sm ! (i + 64)]) m, of_nat n))"

lemma length_sign_keypair [vex_len]:
  assumes "length sk = 64"
  shows "length (fst (crypto_sign_keypair rnd sk)) = 32" "length (snd (crypto_sign_keypair rnd sk)) = 64"
proof -
  show "length (fst (crypto_sign_keypair rnd sk)) = 32"
    by (simp add: crypto_sign_keypair_def point_pack_def Let_def split: prod.splits)
  have "length (FOR 32 (\<lambda>i sk. sk[32 + i := f i]) (randombytes rnd (take 32 sk) 32 @ drop 32 sk)) = 64"
    for f :: "nat \<Rightarrow> u8"
    by (rule for_range_preserves [where P = "\<lambda>x. length x = 64"]) (simp_all add: assms)
  then show "length (snd (crypto_sign_keypair rnd sk)) = 64"
    by (simp add: crypto_sign_keypair_def Let_def)
qed

end
