(* ===== verification/Vex_Crypto.thy ===== *)
theory Vex_Crypto
  imports Vex_Node NaCl_Box NaCl_Sign
begin

text \<open>
  \<^verbatim>\<open>src/crypto.c\<close>: the node's keys, their files, and broadcast encryption under the mesh key.
\<close>

section \<open>Keys\<close>

definition vex_crypto_derive_mesh_key :: "vex_node \<Rightarrow> vex_node" where
  "vex_crypto_derive_mesh_key node =
     (let uuid = VEX_SERVICE_UUID;
          hash = crypto_hash uuid (length uuid)
      in node\<lparr>mesh_key := take 32 hash\<rparr>)"

text \<open>\<open>rnd1\<close> and \<open>rnd2\<close> are what the random source does for the two key pairs.\<close>

definition vex_crypto_init :: "urandom \<Rightarrow> urandom \<Rightarrow> vex_node \<Rightarrow> int \<times> vex_node" where
  "vex_crypto_init rnd1 rnd2 node =
     (let (pk, sk) = crypto_sign_keypair rnd1 (sign_sk node);
          node = node\<lparr>sign_pk := pk, sign_sk := sk\<rparr>;
          (bpk, bsk) = crypto_box_keypair rnd2 (box_sk node);
          node = node\<lparr>box_pk := bpk, box_sk := bsk\<rparr>;
          node = vex_crypto_derive_mesh_key node
      in (0, node))"

section \<open>Key files\<close>

text \<open>
  The files by path, and the paths \<^verbatim>\<open>fopen(path, "wb")\<close> succeeds for (after the \<^verbatim>\<open>mkdir\<close>).
  \<^verbatim>\<open>fwrite\<close> is taken to write everything; the code does not look at its result either.
\<close>

record file_system =
  files :: "bytes \<Rightarrow> bytes option"
  writable :: "bytes \<Rightarrow> bool"

text \<open>\<^verbatim>\<open>snprintf(filepath, 512, "%s/name", path)\<close>.\<close>

definition key_path :: "bytes \<Rightarrow> string \<Rightarrow> bytes" where
  "key_path path name = take 511 (c_string path @ str_bytes (''/'' @ name))"

definition vex_crypto_save_keys :: "vex_node \<Rightarrow> bytes \<Rightarrow> file_system \<Rightarrow> int \<times> file_system" where
  "vex_crypto_save_keys node path fs =
     (let filepath = key_path path ''identity.key'' in
      if \<not> writable fs filepath then (-1, fs)
      else
        let fs = fs\<lparr>files := (files fs)(filepath \<mapsto> take 32 (sign_pk node) @ take 64 (sign_sk node))\<rparr>;
            filepath = key_path path ''ephemeral.key''
        in if \<not> writable fs filepath then (-1, fs)
           else (0, fs\<lparr>files := (files fs)(filepath \<mapsto> take 32 (box_pk node) @ take 32 (box_sk node))\<rparr>))"

text \<open>\<^verbatim>\<open>fread(dst, 1, n, f)\<close> on the rest \<open>bs\<close> of a file: the count, \<open>dst\<close> after the call, and what is left.\<close>

definition fread_to :: "bytes \<Rightarrow> nat \<Rightarrow> bytes \<Rightarrow> nat \<times> bytes \<times> bytes" where
  "fread_to dst n bs = (let k = min n (length bs) in (k, take k bs @ drop k dst, drop k bs))"

text \<open>The second half of \<^verbatim>\<open>vex_crypto_load_keys\<close>: a missing or short file means a new key pair.\<close>

definition load_ephemeral :: "urandom \<Rightarrow> vex_node \<Rightarrow> bytes \<Rightarrow> file_system \<Rightarrow> vex_node" where
  "load_ephemeral rnd node path fs =
     (let regenerate = (\<lambda>node. let (pk, sk) = crypto_box_keypair rnd (box_sk node)
                               in node\<lparr>box_pk := pk, box_sk := sk\<rparr>) in
      case files fs (key_path path ''ephemeral.key'') of
        None \<Rightarrow> regenerate node
      | Some f \<Rightarrow>
         let (k, pk, f) = fread_to (box_pk node) 32 f;
             node = node\<lparr>box_pk := pk\<rparr> in
         if k \<noteq> 32 then regenerate node
         else
           let (k, sk, f) = fread_to (box_sk node) 32 f;
               node = node\<lparr>box_sk := sk\<rparr>
           in if k \<noteq> 32 then regenerate node else node)"

definition vex_crypto_load_keys :: "urandom \<Rightarrow> vex_node \<Rightarrow> bytes \<Rightarrow> file_system \<Rightarrow> int \<times> vex_node" where
  "vex_crypto_load_keys rnd node path fs =
     (case files fs (key_path path ''identity.key'') of
        None \<Rightarrow> (-1, node)
      | Some f \<Rightarrow>
         let (k, pk, f) = fread_to (sign_pk node) 32 f;
             node = node\<lparr>sign_pk := pk\<rparr> in
         if k \<noteq> 32 then (-1, node)
         else
           let (k, sk, f) = fread_to (sign_sk node) 64 f;
               node = node\<lparr>sign_sk := sk\<rparr> in
           if k \<noteq> 64 then (-1, node)
           else (0, vex_crypto_derive_mesh_key (load_ephemeral rnd node path fs)))"

section \<open>Broadcast encryption\<close>

text \<open>
  The result is \<^verbatim>\<open>None\<close> for an access outside a buffer; otherwise the code's \<^verbatim>\<open>int\<close>, the output
  buffer and the output length, which an error leaves as they were.
\<close>

definition vex_crypto_encrypt_broadcast ::
  "urandom \<Rightarrow> vex_node \<Rightarrow> bytes \<Rightarrow> u16 \<Rightarrow> bytes \<Rightarrow> u16 \<Rightarrow> (int \<times> bytes \<times> u16) option" where
  "vex_crypto_encrypt_broadcast rnd node plain len cipher cipher_len =
     (let len' = unat len in
      if len' > VEX_MAX_PAYLOAD - 24 - 16 then Some (-1, cipher, cipher_len)
      else
        let nonce = randombytes rnd (replicate 24 0) 24;
            padded = replicate (32 + VEX_MAX_PAYLOAD) 0;
            encrypted = replicate (32 + VEX_MAX_PAYLOAD) 0
        in do {
          padded \<leftarrow> memcpy_at padded 0 (replicate 32 0) 32;
          padded \<leftarrow> memcpy_at padded 32 plain len';
          let (r, encrypted) = crypto_secretbox encrypted padded (32 + len') nonce (mesh_key node);
          if r \<noteq> 0 then Some (-1, cipher, cipher_len)
          else do {
            cipher \<leftarrow> memcpy_at cipher 0 nonce 24;
            src \<leftarrow> mem_read encrypted 16 (len' + 32 - 16);
            cipher \<leftarrow> memcpy_at cipher 24 src (len' + 32 - 16);
            Some (0, cipher, of_nat (24 + len' + 32 - 16))
          }
        })"

definition vex_crypto_decrypt_broadcast ::
  "vex_node \<Rightarrow> bytes \<Rightarrow> u16 \<Rightarrow> bytes \<Rightarrow> u16 \<Rightarrow> (int \<times> bytes \<times> u16) option" where
  "vex_crypto_decrypt_broadcast node cipher len plain plain_len =
     (if unat len \<le> 24 then Some (-1, plain, plain_len)
      else
        let ct_len = len - 24;
            nonce = replicate 24 0;
            padded_cipher = replicate (16 + VEX_MAX_PAYLOAD) 0;
            decrypted = replicate (32 + VEX_MAX_PAYLOAD) 0
        in do {
          src \<leftarrow> mem_read cipher 0 24;
          nonce \<leftarrow> memcpy_at nonce 0 src 24;
          padded_cipher \<leftarrow> memcpy_at padded_cipher 0 (replicate 16 0) 16;
          src \<leftarrow> mem_read cipher 24 (unat ct_len);
          padded_cipher \<leftarrow> memcpy_at padded_cipher 16 src (unat ct_len);
          let (r, decrypted) = crypto_secretbox_open decrypted padded_cipher (16 + unat ct_len) nonce (mesh_key node);
          if r \<noteq> 0 then Some (-1, plain, plain_len)
          else do {
            let plain_len = ct_len - (32 - 16);
            src \<leftarrow> mem_read decrypted 32 (unat plain_len);
            plain \<leftarrow> memcpy_at plain 0 src (unat plain_len);
            Some (0, plain, plain_len)
          }
        })"

section \<open>Encryption and decryption\<close>

text \<open>The message as it travels: the nonce, and the sealed bytes from offset 16 on.\<close>

definition sealed_message :: "bytes \<Rightarrow> bytes \<Rightarrow> bytes \<Rightarrow> bytes" where
  "sealed_message nonce key p =
     nonce @ take (16 + length p) (drop 16 (snd (crypto_secretbox (replicate 533 0)
       (replicate 32 0 @ p @ replicate (501 - length p) 0) (32 + length p) nonce key)))"

lemma length_sealed_message:
  assumes "length nonce = 24" and "length p \<le> 461"
  shows "length (sealed_message nonce key p) = 40 + length p"
proof -
  have "length (snd (crypto_secretbox (replicate 533 0) (replicate 32 0 @ p @ replicate (501 - length p) 0)
          (32 + length p) nonce key)) = 533"
    using assms nacl_box.box_ok [of "32 + length p" "replicate 32 0 @ p @ replicate (501 - length p) 0" "replicate 533 0"]
    by simp
  then show ?thesis using assms by (simp add: sealed_message_def)
qed

lemma encrypt_broadcast_result:
  assumes "unat len \<le> 461" and "unat len \<le> length plain" and "40 + unat len \<le> length cipher"
  shows "vex_crypto_encrypt_broadcast rnd node plain len cipher cl =
     Some (0, sealed_message (randombytes rnd (replicate 24 0) 24) (mesh_key node) (take (unat len) plain)
                @ drop (40 + unat len) cipher, of_nat (40 + unat len))"
proof -
  let ?n = "unat len" and ?p = "take (unat len) plain"
  let ?nonce = "randombytes rnd (replicate 24 0) 24"
  let ?pad = "replicate 32 0 @ ?p @ replicate (501 - ?n) 0"
  let ?box = "crypto_secretbox (replicate 533 0) ?pad (32 + ?n) ?nonce (mesh_key node)"
  have box: "fst ?box = 0" "length (snd ?box) = 533"
    using assms nacl_box.box_ok [of "32 + ?n" ?pad "replicate 533 0"] by simp_all
  then obtain e where e: "?box = (0, e)" "length e = 533" by (cases ?box) auto
  have 1: "memcpy_at (replicate 533 0) 0 (replicate 32 0) 32 = Some (replicate 533 (0 :: u8))"
    by (simp flip: replicate_add)
  have 2: "memcpy_at (replicate 533 0) 32 plain ?n = Some ?pad"
    using assms(1,2) by simp
  have 3: "memcpy_at cipher 0 ?nonce 24 = Some (?nonce @ drop 24 cipher)"
    using assms(3) by simp
  have 4: "mem_read e 16 (16 + ?n) = Some (take (16 + ?n) (drop 16 e))"
    using assms(1) e(2) by simp
  have 5: "memcpy_at (?nonce @ drop 24 cipher) 24 (take (16 + ?n) (drop 16 e)) (16 + ?n) =
           Some (?nonce @ take (16 + ?n) (drop 16 e) @ drop (40 + ?n) cipher)"
    using assms(1,3) e(2) by simp
  have "sealed_message ?nonce (mesh_key node) ?p = ?nonce @ take (16 + ?n) (drop 16 e)"
    using assms(2) e(1) by (simp add: sealed_message_def)
  with assms(1) show ?thesis
    by (simp add: vex_crypto_encrypt_broadcast_def Let_def 1 2 3 4 5 e del: memcpy_at_Some mem_read_Some)
qed

lemma decrypt_broadcast_sealed:
  assumes "length nonce = 24" and "length p \<le> 461" and "unat len = 40 + length p"
    and "cipher = sealed_message nonce (mesh_key node) p @ junk" and "length p \<le> length plain"
  shows "vex_crypto_decrypt_broadcast node cipher len plain pl =
           Some (0, p @ drop (length p) plain, of_nat (length p))"
proof -
  let ?n = "length p" and ?key = "mesh_key node"
  let ?pad = "replicate 32 0 @ p @ replicate (501 - ?n) 0"
  define ct where "ct = take (16 + ?n) (drop 16 (snd (crypto_secretbox (replicate 533 0) ?pad (32 + ?n) nonce ?key)))"
  have sealed: "sealed_message nonce ?key p = nonce @ ct" by (simp add: sealed_message_def ct_def)
  have len_ct: "length ct = 16 + ?n"
    using length_sealed_message [OF assms(1,2), of ?key] assms(1) by (simp add: sealed)
  have ctl: "unat (len - 24) = 16 + ?n"
    using assms(3) by (simp add: unat_sub_if')
  have pll: "len - 40 = of_nat ?n"
    using assms(2,3) by (simp add: word_unat_eq_iff unat_sub_if' unat_of_nat)
  have 1: "mem_read cipher 0 24 = Some nonce" using assms(1) by (simp add: assms(4) sealed)
  have 2: "memcpy_at (replicate 24 0) 0 nonce 24 = Some nonce" using assms(1) by simp
  have 3: "memcpy_at (replicate 517 0) 0 (replicate 16 0) 16 = Some (replicate 517 (0 :: u8))"
    by (simp flip: replicate_add)
  have 4: "mem_read cipher 24 (16 + ?n) = Some ct"
    using assms(1) len_ct by (simp add: assms(4) sealed)
  have 5: "memcpy_at (replicate 517 0) 16 ct (16 + ?n) = Some (replicate 16 0 @ ct @ replicate (485 - ?n) 0)"
    using assms(2) len_ct by simp
  have opn: "crypto_secretbox_open (replicate 533 0) (replicate 16 0 @ ct @ replicate (485 - ?n) 0) (32 + ?n) nonce ?key
      = (0, replicate 32 0 @ p @ drop (32 + ?n) (replicate 533 0))"
    using nacl_box.open_padded [of ?pad p "replicate (501 - ?n) 0" "32 + ?n" "replicate 533 0" ct nonce ?key]
      assms(2) by (simp add: ct_def)
  have 6: "mem_read (replicate 32 0 @ p @ replicate (501 - ?n) 0) 32 ?n = Some p" by simp
  have 7: "memcpy_at plain 0 p ?n = Some (p @ drop ?n plain)" using assms(5) by simp
  have 8: "unat (of_nat ?n :: u16) = ?n" using assms(2) by (simp add: unat_of_nat)
  show ?thesis
    using assms(3)
    by (simp add: vex_crypto_decrypt_broadcast_def Let_def 1 2 3 4 5 6 7 8 ctl pll opn
          del: memcpy_at_Some mem_read_Some)
qed

text \<open>Every other input is refused, inside the buffers.\<close>

lemma decrypt_broadcast_total:
  assumes "unat len \<le> length cipher" and "unat len \<le> 501" and "length plain = 501"
  shows "\<exists>r out n. vex_crypto_decrypt_broadcast node cipher len plain pl = Some (r, out, n) \<and>
           length out = 501 \<and> (r = 0 \<and> unat n + 40 = unat len \<or> r = -1 \<and> out = plain \<and> n = pl)"
proof (cases "unat len \<le> 24")
  case True
  then show ?thesis using assms(3) by (simp add: vex_crypto_decrypt_broadcast_def)
next
  case False
  let ?ct = "len - 24"
  have ct: "unat ?ct = unat len - 24" using False by (simp add: unat_sub_if')
  have 3: "memcpy_at (replicate 517 0) 0 (replicate 16 0) 16 = Some (replicate 517 (0 :: u8))"
    by (simp flip: replicate_add)
  define pc where "pc = replicate 16 0 @ take (unat len - 24) (drop 24 cipher) @ replicate (501 - (unat len - 24)) (0 :: u8)"
  have 5: "memcpy_at (replicate 517 0) 16 (take (unat len - 24) (drop 24 cipher)) (unat len - 24) = Some pc"
    using assms False by (simp add: pc_def)
  let ?op = "crypto_secretbox_open (replicate 533 0) pc (unat len - 8) (take 24 cipher) (mesh_key node)"
  obtain r d where op: "?op = (r, d)" by (cases ?op)
  have r: "(r = 0 \<and> 40 \<le> unat len \<or> r = -1) \<and> length d = 533"
  proof -
    have "unat len - 8 \<le> length (replicate 533 (0 :: u8))" using assms(2) by simp
    from secretbox_open_cases [OF this op] show ?thesis by (simp add: le_diff_conv2 False) arith
  qed
  have pl: "unat (len - 40) = unat len - 40" if "40 \<le> unat len"
    using that by (simp add: unat_sub_if')
  show ?thesis
    using assms False r
    by (auto simp: vex_crypto_decrypt_broadcast_def Let_def ct 3 5 op pl)
qed

section \<open>Keys\<close>

definition the_mesh_key :: bytes where
  "the_mesh_key = take 32 (crypto_hash VEX_SERVICE_UUID (length VEX_SERVICE_UUID))"

lemma derive_mesh_key: "vex_crypto_derive_mesh_key node = node\<lparr>mesh_key := the_mesh_key\<rparr>"
  by (simp add: vex_crypto_derive_mesh_key_def the_mesh_key_def Let_def)

lemma length_the_mesh_key [simp, vex_len]: "length the_mesh_key = 32"
  by (simp add: the_mesh_key_def)

lemma fread_to_full: "length f = n \<Longrightarrow> length dst = n \<Longrightarrow> fread_to dst n (f @ g) = (n, f, g)"
  by (simp add: fread_to_def)

text \<open>The two key files of a directory are different unless the path was cut off.\<close>

lemma key_path_distinct:
  assumes "length (c_string path) \<le> 497"
  shows "key_path path ''identity.key'' \<noteq> key_path path ''ephemeral.key''"
  using assms by (simp add: key_path_def str_bytes_def)

text \<open>Loading stores the identity and always ends with the derived mesh key.\<close>

lemma load_ephemeral_frame:
  obtains bpk bsk where "load_ephemeral rnd node path fs = node\<lparr>box_pk := bpk, box_sk := bsk\<rparr>"
    and "length (box_pk node) = 32 \<Longrightarrow> length bpk = 32" and "length (box_sk node) = 32 \<Longrightarrow> length bsk = 32"
proof -
  have upd: "node\<lparr>box_pk := x\<rparr> = node\<lparr>box_pk := x, box_sk := box_sk node\<rparr>" for x by simp
  show ?thesis
  proof (rule that)
    show "load_ephemeral rnd node path fs =
      node\<lparr>box_pk := box_pk (load_ephemeral rnd node path fs), box_sk := box_sk (load_ephemeral rnd node path fs)\<rparr>"
      by (auto simp: load_ephemeral_def Let_def split: option.splits prod.splits)
  qed (auto simp: load_ephemeral_def Let_def fread_to_def crypto_box_keypair_def
        crypto_scalarmult_base_def min_def split: option.splits if_splits)
qed

lemma load_keys_identity:
  assumes "files fs (key_path path ''identity.key'') = Some (pk @ sk @ rest)"
    and "length pk = 32" and "length sk = 64" and "node_shape node"
  shows "vex_crypto_load_keys rnd node path fs =
     (0, (load_ephemeral rnd (node\<lparr>sign_pk := pk, sign_sk := sk\<rparr>) path fs)\<lparr>mesh_key := the_mesh_key\<rparr>)"
proof -
  have "length (sign_pk node) = 32" "length (sign_sk node) = 64"
    using assms(4) by (simp_all add: node_shape_def)
  with assms(1-3) show ?thesis
    by (simp add: vex_crypto_load_keys_def fread_to_full derive_mesh_key)
qed

section \<open>Properties\<close>

text \<open>
  C8. What one node encrypts for broadcast, every node with the same mesh key decrypts to the
  same bytes, for every message of at most 461 bytes and every nonce.
\<close>

theorem broadcast_roundtrip:
  assumes "unat len \<le> 461" and "length msg = unat len"
    and "length cipher = VEX_MAX_PAYLOAD" and "length plain = VEX_MAX_PAYLOAD"
    and "mesh_key receiver = mesh_key sender"
  shows "\<exists>c n p. vex_crypto_encrypt_broadcast rnd sender msg len cipher cl = Some (0, c, n) \<and>
           unat n = 40 + unat len \<and> length c = VEX_MAX_PAYLOAD \<and>
           vex_crypto_decrypt_broadcast receiver c n plain pl = Some (0, p, len) \<and>
           take (unat len) p = msg"
proof -
  let ?nonce = "randombytes rnd (replicate 24 0) 24"
  let ?c = "sealed_message ?nonce (mesh_key sender) msg @ drop (40 + unat len) cipher"
  have enc: "vex_crypto_encrypt_broadcast rnd sender msg len cipher cl = Some (0, ?c, of_nat (40 + unat len))"
    using encrypt_broadcast_result [of len msg cipher rnd sender cl] assms by simp
  have n: "unat (of_nat (40 + unat len) :: u16) = 40 + length msg"
    using assms(1,2) by (simp add: unat_of_nat del: of_nat_add)
  have len: "(of_nat (length msg) :: u16) = len" by (simp add: assms(2))
  have "vex_crypto_decrypt_broadcast receiver ?c (of_nat (40 + unat len)) plain pl =
          Some (0, msg @ drop (length msg) plain, len)"
    unfolding len [symmetric]
    by (rule decrypt_broadcast_sealed [where nonce = ?nonce and junk = "drop (40 + unat len) cipher"])
       (use assms n in \<open>simp_all add: len\<close>)
  with enc n assms show ?thesis
    by (auto simp: length_sealed_message)
qed

theorem broadcast_roundtrip_witness:
  "\<exists>c n p. vex_crypto_encrypt_broadcast (Urandom []) zero_node [104, 105] 2 (replicate 501 0) 0 = Some (0, c, n) \<and>
     vex_crypto_decrypt_broadcast (zero_node\<lparr>default_ttl := 3\<rparr>) c n (replicate 501 9) 0 = Some (0, p, 2) \<and> take 2 p = [104, 105]"
  using broadcast_roundtrip [of 2 "[104, 105]" "replicate 501 0" "replicate 501 9" "zero_node\<lparr>default_ttl := 3\<rparr>" zero_node "Urandom []" 0 0]
  by auto



text \<open>
  C26. Keys that were saved are the keys a later load returns, together with the mesh key,
  whatever the state of the node that loads them and of the random source.
\<close>

theorem saved_keys_are_loaded:
  assumes "node_shape node" and "node_shape other"
    and "writable fs (key_path path ''identity.key'')" and "writable fs (key_path path ''ephemeral.key'')"
    and "length (c_string path) \<le> 497"
  shows "\<exists>fs'. vex_crypto_save_keys node path fs = (0, fs') \<and>
           vex_crypto_load_keys rnd other path fs' =
             (0, other\<lparr>sign_pk := sign_pk node, sign_sk := sign_sk node,
                       box_pk := box_pk node, box_sk := box_sk node, mesh_key := the_mesh_key\<rparr>)"
proof -
  let ?id = "key_path path ''identity.key''" and ?eph = "key_path path ''ephemeral.key''"
  have ne: "?id \<noteq> ?eph" by (rule key_path_distinct [OF assms(5)])
  define fs' where "fs' = fs\<lparr>files := (files fs)(?id \<mapsto> sign_pk node @ sign_sk node,
                                                ?eph \<mapsto> box_pk node @ box_sk node)\<rparr>"
  have save: "vex_crypto_save_keys node path fs = (0, fs')"
    using assms(1,3,4) by (simp add: vex_crypto_save_keys_def Let_def fs'_def node_shape_def)
  have "load_ephemeral rnd (other\<lparr>sign_pk := sign_pk node, sign_sk := sign_sk node\<rparr>) path fs' =
        other\<lparr>sign_pk := sign_pk node, sign_sk := sign_sk node, box_pk := box_pk node, box_sk := box_sk node\<rparr>"
    using assms(1,2) fread_to_full [of "box_sk node" 32 "box_sk other" "[]"]
    by (simp add: load_ephemeral_def fs'_def node_shape_def fread_to_full Let_def)
  moreover have "files fs' ?id = Some (sign_pk node @ sign_sk node @ [])" using ne by (simp add: fs'_def)
  ultimately show ?thesis
    using save load_keys_identity [of fs' path "sign_pk node" "sign_sk node" "[]" other rnd] assms(1,2)
    by (simp add: node_shape_def)
qed

theorem saved_keys_are_loaded_witness:
  "\<exists>fs'. vex_crypto_save_keys zero_node [47, 0] \<lparr>files = \<lambda>_. None, writable = \<lambda>_. True\<rparr> = (0, fs') \<and>
     vex_crypto_load_keys (Urandom []) (zero_node\<lparr>sign_pk := replicate 32 5\<rparr>) [47, 0] fs' =
       (0, zero_node\<lparr>mesh_key := the_mesh_key\<rparr>)"
proof -
  have "node_shape (zero_node\<lparr>sign_pk := replicate 32 5\<rparr>)" using node_shape_zero by (simp add: node_shape_def)
  from saved_keys_are_loaded [OF node_shape_zero this, of "\<lparr>files = \<lambda>_. None, writable = \<lambda>_. True\<rparr>" "[47, 0]" "Urandom []"]
  show ?thesis by (simp add: c_string_def)
qed

text \<open>
  C27. The mesh key is a constant: a node that generated its keys and a node that loaded its
  keys from a file end with the same 32 bytes, the head of the hash of the service UUID.
\<close>

theorem mesh_key_is_shared:
  assumes "node_shape b" and "length pk = 32" and "length sk = 64"
    and "files fs (key_path path ''identity.key'') = Some (pk @ sk @ rest)"
  shows "mesh_key (snd (vex_crypto_init rnd1 rnd2 a)) = mesh_key (snd (vex_crypto_load_keys rnd3 b path fs)) \<and>
         mesh_key (snd (vex_crypto_init rnd1 rnd2 a)) = take 32 (crypto_hash VEX_SERVICE_UUID 36)"
proof -
  have "length VEX_SERVICE_UUID = 36" by (simp add: VEX_SERVICE_UUID_def str_bytes_def)
  then show ?thesis
    using load_keys_identity [OF assms(4,2,3,1)]
    by (simp add: vex_crypto_init_def derive_mesh_key the_mesh_key_def Let_def split: prod.splits)
qed

theorem mesh_key_is_shared_witness:
  "mesh_key (snd (vex_crypto_init (Urandom []) (Urandom []) zero_node)) =
   mesh_key (snd (vex_crypto_load_keys (Urandom []) zero_node [47, 0]
     \<lparr>files = \<lambda>_. Some (replicate 32 1 @ replicate 64 2 @ []), writable = \<lambda>_. True\<rparr>))"
  by (rule mesh_key_is_shared [where pk = "replicate 32 1" and sk = "replicate 64 2" and rest = "[]", THEN conjunct1]) simp_all

end
