(* ===== verification/Vex_Transport.thy ===== *)
theory Vex_Transport
  imports Vex_Node
begin

text \<open>
  \<^verbatim>\<open>src/transport_unix.c\<close>: peers over Unix stream sockets, with a two-byte length in front of every
  packet. The operating system is the record \<open>world\<close>: what the next calls of \<^verbatim>\<open>write\<close> do, what
  is waiting to be read on every descriptor, and the trace of the calls with an effect.
\<close>

section \<open>The operating system\<close>

text \<open>
  One \<^verbatim>\<open>write\<close> accepts everything, at most \<open>k\<close> bytes, or fails. After the listed outcomes every
  \<^verbatim>\<open>write\<close> accepts everything.
\<close>

datatype write_result = Accept_all | Accept_at_most nat | Write_error

text \<open>
  What \<^verbatim>\<open>read\<close> meets on a descriptor, in order: bytes that arrived together, a moment without
  data (\<^verbatim>\<open>EAGAIN\<close> on the non-blocking socket), the end of the stream, or an error.
\<close>

datatype read_event = Chunk bytes | Again | Eof | Broken

datatype read_result = Data bytes | Would_block | End_of_stream | Read_error

datatype sys_event =
    EWrite int bytes
  | EClose int
  | EUnlink bytes
  | EBind int bytes
  | EListen int
  | EConnect int bytes
  | ENonblock int
  | EDisplay bytes int int
  | EStats bytes int int u64 u64 u64 u64 nat
  | EPeers "(bytes \<times> int \<times> int) list"

record world =
  w_writes :: "write_result list"
  w_rx :: "int \<Rightarrow> read_event list"
  w_trace :: "sys_event list"

definition emit :: "sys_event \<Rightarrow> world \<Rightarrow> world" where
  "emit e w = w\<lparr>w_trace := w_trace w @ [e]\<rparr>"

definition sys_close :: "int \<Rightarrow> world \<Rightarrow> world" where
  "sys_close d w = emit (EClose d) w"

definition sys_write :: "int \<Rightarrow> bytes \<Rightarrow> world \<Rightarrow> int \<times> world" where
  "sys_write d data w =
     (case w_writes w of
        [] \<Rightarrow> (int (length data), emit (EWrite d data) w)
      | Accept_all # r \<Rightarrow> (int (length data), emit (EWrite d data) (w\<lparr>w_writes := r\<rparr>))
      | Accept_at_most k # r \<Rightarrow>
          (int (min k (length data)), emit (EWrite d (take k data)) (w\<lparr>w_writes := r\<rparr>))
      | Write_error # r \<Rightarrow> (-1, w\<lparr>w_writes := r\<rparr>))"

fun rx_read :: "nat \<Rightarrow> read_event list \<Rightarrow> read_result \<times> read_event list" where
  "rx_read n [] = (Would_block, [])"
| "rx_read n (Chunk bs # r) =
     (if bs = [] then rx_read n r
      else (Data (take n bs), if length bs \<le> n then r else Chunk (drop n bs) # r))"
| "rx_read n (Again # r) = (Would_block, r)"
| "rx_read n (Eof # r) = (End_of_stream, Eof # r)"
| "rx_read n (Broken # r) = (Read_error, r)"

definition sys_read :: "int \<Rightarrow> nat \<Rightarrow> world \<Rightarrow> read_result \<times> world" where
  "sys_read d n w = (let (res, r) = rx_read n (w_rx w d) in (res, w\<lparr>w_rx := (w_rx w)(d := r)\<rparr>))"

section \<open>Sending\<close>

text \<open>\<^verbatim>\<open>peer->active = 0; close(peer->fd);\<close>\<close>

definition drop_peer :: "vex_peer \<Rightarrow> world \<Rightarrow> vex_peer \<times> world" where
  "drop_peer peer w = (peer\<lparr>peer_active := False\<rparr>, sys_close (fd peer) w)"

definition vex_transport_send_to_peer :: "vex_peer \<Rightarrow> bytes \<Rightarrow> nat \<Rightarrow> world \<Rightarrow> int \<times> vex_peer \<times> world" where
  "vex_transport_send_to_peer peer data len w =
     (if \<not> peer_active peer \<or> fd peer < 0 then (-1, peer, w)
      else
        let header = [of_nat (len div 256), of_nat (len mod 256)];
            (n, w) = sys_write (fd peer) header w in
        if n \<noteq> 2 then (-1, drop_peer peer w)
        else
          let (n, w) = sys_write (fd peer) (take len data) w in
          if n \<noteq> int len then (-1, drop_peer peer w)
          else (0, peer, w))"

text \<open>The loop of \<^verbatim>\<open>vex_transport_send_to_all\<close> over the peer table.\<close>

fun send_loop :: "vex_peer list \<Rightarrow> bytes \<Rightarrow> nat \<Rightarrow> int \<Rightarrow> world \<Rightarrow> int \<times> vex_peer list \<times> world" where
  "send_loop [] data len except_fd w = (0, [], w)"
| "send_loop (p # ps) data len except_fd w =
     (if peer_active p \<and> fd p \<noteq> except_fd then
        let (r, p, w) = vex_transport_send_to_peer p data len w;
            (sent, ps, w) = send_loop ps data len except_fd w
        in ((if r = 0 then 1 + sent else sent), p # ps, w)
      else
        let (sent, ps, w) = send_loop ps data len except_fd w in (sent, p # ps, w))"

definition vex_transport_send_to_all ::
  "vex_node \<Rightarrow> bytes \<Rightarrow> nat \<Rightarrow> int \<Rightarrow> world \<Rightarrow> int \<times> vex_node \<times> world" where
  "vex_transport_send_to_all node data len except_fd w =
     (let (sent, ps, w) = send_loop (peers node) data len except_fd w in (sent, node\<lparr>peers := ps\<rparr>, w))"

section \<open>Receiving\<close>

text \<open>The loop that fills \<open>buf\<close> up to \<open>pkt_len\<close>; the Boolean says whether it got there.\<close>

function read_loop :: "int \<Rightarrow> bytes \<Rightarrow> nat \<Rightarrow> nat \<Rightarrow> world \<Rightarrow> (bool \<times> bytes \<times> world) option" where
  "read_loop d buf got pkt_len w =
     (if got < pkt_len then
        (case sys_read d (pkt_len - got) w of
           (Data bs, w) \<Rightarrow>
             if bs = [] then Some (False, buf, w)
             else (case memcpy_at buf got bs (length bs) of
                     None \<Rightarrow> None
                   | Some buf \<Rightarrow> read_loop d buf (got + length bs) pkt_len w)
         | (_, w) \<Rightarrow> Some (False, buf, w))
      else Some (True, buf, w))"
  by pat_completeness auto
termination
  by (relation "measure (\<lambda>(d, buf, got, pkt_len, w). pkt_len - got)") (auto intro!: diff_less_mono2)

declare read_loop.simps [simp del]

definition vex_transport_unix_read ::
  "vex_peer \<Rightarrow> bytes \<Rightarrow> nat \<Rightarrow> int \<Rightarrow> world \<Rightarrow> (int \<times> vex_peer \<times> bytes \<times> world) option" where
  "vex_transport_unix_read peer buf buf_len now w =
     (if \<not> peer_active peer then Some (-1, peer, buf, w)
      else
        case sys_read (fd peer) 2 w of
          (End_of_stream, w) \<Rightarrow> (let (peer, w) = drop_peer peer w in Some (-1, peer, buf, w))
        | (Would_block, w) \<Rightarrow> Some (0, peer, buf, w)
        | (Read_error, w) \<Rightarrow> (let (peer, w) = drop_peer peer w in Some (-1, peer, buf, w))
        | (Data header, w) \<Rightarrow>
            if length header \<noteq> 2 then Some (-1, peer, buf, w)
            else
              let pkt_len = unat (push_bit 8 (ucast (header ! 0)) OR ucast (header ! 1) :: u16) in
              if pkt_len > buf_len \<or> pkt_len > VEX_MAX_PACKET then Some (-1, peer, buf, w)
              else
                (case read_loop (fd peer) buf 0 pkt_len w of
                   None \<Rightarrow> None
                 | Some (False, buf, w) \<Rightarrow> (let (peer, w) = drop_peer peer w in Some (-1, peer, buf, w))
                 | Some (True, buf, w) \<Rightarrow> Some (int pkt_len, peer\<lparr>last_seen := now\<rparr>, buf, w)))"

section \<open>Connections\<close>

text \<open>Decimal output of \<^verbatim>\<open>%d\<close>.\<close>

fun nat_digits :: "nat \<Rightarrow> bytes" where
  "nat_digits n = (if n < 10 then [of_nat (48 + n)] else nat_digits (n div 10) @ [of_nat (48 + n mod 10)])"

declare nat_digits.simps [simp del]

definition int_digits :: "int \<Rightarrow> bytes" where
  "int_digits i = (if i < 0 then 45 # nat_digits (nat (- i)) else nat_digits (nat i))"

text \<open>The index of the first inactive slot of the peer table.\<close>

fun free_peer :: "vex_peer list \<Rightarrow> nat option" where
  "free_peer [] = None"
| "free_peer (p # ps) = (if \<not> peer_active p then Some 0 else map_option Suc (free_peer ps))"

text \<open>What both connection functions do with a new descriptor and a free slot.\<close>

definition install_peer :: "vex_node \<Rightarrow> nat \<Rightarrow> int \<Rightarrow> bytes \<Rightarrow> int \<Rightarrow> world \<Rightarrow> (vex_node \<times> world) option" where
  "install_peer node i d name now w =
     (let p = peers node ! i in do {
        nm \<leftarrow> snprintf_to (peer_name p) 64 name;
        let p = p\<lparr>fd := d, peer_active := True, last_seen := now, peer_name := nm\<rparr>;
        Some (node\<lparr>peers := (peers node)[i := p], peer_count := peer_count node + 1\<rparr>, emit (ENonblock d) w)
      })"

datatype accept_result = Accepted int | Accept_again | Accept_error

definition vex_transport_unix_accept ::
  "accept_result \<Rightarrow> int \<Rightarrow> vex_node \<Rightarrow> world \<Rightarrow> (int \<times> vex_node \<times> world) option" where
  "vex_transport_unix_accept res now node w =
     (case res of
        Accept_again \<Rightarrow> Some (0, node, w)
      | Accept_error \<Rightarrow> Some (-1, node, w)
      | Accepted d \<Rightarrow>
          (case free_peer (take VEX_MAX_PEERS (peers node)) of
             Some i \<Rightarrow> map_option (\<lambda>(node, w). (1, node, w))
                         (install_peer node i d (str_bytes ''peer-'' @ int_digits d) now w)
           | None \<Rightarrow> Some (0, node, sys_close d w)))"

datatype connect_result = No_socket | Connect_failed int | Connected int

definition vex_transport_unix_connect ::
  "connect_result \<Rightarrow> int \<Rightarrow> vex_node \<Rightarrow> bytes \<Rightarrow> world \<Rightarrow> (int \<times> vex_node \<times> world) option" where
  "vex_transport_unix_connect res now node sock_path w =
     (case res of
        No_socket \<Rightarrow> Some (-1, node, w)
      | Connect_failed d \<Rightarrow> Some (-1, node, sys_close d w)
      | Connected d \<Rightarrow>
          let w = emit (EConnect d (take 107 (c_string sock_path))) w in
          (case free_peer (take VEX_MAX_PEERS (peers node)) of
             Some i \<Rightarrow> map_option (\<lambda>(node, w). (0, node, w))
                         (install_peer node i d (str_bytes ''peer@'' @ c_string sock_path) now w)
           | None \<Rightarrow> Some (-1, node, sys_close d w)))"

datatype listen_result = Socket_failed | Bind_failed int | Listen_failed int | Listening int

definition vex_transport_unix_init ::
  "listen_result \<Rightarrow> vex_node \<Rightarrow> bytes \<Rightarrow> world \<Rightarrow> int \<times> vex_node \<times> world" where
  "vex_transport_unix_init res node sock_path w =
     (let path = take 107 (c_string sock_path) in
      case res of
        Socket_failed \<Rightarrow> (-1, node\<lparr>listen_fd := -1\<rparr>, w)
      | Bind_failed d \<Rightarrow> (-1, node\<lparr>listen_fd := d\<rparr>, sys_close d (emit (EUnlink (c_string sock_path)) w))
      | Listen_failed d \<Rightarrow>
          (-1, node\<lparr>listen_fd := d\<rparr>,
           sys_close d (emit (EBind d path) (emit (EUnlink (c_string sock_path)) w)))
      | Listening d \<Rightarrow>
          (0, node\<lparr>listen_fd := d\<rparr>,
           emit (ENonblock d) (emit (EListen d) (emit (EBind d path) (emit (EUnlink (c_string sock_path)) w)))))"

section \<open>Sending: what reaches the wire\<close>

text \<open>The two-byte big-endian length of a frame.\<close>

definition frame_header :: "nat \<Rightarrow> bytes" where
  "frame_header len = [of_nat (len div 256), of_nat (len mod 256)]"

text \<open>The events of sending a frame to a list of descriptors, when every write is accepted.\<close>

definition frame_events :: "bytes \<Rightarrow> int \<Rightarrow> sys_event list" where
  "frame_events data d = [EWrite d (frame_header (length data)), EWrite d data]"

definition is_target :: "int \<Rightarrow> vex_peer \<Rightarrow> bool" where
  "is_target except_fd p \<longleftrightarrow> peer_active p \<and> fd p \<noteq> except_fd"

definition targets :: "vex_node \<Rightarrow> int \<Rightarrow> int list" where
  "targets node except_fd = map fd (filter (is_target except_fd) (peers node))"

text \<open>Descriptors of active peers come from \<^verbatim>\<open>accept\<close> or \<^verbatim>\<open>socket\<close> and are not negative.\<close>

definition peers_open :: "vex_node \<Rightarrow> bool" where
  "peers_open node \<longleftrightarrow> (\<forall>p \<in> set (peers node). peer_active p \<longrightarrow> 0 \<le> fd p)"

lemma sys_write_accept:
  "w_writes w = [] \<Longrightarrow> sys_write d data w = (int (length data), emit (EWrite d data) w)"
  by (simp add: sys_write_def)

lemma emit_simps [simp]:
  "w_writes (emit e w) = w_writes w" "w_rx (emit e w) = w_rx w" "w_trace (emit e w) = w_trace w @ [e]"
  by (simp_all add: emit_def)

lemma send_to_peer_accept:
  assumes "w_writes w = []" and "peer_active p" and "0 \<le> fd p" and "len \<le> length data"
  shows "vex_transport_send_to_peer p data len w =
           (0, p, w\<lparr>w_trace := w_trace w @ frame_events (take len data) (fd p)\<rparr>)"
  using assms
  by (simp add: vex_transport_send_to_peer_def sys_write_accept emit_def frame_events_def frame_header_def)

lemma send_loop_accept:
  assumes "w_writes w = []" and "\<forall>p \<in> set ps. peer_active p \<longrightarrow> 0 \<le> fd p" and "len \<le> length data"
  shows "send_loop ps data len x w =
           (int (length (filter (is_target x) ps)), ps,
            w\<lparr>w_trace := w_trace w @ concat (map (frame_events (take len data)) (map fd (filter (is_target x) ps)))\<rparr>)"
  using assms
proof (induction ps arbitrary: w)
  case (Cons p ps)
  show ?case
  proof (cases "is_target x p")
    case True
    then have "peer_active p" "fd p \<noteq> x" "0 \<le> fd p" using Cons.prems by (auto simp: is_target_def)
    with Cons True show ?thesis by (simp add: send_to_peer_accept)
  next
    case False
    with Cons show ?thesis by (auto simp: is_target_def)
  qed
qed simp

lemma send_to_all_accept:
  assumes "w_writes w = []" and "peers_open node" and "len \<le> length data"
  shows "vex_transport_send_to_all node data len x w =
           (int (length (targets node x)), node,
            w\<lparr>w_trace := w_trace w @ concat (map (frame_events (take len data)) (targets node x))\<rparr>)"
  using send_loop_accept [of w "peers node" len data x] assms
  by (simp add: vex_transport_send_to_all_def peers_open_def targets_def)

text \<open>
  With writes that fail or are cut short: a target either got its whole frame and stays as it
  was, or is closed and deactivated. Nobody else is touched, and the others are still served.
\<close>

definition peer_outcome :: "bytes \<Rightarrow> vex_peer \<Rightarrow> vex_peer \<Rightarrow> sys_event list \<Rightarrow> bool" where
  "peer_outcome data p p' evs \<longleftrightarrow>
     p' = p \<and> evs = frame_events data (fd p) \<or>
     p' = p\<lparr>peer_active := False\<rparr> \<and>
       (\<exists>ws. evs = map (EWrite (fd p)) ws @ [EClose (fd p)] \<and> concat ws \<noteq> frame_header (length data) @ data \<and>
             concat ws = take (length (concat ws)) (frame_header (length data) @ data))"

lemma sys_write_cases:
  assumes "sys_write d data w = (n, w')"
  shows "n = -1 \<and> w_trace w' = w_trace w \<or>
         (\<exists>k. k \<le> length data \<and> n = int k \<and> w_trace w' = w_trace w @ [EWrite d (take k data)])"
  using assms
  by (auto simp: sys_write_def split: list.splits write_result.splits)
     (metis min.cobounded2 min_def take_all_iff nle_le)+

lemma send_to_peer_outcome:
  assumes "peer_active p" and "0 \<le> fd p" and "data \<noteq> []"
    and "vex_transport_send_to_peer p data (length data) w = (r, p', w')"
  shows "\<exists>evs. w_trace w' = w_trace w @ evs \<and> peer_outcome data p p' evs \<and> (r = 0 \<longleftrightarrow> p' = p)"
proof -
  let ?h = "frame_header (length data)"
  have h: "length ?h = 2" by (simp add: frame_header_def)
  have inactive: "p\<lparr>peer_active := False\<rparr> \<noteq> p" using assms(1) by (metis vex_peer.select_convs(4) vex_peer.surjective vex_peer.update_convs(4))
  have drop: "\<exists>evs. w_trace w' = w_trace w @ evs \<and> peer_outcome data p p' evs \<and> (r = 0 \<longleftrightarrow> p' = p)"
    if "w_trace v = w_trace w @ map (EWrite (fd p)) ws" "(r, p', w') = (-1, drop_peer p v)"
      "concat ws = take (length (concat ws)) (?h @ data)" "length (concat ws) < length (?h @ data)" for v ws
  proof -
    have "concat ws \<noteq> ?h @ data" using that(4) by auto
    with that(1-3) inactive show ?thesis
      by (intro exI [of _ "map (EWrite (fd p)) ws @ [EClose (fd p)]"])
         (auto simp: drop_peer_def sys_close_def peer_outcome_def)
  qed
  obtain n1 w1 where w1: "sys_write (fd p) ?h w = (n1, w1)" by (cases "sys_write (fd p) ?h w")
  show ?thesis
  proof (cases "n1 = 2")
    case False
    then have res: "(r, p', w') = (-1, drop_peer p w1)"
      using assms w1 by (simp add: vex_transport_send_to_peer_def frame_header_def)
    from sys_write_cases [OF w1] show ?thesis
    proof
      assume "n1 = -1 \<and> w_trace w1 = w_trace w"
      then show ?thesis using drop [of w1 "[]"] res h by simp
    next
      assume "\<exists>k. k \<le> length ?h \<and> n1 = int k \<and> w_trace w1 = w_trace w @ [EWrite (fd p) (take k ?h)]"
      then obtain k where "k \<le> 2" "k \<noteq> 2" "w_trace w1 = w_trace w @ [EWrite (fd p) (take k ?h)]"
        using False h by auto
      then show ?thesis using drop [of w1 "[take k ?h]"] res h by simp
    qed
  next
    case True
    obtain n2 w2 where w2: "sys_write (fd p) data w1 = (n2, w2)" by (cases "sys_write (fd p) data w1")
    have t1: "w_trace w1 = w_trace w @ [EWrite (fd p) ?h]"
      using sys_write_cases [OF w1] True h by auto
    show ?thesis
    proof (cases "n2 = int (length data)")
      case full: True
      then have "(r, p', w') = (0, p, w2)"
        using assms w1 w2 True by (simp add: vex_transport_send_to_peer_def frame_header_def)
      moreover have "w_trace w2 = w_trace w @ frame_events data (fd p)"
        using sys_write_cases [OF w2] full t1 by (auto simp: frame_events_def)
      ultimately show ?thesis by (auto simp: peer_outcome_def)
    next
      case part: False
      then have res: "(r, p', w') = (-1, drop_peer p w2)"
        using assms w1 w2 True by (simp add: vex_transport_send_to_peer_def frame_header_def)
      from sys_write_cases [OF w2] show ?thesis
      proof
        assume "n2 = -1 \<and> w_trace w2 = w_trace w1"
        then show ?thesis using drop [of w2 "[?h]"] res h t1 assms(3) by simp
      next
        assume "\<exists>k. k \<le> length data \<and> n2 = int k \<and> w_trace w2 = w_trace w1 @ [EWrite (fd p) (take k data)]"
        then obtain k where "k < length data" "w_trace w2 = w_trace w1 @ [EWrite (fd p) (take k data)]"
          using part by (auto simp: le_less)
        then show ?thesis using drop [of w2 "[?h, take k data]"] res h t1 by simp
      qed
    qed
  qed
qed

lemma send_loop_outcome:
  assumes "\<forall>p \<in> set ps. peer_active p \<longrightarrow> 0 \<le> fd p" and "data \<noteq> []"
    and "send_loop ps data (length data) x w = (sent, ps', w')"
  shows "\<exists>evss. length evss = length ps \<and> length ps' = length ps \<and> w_trace w' = w_trace w @ concat evss \<and>
           (\<forall>i < length ps. if is_target x (ps ! i) then peer_outcome data (ps ! i) (ps' ! i) (evss ! i)
                            else ps' ! i = ps ! i \<and> evss ! i = []) \<and>
           sent = int (length (filter (\<lambda>i. is_target x (ps ! i) \<and> ps' ! i = ps ! i) [0..<length ps]))"
  using assms
proof (induction ps arbitrary: w sent ps' w')
  case (Cons p ps)
  have count: "length (filter Q [0..<length (p # ps)]) =
      (if Q 0 then 1 else 0) + length (filter (\<lambda>i. Q (Suc i)) [0..<length ps])" for Q
    by (simp add: upt_conv_Cons map_Suc_upt [symmetric] filter_map comp_def del: upt_Suc)
  show ?case
  proof (cases "is_target x p")
    case True
    obtain r q v where 1: "vex_transport_send_to_peer p data (length data) w = (r, q, v)"
      by (metis prod_cases3)
    obtain s2 qs u where 2: "send_loop ps data (length data) x v = (s2, qs, u)" by (metis prod_cases3)
    have res: "sent = (if r = 0 then 1 + s2 else s2)" "ps' = q # qs" "w' = u"
      using Cons.prems(3) True 1 2 by (auto simp: is_target_def)
    have act: "peer_active p" "0 \<le> fd p" using True Cons.prems(1) by (auto simp: is_target_def)
    obtain evs where e: "w_trace v = w_trace w @ evs" "peer_outcome data p q evs" "r = 0 \<longleftrightarrow> q = p"
      using send_to_peer_outcome [OF act Cons.prems(2) 1] by blast
    obtain evss where IH: "length evss = length ps" "length qs = length ps" "w_trace u = w_trace v @ concat evss"
      "\<forall>i < length ps. if is_target x (ps ! i) then peer_outcome data (ps ! i) (qs ! i) (evss ! i)
                        else qs ! i = ps ! i \<and> evss ! i = []"
      "s2 = int (length (filter (\<lambda>i. is_target x (ps ! i) \<and> qs ! i = ps ! i) [0..<length ps]))"
      using Cons.IH [OF _ Cons.prems(2) 2] Cons.prems(1) by auto
    show ?thesis
      unfolding count
      by (rule exI [of _ "evs # evss"]) (use IH e res True in \<open>auto simp: nth_Cons split: nat.splits\<close>)
  next
    case False
    obtain s2 qs u where 2: "send_loop ps data (length data) x w = (s2, qs, u)" by (metis prod_cases3)
    have res: "sent = s2" "ps' = p # qs" "w' = u"
      using Cons.prems(3) False 2 by (auto simp: is_target_def)
    obtain evss where IH: "length evss = length ps" "length qs = length ps" "w_trace u = w_trace w @ concat evss"
      "\<forall>i < length ps. if is_target x (ps ! i) then peer_outcome data (ps ! i) (qs ! i) (evss ! i)
                        else qs ! i = ps ! i \<and> evss ! i = []"
      "s2 = int (length (filter (\<lambda>i. is_target x (ps ! i) \<and> qs ! i = ps ! i) [0..<length ps]))"
      using Cons.IH [OF _ Cons.prems(2) 2] Cons.prems(1) by auto
    show ?thesis
      unfolding count
      by (rule exI [of _ "[] # evss"]) (use IH res False in \<open>auto simp: nth_Cons split: nat.splits\<close>)
  qed
qed simp

section \<open>Receiving: reassembly\<close>

text \<open>Bytes that arrive as several chunks, none of them interrupted by \<^verbatim>\<open>Again\<close>.\<close>

abbreviation chunks :: "bytes list \<Rightarrow> read_event list" where
  "chunks bss \<equiv> map Chunk bss"

lemma rx_read_chunks:
  assumes "concat bss \<noteq> []" and "0 < n"
  shows "\<exists>bs bss'. rx_read n (chunks bss @ r) = (Data bs, chunks bss' @ r) \<and> bs \<noteq> [] \<and> length bs \<le> n \<and>
           concat bss = bs @ concat bss'"
  using assms
proof (induction bss)
  case (Cons b bss)
  show ?case
  proof (cases "b = []")
    case True
    with Cons show ?thesis by simp
  next
    case False
    show ?thesis
    proof (cases "length b \<le> n")
      case True
      with False show ?thesis by (intro exI [of _ b] exI [of _ bss]) simp
    next
      case l: False
      with False Cons.prems(2) show ?thesis
        by (intro exI [of _ "take n b"] exI [of _ "drop n b # bss"]) simp
    qed
  qed
qed simp

text \<open>The loop takes exactly the bytes it wants, however they were cut.\<close>

lemma read_loop_chunks:
  assumes "w_rx w d = chunks bss @ r" and "pkt_len - got \<le> length (concat bss)" and "got \<le> pkt_len"
    and "pkt_len \<le> length buf"
  shows "\<exists>bss'. read_loop d buf got pkt_len w =
           Some (True, take got buf @ take (pkt_len - got) (concat bss) @ drop pkt_len buf,
                 w\<lparr>w_rx := (w_rx w)(d := chunks bss' @ r)\<rparr>) \<and>
           concat bss' = drop (pkt_len - got) (concat bss)"
  using assms
proof (induction "pkt_len - got" arbitrary: got buf bss w rule: less_induct)
  case less
  show ?case
  proof (cases "got < pkt_len")
    case False
    with less.prems have "got = pkt_len" by simp
    with less.prems(1) show ?thesis
      by (subst read_loop.simps) (auto intro!: exI [of _ bss] simp: fun_upd_idem)
  next
    case True
    have "0 < length (concat bss)" using less.prems(2) True by linarith
    then have ne: "concat bss \<noteq> []" by (metis length_0_conv less_irrefl)
    have "0 < pkt_len - got" using True by simp
    from rx_read_chunks [OF ne this, of r] obtain bs bss1 where
      rd: "rx_read (pkt_len - got) (w_rx w d) = (Data bs, chunks bss1 @ r)"
      and bs: "bs \<noteq> []" "length bs \<le> pkt_len - got" "concat bss = bs @ concat bss1"
      using less.prems(1) by auto
    define w1 where "w1 = w\<lparr>w_rx := (w_rx w)(d := chunks bss1 @ r)\<rparr>"
    define buf1 where "buf1 = take got buf @ bs @ drop (got + length bs) buf"
    have mc: "memcpy_at buf got bs (length bs) = Some buf1"
      using bs(2) True less.prems(4) by (simp add: buf1_def)
    have step: "read_loop d buf got pkt_len w = read_loop d buf1 (got + length bs) pkt_len w1"
      using True bs(1) mc by (subst read_loop.simps) (simp add: sys_read_def rd w1_def)
    have "\<exists>bss'. read_loop d buf1 (got + length bs) pkt_len w1 =
        Some (True, take (got + length bs) buf1 @ take (pkt_len - (got + length bs)) (concat bss1) @ drop pkt_len buf1,
              w1\<lparr>w_rx := (w_rx w1)(d := chunks bss' @ r)\<rparr>) \<and>
        concat bss' = drop (pkt_len - (got + length bs)) (concat bss1)"
    proof (rule less.hyps)
      show "pkt_len - (got + length bs) < pkt_len - got" using bs(1) True by (simp add: diff_less_mono2)
      show "pkt_len - (got + length bs) \<le> length (concat bss1)" using less.prems(2) bs(3) by simp
      show "pkt_len \<le> length buf1" using less.prems(4) bs(2) True by (simp add: buf1_def)
    qed (use bs(2) True in \<open>simp_all add: w1_def\<close>)
    then obtain bss' where r2: "read_loop d buf1 (got + length bs) pkt_len w1 =
        Some (True, take (got + length bs) buf1 @ take (pkt_len - (got + length bs)) (concat bss1) @ drop pkt_len buf1,
              w1\<lparr>w_rx := (w_rx w1)(d := chunks bss' @ r)\<rparr>)"
      "concat bss' = drop (pkt_len - (got + length bs)) (concat bss1)" by blast
    have "take (got + length bs) buf1 = take got buf @ bs" "drop pkt_len buf1 = drop pkt_len buf"
      using bs(2) True less.prems(4) by (simp_all add: buf1_def)
    moreover have "take (pkt_len - got) (concat bss) = bs @ take (pkt_len - (got + length bs)) (concat bss1)"
      "drop (pkt_len - got) (concat bss) = drop (pkt_len - (got + length bs)) (concat bss1)"
      using bs(2) by (simp_all add: bs(3))
    ultimately show ?thesis using step r2 by (auto simp: w1_def)
  qed
qed

text \<open>The loop never leaves the buffer.\<close>

lemma read_loop_total:
  assumes "got \<le> pkt_len" and "pkt_len \<le> length buf"
  shows "\<exists>ok buf' w'. read_loop d buf got pkt_len w = Some (ok, buf', w') \<and> length buf' = length buf \<and>
           w_trace w' = w_trace w \<and> w_writes w' = w_writes w"
  using assms
proof (induction d buf got pkt_len w rule: read_loop.induct)
  case (1 d buf got pkt_len w)
  obtain res v where sr: "sys_read d (pkt_len - got) w = (res, v)" by (cases "sys_read d (pkt_len - got) w")
  have frame: "w_trace v = w_trace w" "w_writes v = w_writes w"
    using sr by (auto simp: sys_read_def split: prod.splits)
  have short: "length bs \<le> n" if "rx_read n evs = (Data bs, evs')" for n evs evs' bs
    using that by (induction n evs rule: rx_read.induct) (auto split: if_splits)
  show ?case
  proof (cases "got < pkt_len \<and> (\<exists>bs. res = Data bs \<and> bs \<noteq> [])")
    case False
    then show ?thesis using 1(3) sr frame by (subst read_loop.simps) (auto split: read_result.splits)
  next
    case True
    then obtain bs where bs: "got < pkt_len" "res = Data bs" "bs \<noteq> []" by blast
    have l: "length bs \<le> pkt_len - got"
      using sr short bs(2) by (auto simp: sys_read_def split: prod.splits)
    then have mc: "memcpy_at buf got bs (length bs) = Some (take got buf @ bs @ drop (got + length bs) buf)"
      using bs(1) 1(3) by simp
    have "\<exists>ok buf' w'. read_loop d (take got buf @ bs @ drop (got + length bs) buf) (got + length bs) pkt_len v =
        Some (ok, buf', w') \<and> length buf' = length (take got buf @ bs @ drop (got + length bs) buf) \<and>
        w_trace w' = w_trace v \<and> w_writes w' = w_writes v"
      by (rule 1(1) [OF bs(1) sr [symmetric] bs(2) bs(3) mc]) (use bs(1) l 1(3) in simp_all)
    then show ?thesis
      using bs sr mc frame l 1(3) by (subst read_loop.simps) auto
  qed
qed

lemma frame_header_value:
  assumes "n < 65536"
  shows "unat (push_bit 8 (ucast (frame_header n ! 0)) OR ucast (frame_header n ! 1) :: u16) = n"
proof -
  have "unat (of_nat (n div 256) :: u8) = n div 256" "unat (of_nat (n mod 256) :: u8) = n mod 256"
    using assms by (simp_all add: unat_of_nat)
  then show ?thesis by (simp add: frame_header_def be16_value)
qed

text \<open>One frame is read back, whatever follows it and however its payload was cut into chunks.\<close>

lemma unix_read_frame:
  assumes "peer_active peer" and "w_rx w (fd peer) = chunks (b # bss) @ r" and "2 \<le> length b"
    and "concat (b # bss) = frame_header (length data) @ data @ rest"
    and "length data \<le> buf_len" and "buf_len \<le> length buf" and "length data \<le> VEX_MAX_PACKET"
  shows "\<exists>bss'. vex_transport_unix_read peer buf buf_len now w =
           Some (int (length data), peer\<lparr>last_seen := now\<rparr>, data @ drop (length data) buf,
                 w\<lparr>w_rx := (w_rx w)(fd peer := chunks bss' @ r)\<rparr>) \<and> concat bss' = rest"
proof -
  let ?d = "fd peer" and ?h = "frame_header (length data)"
  have h: "length ?h = 2" by (simp add: frame_header_def)
  have b: "b = ?h @ drop 2 b" and cat: "drop 2 b @ concat bss = data @ rest"
  proof -
    have "take 2 (b @ concat bss) = ?h" "drop 2 (b @ concat bss) = data @ rest"
      using assms(4) h by simp_all
    with assms(3) show "drop 2 b @ concat bss = data @ rest" "b = ?h @ drop 2 b"
      by (simp_all, metis append_take_drop_id)
  qed
  obtain bss1 where rd: "rx_read 2 (w_rx w ?d) = (Data ?h, chunks bss1 @ r)" and c1: "concat bss1 = data @ rest"
  proof (cases "length b \<le> 2")
    case True
    then have "b = ?h" using b by (metis append_Nil2 drop_all)
    with assms(2) h cat True show ?thesis by (intro that [of bss]) auto
  next
    case False
    then have "rx_read 2 (w_rx w ?d) = (Data ?h, chunks (drop 2 b # bss) @ r)"
      using assms(2) by (subst (asm) b) (auto simp: h, metis append_eq_conv_conj b h)
    with cat show ?thesis by (intro that [of "drop 2 b # bss"]) auto
  qed
  define w1 where "w1 = w\<lparr>w_rx := (w_rx w)(?d := chunks bss1 @ r)\<rparr>"
  have sr: "sys_read ?d 2 w = (Data ?h, w1)" by (simp add: sys_read_def rd w1_def)
  have n: "unat (push_bit 8 (ucast (?h ! 0)) OR ucast (?h ! 1) :: u16) = length data"
    using assms(7) by (intro frame_header_value) simp
  obtain bss' where "read_loop ?d buf 0 (length data) w1 =
      Some (True, take 0 buf @ take (length data - 0) (concat bss1) @ drop (length data) buf,
            w1\<lparr>w_rx := (w_rx w1)(?d := chunks bss' @ r)\<rparr>)"
    "concat bss' = drop (length data - 0) (concat bss1)"
    using read_loop_chunks [of w1 ?d bss1 r "length data" 0 buf] assms(5,6) c1 by (auto simp: w1_def)
  then show ?thesis
    using assms(1,5,7) c1
    by (intro exI [of _ bss']) (simp add: vex_transport_unix_read_def sr h n [unfolded One_nat_def] w1_def Let_def)
qed

section \<open>Properties\<close>

text \<open>A peer, a node with that peer in its first slot, and a world, for the witnesses.\<close>

definition one_peer :: vex_peer where
  "one_peer = zero_peer\<lparr>fd := 4, peer_active := True\<rparr>"

definition one_peer_node :: vex_node where
  "one_peer_node = zero_node\<lparr>peers := one_peer # replicate 31 zero_peer\<rparr>"

definition rx_world :: "read_event list \<Rightarrow> world" where
  "rx_world evs = \<lparr>w_writes = [Accept_all, Accept_at_most 1], w_rx = \<lambda>_. evs, w_trace = []\<rparr>"

lemma one_peer_simps [simp]:
  "peer_active one_peer" "fd one_peer = 4" "peers_open one_peer_node" "node_shape one_peer_node"
  "peers one_peer_node = one_peer # replicate 31 zero_peer" "w_rx (rx_world evs) d = evs" "\<not> peer_active zero_peer"
  "w_trace (rx_world evs) = []"
  using node_shape_zero
  by (auto simp: one_peer_def one_peer_node_def peers_open_def zero_peer_def node_shape_def rx_world_def VEX_MAX_PEERS_def)

text \<open>
  C17. Sending to all peers with arbitrary results of \<^verbatim>\<open>write\<close>: every active peer other than the
  excluded descriptor either got its complete frame and is unchanged, or got an incomplete one and
  is closed and deactivated; nothing is written to anyone else; the result counts the complete
  frames.
\<close>

theorem send_to_all_outcome:
  assumes "peers_open node" and "data \<noteq> []"
    and "vex_transport_send_to_all node data (length data) x w = (sent, node', w')"
  shows "\<exists>evss. length evss = length (peers node) \<and> length (peers node') = length (peers node) \<and>
           w_trace w' = w_trace w @ concat evss \<and> node' = node\<lparr>peers := peers node'\<rparr> \<and>
           (\<forall>i < length (peers node).
              if is_target x (peers node ! i) then peer_outcome data (peers node ! i) (peers node' ! i) (evss ! i)
              else peers node' ! i = peers node ! i \<and> evss ! i = []) \<and>
           sent = int (length (filter (\<lambda>i. is_target x (peers node ! i) \<and> peers node' ! i = peers node ! i)
                                 [0..<length (peers node)]))"
proof -
  obtain s ps v where 1: "send_loop (peers node) data (length data) x w = (s, ps, v)" by (metis prod_cases3)
  with assms(3) have "sent = s" "node' = node\<lparr>peers := ps\<rparr>" "w' = v"
    by (auto simp: vex_transport_send_to_all_def)
  with send_loop_outcome [OF _ assms(2) 1] assms(1) show ?thesis
    by (auto simp: peers_open_def)
qed

theorem send_to_all_outcome_witness:
  "\<exists>sent node' w' evss. vex_transport_send_to_all one_peer_node [1, 2, 3] (length [1, 2, 3 :: u8]) (-1) (rx_world []) = (sent, node', w') \<and>
     w_trace w' = concat evss \<and> peer_outcome [1, 2, 3] one_peer (peers node' ! 0) (evss ! 0)"
proof -
  obtain s n v where st: "vex_transport_send_to_all one_peer_node [1, 2, 3] (length [1, 2, 3 :: u8]) (-1) (rx_world []) = (s, n, v)"
    by (metis prod_cases3)
  from send_to_all_outcome [OF one_peer_simps(3) _ this] obtain evss where
    t: "w_trace v = concat evss" and o:
    "\<forall>i < length (peers one_peer_node).
       if is_target (-1) (peers one_peer_node ! i) then peer_outcome [1, 2, 3] (peers one_peer_node ! i) (peers n ! i) (evss ! i)
       else peers n ! i = peers one_peer_node ! i \<and> evss ! i = []" by auto
  have "peer_outcome [1, 2, 3] one_peer (peers n ! 0) (evss ! 0)"
    using o [rule_format, of 0] by (simp add: is_target_def)
  with st t show ?thesis by blast
qed

text \<open>The bytes of a frame, and reading \<open>n\<close> packets one after the other into fresh buffers.\<close>

definition framed :: "bytes \<Rightarrow> bytes" where
  "framed data = frame_header (length data) @ data"

primrec read_packets :: "nat \<Rightarrow> vex_peer \<Rightarrow> int \<Rightarrow> world \<Rightarrow> (int \<times> bytes) list" where
  "read_packets 0 peer now w = []"
| "read_packets (Suc n) peer now w =
     (case vex_transport_unix_read peer (replicate VEX_MAX_PACKET 0) VEX_MAX_PACKET now w of
        None \<Rightarrow> []
      | Some (r, peer, buf, w) \<Rightarrow> (r, take (nat r) buf) # read_packets n peer now w)"

definition pending :: "bytes \<Rightarrow> read_event list" where
  "pending bs = (if bs = [] then [] else [Chunk bs])"

lemma rx_read_pending:
  assumes "bs \<noteq> []" and "length bs = n"
  shows "rx_read n (pending (bs @ rest)) = (Data bs, pending rest)"
  using assms by (auto simp: pending_def)

lemma unix_read_pending:
  assumes "peer_active peer" and "w_rx w (fd peer) = pending (framed data @ rest)"
    and "length data \<le> buf_len" and "buf_len \<le> length buf" and "length data \<le> VEX_MAX_PACKET"
  shows "vex_transport_unix_read peer buf buf_len now w =
           Some (int (length data), peer\<lparr>last_seen := now\<rparr>, data @ drop (length data) buf,
                 w\<lparr>w_rx := (w_rx w)(fd peer := pending rest)\<rparr>)"
proof -
  let ?d = "fd peer" and ?h = "frame_header (length data)"
  have h: "length ?h = 2" "?h \<noteq> []" by (simp_all add: frame_header_def)
  have n: "unat (push_bit 8 (ucast (?h ! 0)) OR ucast (?h ! 1) :: u16) = length data"
    using assms(5) by (intro frame_header_value) simp
  define w1 where "w1 = w\<lparr>w_rx := (w_rx w)(?d := pending (data @ rest))\<rparr>"
  have sr: "sys_read ?d 2 w = (Data ?h, w1)"
    using rx_read_pending [OF h(2,1), of "data @ rest"] assms(2)
    by (simp add: sys_read_def w1_def framed_def)
  have "read_loop ?d buf 0 (length data) w1 =
      Some (True, data @ drop (length data) buf, w\<lparr>w_rx := (w_rx w)(?d := pending rest)\<rparr>)"
  proof (cases "data = []")
    case True
    then show ?thesis by (subst read_loop.simps) (simp add: w1_def)
  next
    case False
    have "sys_read ?d (length data) w1 = (Data data, w\<lparr>w_rx := (w_rx w)(?d := pending rest)\<rparr>)"
      using rx_read_pending [OF False refl, of rest] by (simp add: sys_read_def w1_def)
    with False assms(3,4) have "read_loop ?d buf 0 (length data) w1 =
        read_loop ?d (data @ drop (length data) buf) (length data) (length data) (w\<lparr>w_rx := (w_rx w)(?d := pending rest)\<rparr>)"
      by (subst read_loop.simps) simp
    also have "\<dots> = Some (True, data @ drop (length data) buf, w\<lparr>w_rx := (w_rx w)(?d := pending rest)\<rparr>)"
      by (subst read_loop.simps) simp
    finally show ?thesis .
  qed
  then show ?thesis
    using assms(1,3,5) by (simp add: vex_transport_unix_read_def sr h n [unfolded One_nat_def] Let_def)
qed

text \<open>
  C18. Frames survive the stream: when the frames of some packets are waiting on a peer's
  descriptor, consecutive reads return exactly these packets, in order.
\<close>

theorem frames_are_read_back:
  assumes "peer_active peer" and "w_rx w (fd peer) = pending (concat (map framed ps) @ rest)"
    and "\<forall>data \<in> set ps. length data \<le> VEX_MAX_PACKET"
  shows "read_packets (length ps) peer now w = map (\<lambda>data. (int (length data), data)) ps"
  using assms
proof (induction ps arbitrary: peer w)
  case (Cons data ps)
  have "vex_transport_unix_read peer (replicate VEX_MAX_PACKET 0) VEX_MAX_PACKET now w =
      Some (int (length data), peer\<lparr>last_seen := now\<rparr>, data @ drop (length data) (replicate VEX_MAX_PACKET 0),
            w\<lparr>w_rx := (w_rx w)(fd peer := pending (concat (map framed ps) @ rest))\<rparr>)"
    by (rule unix_read_pending) (use Cons.prems in simp_all)
  with Cons show ?case by simp
qed simp

theorem frames_are_read_back_witness:
  "read_packets 2 one_peer 9 (rx_world (pending ([0, 2, 104, 105] @ [0, 1, 33] @ [0]))) = [(2, [104, 105]), (1, [33])]"
  using frames_are_read_back [of one_peer "rx_world (pending ([0, 2, 104, 105] @ [0, 1, 33] @ [0]))" "[[104, 105], [33]]" "[0]" 9]
  by (simp add: framed_def frame_header_def numeral_2_eq_2)



lemma unix_read_result:
  assumes "length buf = VEX_MAX_PACKET"
  shows "\<exists>r peer' buf' w'. vex_transport_unix_read peer buf VEX_MAX_PACKET now w = Some (r, peer', buf', w') \<and>
           length buf' = VEX_MAX_PACKET \<and> (r = -1 \<or> 0 \<le> r \<and> r \<le> int VEX_MAX_PACKET) \<and> fd peer' = fd peer \<and>
           (peer_active peer' = peer_active peer \<and> w_trace w' = w_trace w \<or>
            r = -1 \<and> peer_active peer \<and> \<not> peer_active peer' \<and> w_trace w' = w_trace w @ [EClose (fd peer)])"
proof (cases "peer_active peer")
  case False
  then show ?thesis using assms by (simp add: vex_transport_unix_read_def)
next
  case act: True
  obtain res v where sr: "sys_read (fd peer) 2 w = (res, v)" by (cases "sys_read (fd peer) 2 w")
  have v: "w_trace v = w_trace w" using sr by (auto simp: sys_read_def split: prod.splits)
  show ?thesis
  proof (cases "\<exists>h. res = Data h \<and> length h = 2 \<and> unat (push_bit 8 (ucast (h ! 0)) OR ucast (h ! 1) :: u16) \<le> 512")
    case False
    then show ?thesis
      using act assms v
      by (auto simp: vex_transport_unix_read_def sr drop_peer_def sys_close_def Let_def split: read_result.splits)
  next
    case True
    then obtain h n where h: "res = Data h" "length h = 2" "unat (push_bit 8 (ucast (h ! 0)) OR ucast (h ! 1) :: u16) = n" "n \<le> 512"
      by blast
    obtain ok buf' w' where "read_loop (fd peer) buf 0 n v = Some (ok, buf', w')" "length buf' = 512"
      "w_trace w' = w_trace v"
      using read_loop_total [of 0 n buf "fd peer" v] h(4) assms by auto
    with h act v show ?thesis
      by (cases ok) (simp_all add: vex_transport_unix_read_def sr h(3) [unfolded One_nat_def] Let_def drop_peer_def sys_close_def)
  qed
qed

text \<open>Of the peer, a read changes its activity and its last contact only.\<close>

lemma unix_read_peer:
  assumes "vex_transport_unix_read peer buf n now w = Some (r, peer', buf', w')"
  shows "\<exists>a t. peer' = peer\<lparr>peer_active := a, last_seen := t\<rparr> \<and> (a \<longrightarrow> peer_active peer)"
proof -
  have "peer = peer\<lparr>peer_active := peer_active peer, last_seen := last_seen peer\<rparr>"
    "peer\<lparr>peer_active := False\<rparr> = peer\<lparr>peer_active := False, last_seen := last_seen peer\<rparr>"
    "peer\<lparr>last_seen := now\<rparr> = peer\<lparr>peer_active := peer_active peer, last_seen := now\<rparr>" by simp_all
  moreover have "peer' = peer \<or> peer' = peer\<lparr>peer_active := False\<rparr> \<or> peer' = peer\<lparr>last_seen := now\<rparr> \<and> peer_active peer"
    using assms
    by (auto simp: vex_transport_unix_read_def drop_peer_def Let_def
        split: if_splits prod.splits read_result.splits option.splits bool.splits)
  ultimately show ?thesis by (metis (full_types))
qed

text \<open>
  C30. Reading never leaves the buffer, returns -1, 0 or a length of at most 512, sends nothing,
  and closes the descriptor exactly when it deactivates the peer.
\<close>

theorem unix_read_total:
  assumes "length buf = VEX_MAX_PACKET"
  shows "\<exists>r peer' buf' w'. vex_transport_unix_read peer buf VEX_MAX_PACKET now w = Some (r, peer', buf', w') \<and>
           length buf' = VEX_MAX_PACKET \<and> (r = -1 \<or> 0 \<le> r \<and> r \<le> int VEX_MAX_PACKET) \<and> fd peer' = fd peer \<and>
           (peer_active peer' = peer_active peer \<and> w_trace w' = w_trace w \<or>
            r = -1 \<and> peer_active peer \<and> \<not> peer_active peer' \<and> w_trace w' = w_trace w @ [EClose (fd peer)])"
  by (rule unix_read_result [OF assms])

theorem unix_read_total_witness:
  "\<exists>r peer' buf' w'. vex_transport_unix_read one_peer (replicate 512 0) VEX_MAX_PACKET 9 (rx_world [Chunk [0, 2, 1], Again]) =
     Some (r, peer', buf', w') \<and> length buf' = VEX_MAX_PACKET"
  using unix_read_total [of "replicate 512 0" one_peer 9 "rx_world [Chunk [0, 2, 1], Again]"] by auto

text \<open>
  C36. Two inputs on which \<^verbatim>\<open>vex_transport_unix_read\<close> reports an error but keeps the connection
  open and active: a single byte of a header, which is consumed, and a length above 512, whose
  payload stays in the stream and is taken for the next header.
\<close>

theorem read_error_keeps_peer:
  assumes "peer_active peer"
    and "w_rx w (fd peer) = Chunk [x] # r \<or>
         (w_rx w (fd peer) = Chunk (frame_header n @ bs) # r \<and> bs \<noteq> [] \<and> 512 < n \<and> n < 65536)"
  shows "\<exists>w'. vex_transport_unix_read peer buf VEX_MAX_PACKET now w = Some (-1, peer, buf, w') \<and>
           w_trace w' = w_trace w \<and>
           w_rx w' (fd peer) = (if w_rx w (fd peer) = Chunk [x] # r then r else Chunk bs # r)"
  using assms(2)
proof
  assume "w_rx w (fd peer) = Chunk [x] # r"
  with assms(1) show ?thesis by (simp add: vex_transport_unix_read_def sys_read_def)
next
  assume *: "w_rx w (fd peer) = Chunk (frame_header n @ bs) # r \<and> bs \<noteq> [] \<and> 512 < n \<and> n < 65536"
  have h: "length (frame_header n) = 2" "frame_header n \<noteq> []" by (simp_all add: frame_header_def)
  have "sys_read (fd peer) 2 w = (Data (frame_header n), w\<lparr>w_rx := (w_rx w)(fd peer := Chunk bs # r)\<rparr>)"
    using * h by (simp add: sys_read_def)
  moreover have "frame_header n @ bs \<noteq> [x]" by (simp add: frame_header_def)
  ultimately show ?thesis using * assms(1) h frame_header_value [of n, unfolded One_nat_def]
    by (simp add: vex_transport_unix_read_def Let_def)
qed

theorem read_error_keeps_peer_witness:
  "\<exists>w'. vex_transport_unix_read one_peer [] VEX_MAX_PACKET 9 (rx_world [Chunk [0], Eof]) = Some (-1, one_peer, [], w') \<and>
     w_rx w' 4 = [Eof]"
  using read_error_keeps_peer [of one_peer "rx_world [Chunk [0], Eof]" 0 "[Eof]" 0 "[]" "[]" 9] by auto

text \<open>New connections.\<close>

lemma free_peer_Some:
  "free_peer ps = Some i \<Longrightarrow> i < length ps \<and> \<not> peer_active (ps ! i) \<and> (\<forall>j<i. peer_active (ps ! j))"
proof (induction ps arbitrary: i)
  case (Cons p ps)
  then show ?case by (cases i) (auto split: if_splits simp: less_Suc_eq_0_disj)
qed simp

lemma free_peer_None: "free_peer ps = None \<longleftrightarrow> (\<forall>p \<in> set ps. peer_active p)"
  by (induction ps) auto

lemma snprintf_to_Some:
  assumes "0 < n" and "length buf = n"
  shows "\<exists>t. snprintf_to buf n s = Some t \<and> length t = n \<and>
           (0 \<notin> set s \<longrightarrow> c_string t = take (n - 1) s)"
proof -
  define u where "u = take (n - 1) s"
  have u: "length u < n" using assms by (auto simp: u_def)
  have "snprintf_to buf n s = Some (u @ 0 # drop (length u + 1) buf)"
    unfolding snprintf_to_def Let_def u_def [symmetric] using assms(2) u by simp
  moreover have "length (u @ 0 # drop (length u + 1) buf) = n" using assms(2) u by simp
  moreover have "c_string (u @ 0 # drop (length u + 1) buf) = u" if "0 \<notin> set s"
    by (rule c_string_append_nul) (use that in \<open>auto simp: u_def dest: in_set_takeD\<close>)
  ultimately show ?thesis by (auto simp: u_def)
qed

text \<open>
  C31. An accepted connection takes the first free slot of the 32 and is counted; with no free
  slot the new descriptor is closed and the node stays as it was.
\<close>

theorem accept_outcome:
  assumes "node_shape node"
  shows "\<exists>r node' w'. vex_transport_unix_accept (Accepted d) now node w = Some (r, node', w') \<and>
    (if \<forall>p \<in> set (peers node). peer_active p
     then r = 0 \<and> node' = node \<and> w' = sys_close d w
     else r = 1 \<and> node_shape node' \<and> peer_count node' = peer_count node + 1 \<and> w_trace w' = w_trace w @ [ENonblock d] \<and>
          (\<exists>i < VEX_MAX_PEERS. \<not> peer_active (peers node ! i) \<and> (\<forall>j < i. peer_active (peers node ! j)) \<and>
             peer_active (peers node' ! i) \<and> fd (peers node' ! i) = d \<and> last_seen (peers node' ! i) = now \<and>
             (\<forall>j < VEX_MAX_PEERS. j \<noteq> i \<longrightarrow> peers node' ! j = peers node ! j)))"
proof -
  have len: "length (peers node) = VEX_MAX_PEERS" using assms by (simp add: node_shape_def)
  show ?thesis
  proof (cases "free_peer (peers node)")
    case None
    then have all: "\<forall>p \<in> set (peers node). peer_active p" by (simp only: free_peer_None)
    with None len show ?thesis by (simp add: vex_transport_unix_accept_def)
  next
    case (Some i)
    from free_peer_Some [OF this] len
    have i: "i < VEX_MAX_PEERS" "\<not> peer_active (peers node ! i)" "\<forall>j<i. peer_active (peers node ! j)" by auto
    with len have nth: "peers node ! i \<in> set (peers node)" by simp
    with i(2) have "\<not> (\<forall>p \<in> set (peers node). peer_active p)" by blast
    moreover obtain nm where nm: "snprintf_to (peer_name (peers node ! i)) 64 (str_bytes ''peer-'' @ int_digits d) = Some nm"
      "length nm = 64"
      using snprintf_to_Some [of 64 "peer_name (peers node ! i)"] nth assms by (auto simp: node_shape_def)
    ultimately show ?thesis
      using Some i len assms nth
      by (auto simp: vex_transport_unix_accept_def install_peer_def node_shape_def intro!: exI [of _ i]
          dest!: set_update_subset_insert [THEN subsetD])
  qed
qed

theorem accept_outcome_witness:
  "\<exists>node' w'. vex_transport_unix_accept (Accepted 7) 9 one_peer_node (rx_world []) = Some (1, node', w') \<and>
     peer_count node' = peer_count one_peer_node + 1"
proof -
  have "\<not> (\<forall>p \<in> set (peers one_peer_node). peer_active p)" by simp
  with accept_outcome [of one_peer_node 7 9 "rx_world []"] show ?thesis by (simp del: one_peer_simps(5)) blast
qed

end
