(* ===== verification/Vex_Mesh.thy ===== *)
theory Vex_Mesh
  imports Vex_Crypto Vex_Transport
begin

text \<open>
  \<^verbatim>\<open>src/mesh.c\<close>: initialising a node, sending, receiving and relaying packets. Results are
  \<^verbatim>\<open>None\<close> for an access outside a buffer, otherwise the code's \<^verbatim>\<open>int\<close>, the node and the world.
  Calls of \<^verbatim>\<open>time(NULL)\<close> and of the random source are arguments.
\<close>

section \<open>Initialisation\<close>

text \<open>\<open>home\<close> is the value of \<^verbatim>\<open>getenv("HOME")\<close>; the node's memory is zeroed first.\<close>

definition vex_mesh_init ::
  "bytes option \<Rightarrow> int \<Rightarrow> urandom \<Rightarrow> urandom \<Rightarrow> file_system \<Rightarrow> (int \<times> vex_node \<times> file_system) option" where
  "vex_mesh_init home now rnd1 rnd2 fs =
     (let node = zero_node;
          node = node\<lparr>default_ttl := VEX_DEFAULT_TTL, scan_interval := VEX_SCAN_INTERVAL, relay_enabled := True,
                      running := True, started_at := now, listen_fd := -1\<rparr>;
          node = node\<lparr>node_seen := vex_seen_init (node_seen node)\<rparr>;
          keypath = take 255 ((case home of Some h \<Rightarrow> c_string h | None \<Rightarrow> str_bytes ''/tmp'') @ str_bytes ''/.vexconnect'');
          (r, node) = vex_crypto_load_keys rnd1 node keypath fs;
          (node, fs) =
            (if r \<noteq> 0 then
               let (_, node) = vex_crypto_init rnd1 rnd2 node;
                   (_, fs) = vex_crypto_save_keys node keypath fs
               in (node, fs)
             else (node, fs))
      in if node_name node ! 0 = 0 then do {
           hex \<leftarrow> vex_hex (sign_pk node) 4 (replicate 9 0);
           nm \<leftarrow> snprintf_to (node_name node) 64 (str_bytes ''vex-'' @ c_string hex);
           Some (0, node\<lparr>node_name := nm\<rparr>, fs)
         }
         else Some (0, node, fs))"

section \<open>Sending\<close>

text \<open>\<open>rnd1\<close> serves the encryption nonce and \<open>rnd2\<close> the packet identifier.\<close>

definition vex_mesh_send ::
  "urandom \<Rightarrow> urandom \<Rightarrow> int \<Rightarrow> vex_node \<Rightarrow> bytes \<Rightarrow> world \<Rightarrow> (int \<times> vex_node \<times> world) option" where
  "vex_mesh_send rnd1 rnd2 now node message w =
     (let pkt = packet_local;
          wire = replicate VEX_MAX_PACKET 0;
          encrypted = replicate VEX_MAX_PAYLOAD 0;
          msg_len = length (c_string message)
      in if msg_len > VEX_MAX_PAYLOAD - 100 then Some (-1, node, w)
         else do {
           (r, encrypted, encrypted_len) \<leftarrow>
             vex_crypto_encrypt_broadcast rnd1 node message (of_nat msg_len) encrypted 0;
           if r \<noteq> 0 then Some (-1, node, w)
           else do {
             let pkt = pkt\<lparr>version := VEX_VERSION\<rparr>;
             let pkt = pkt\<lparr>ttl := default_ttl node\<rparr>;
             let pkt = pkt\<lparr>flags := VEX_FLAG_ENCRYPTED OR VEX_FLAG_BROADCAST\<rparr>;
             let pkt = pkt\<lparr>payload_len := encrypted_len\<rparr>;
             pl \<leftarrow> memcpy_at (payload pkt) 0 encrypted (unat encrypted_len);
             let pkt = pkt\<lparr>payload := pl\<rparr>;
             pid \<leftarrow> vex_packet_make_id rnd2 encrypted encrypted_len (packet_id pkt);
             let pkt = pkt\<lparr>packet_id := pid\<rparr>;
             let node = node\<lparr>node_seen := vex_seen_add now (node_seen node) (packet_id pkt)\<rparr>;
             (wire_len, wire) \<leftarrow> vex_packet_encode pkt wire VEX_MAX_PACKET;
             if wire_len < 0 then Some (-1, node, w)
             else do {
               let (sent, node, w) = vex_transport_send_to_all node wire (nat wire_len) (-1) w;
               let node = node\<lparr>packets_sent := packets_sent node + 1\<rparr>;
               Some (sent, node, w)
             }
           }
         })"

section \<open>Relaying and receiving\<close>

definition vex_mesh_relay :: "vex_node \<Rightarrow> bytes \<Rightarrow> nat \<Rightarrow> int \<Rightarrow> world \<Rightarrow> (int \<times> vex_node \<times> world) option" where
  "vex_mesh_relay node raw len source_fd w = do {
     (r, pkt) \<leftarrow> vex_packet_decode raw len packet_local;
     if r \<noteq> 0 then Some (-1, node, w)
     else if ttl pkt \<le> 1 then Some (0, node, w)
     else do {
       let pkt = pkt\<lparr>ttl := ttl pkt - 1\<rparr>;
       (wire_len, wire) \<leftarrow> vex_packet_encode pkt (replicate VEX_MAX_PACKET 0) VEX_MAX_PACKET;
       if wire_len < 0 then Some (-1, node, w)
       else do {
         let (relayed, node, w) = vex_transport_send_to_all node wire (nat wire_len) source_fd w;
         let node = node\<lparr>packets_relayed := packets_relayed node + 1\<rparr>;
         Some (relayed, node, w)
       }
     }
   }"

text \<open>Decrypting and printing: the text up to its first NUL, the TTL and the number of hops.\<close>

definition mesh_display :: "vex_node \<Rightarrow> vex_packet \<Rightarrow> world \<Rightarrow> world option" where
  "mesh_display node pkt w = do {
     (r, plaintext, plain_len) \<leftarrow>
       vex_crypto_decrypt_broadcast node (payload pkt) (payload_len pkt) (replicate VEX_MAX_PAYLOAD 0) 0;
     if r = 0 then do {
       plaintext \<leftarrow> set_at plaintext (unat plain_len) 0;
       Some (emit (EDisplay (c_string plaintext) (uint (ttl pkt)) (uint (default_ttl node) - uint (ttl pkt))) w)
     }
     else Some w
   }"

text \<open>\<open>now1\<close> is the time of the duplicate check and \<open>now2\<close> the time of the insertion.\<close>

definition vex_mesh_receive ::
  "int \<Rightarrow> int \<Rightarrow> vex_node \<Rightarrow> bytes \<Rightarrow> nat \<Rightarrow> int \<Rightarrow> world \<Rightarrow> (int \<times> vex_node \<times> world) option" where
  "vex_mesh_receive now1 now2 node raw len source_fd w = do {
     (r, pkt) \<leftarrow> vex_packet_decode raw len packet_local;
     if r \<noteq> 0 then Some (-1, node\<lparr>packets_dropped := packets_dropped node + 1\<rparr>, w)
     else if version pkt \<noteq> VEX_VERSION then Some (-1, node\<lparr>packets_dropped := packets_dropped node + 1\<rparr>, w)
     else do {
       let (dup, cache) = vex_seen_check now1 (node_seen node) (packet_id pkt);
       let node = node\<lparr>node_seen := cache\<rparr>;
       if dup \<noteq> 0 then Some (0, node\<lparr>packets_dropped := packets_dropped node + 1\<rparr>, w)
       else do {
         let node = node\<lparr>node_seen := vex_seen_add now2 (node_seen node) (packet_id pkt)\<rparr>;
         let node = node\<lparr>packets_received := packets_received node + 1\<rparr>;
         w \<leftarrow> (if flags pkt AND VEX_FLAG_ENCRYPTED \<noteq> 0 then mesh_display node pkt w else Some w);
         if relay_enabled node then vex_mesh_relay node raw len source_fd w
         else Some (0, node, w)
       }
     }
   }"

section \<open>Frames as byte strings\<close>

text \<open>What a received byte string says, by position.\<close>

definition valid_frame :: "bytes \<Rightarrow> nat \<Rightarrow> bool" where
  "valid_frame raw len \<longleftrightarrow> VEX_HEADER_SIZE \<le> len \<and> len \<le> VEX_MAX_PACKET \<and> len \<le> length raw \<and> raw ! 0 = VEX_VERSION"

definition frame_id :: "bytes \<Rightarrow> bytes" where
  "frame_id raw = take 8 (drop 1 raw)"

definition relay_frame :: "bytes \<Rightarrow> nat \<Rightarrow> bytes" where
  "relay_frame raw len = (take len raw)[9 := raw ! 9 - 1]"

lemma length_frame_id [simp]: "valid_frame raw len \<Longrightarrow> length (frame_id raw) = 8"
  by (auto simp: valid_frame_def frame_id_def)

lemma packet_wire_fields:
  assumes "packet_valid q"
  shows "packet_wire q ! 0 = version q" and "take 8 (drop 1 (packet_wire q)) = packet_id q"
    and "packet_wire q ! 9 = ttl q" and "packet_wire q ! 10 = flags q"
    and "drop 11 (packet_wire q) = take (unat (payload_len q)) (payload q)"
    and "packet_wire (q\<lparr>ttl := t\<rparr>) = (packet_wire q)[9 := t]"
proof -
  have len: "length (packet_id q) = 8" using assms by (simp add: packet_valid_def packet_shape_def)
  show "packet_wire q ! 0 = version q" by (simp add: packet_wire_def)
  show "take 8 (drop 1 (packet_wire q)) = packet_id q" using len by (simp add: packet_wire_def)
  show "packet_wire q ! 9 = ttl q" "packet_wire q ! 10 = flags q"
    using len by (simp_all add: packet_wire_def nth_append)
  show "drop 11 (packet_wire q) = take (unat (payload_len q)) (payload q)"
    using len by (simp add: packet_wire_def drop_Cons')
  show "packet_wire (q\<lparr>ttl := t\<rparr>) = (packet_wire q)[9 := t]"
    using len list_update_length [of "version q # packet_id q" "ttl q" "flags q # take (unat (payload_len q)) (payload q)" t]
    by (simp add: packet_wire_def)
qed

lemma decode_valid:
  assumes "valid_frame raw len"
  shows "\<exists>q. vex_packet_decode raw len packet_local = Some (0, q) \<and> packet_valid q \<and> version q = VEX_VERSION \<and>
             packet_wire q = take len raw \<and> packet_id q = frame_id raw \<and> ttl q = raw ! 9 \<and> flags q = raw ! 10 \<and>
             unat (payload_len q) = len - 11"
proof -
  have v: "11 \<le> len" "len \<le> 512" "len \<le> length raw" "raw ! 0 = 1"
    using assms by (simp_all add: valid_frame_def)
  then have m: "(len - 11) mod 65536 = len - 11" "len - 11 \<le> 501" by simp_all
  obtain q where q: "vex_packet_decode raw len packet_local = Some (0, q)" "packet_valid q"
    "packet_wire q = take len raw" "unat (payload_len q) = len - 11"
    using packet_decode_accept [of len raw packet_local] v m by auto
  have "take 8 (drop 1 (take len raw)) = frame_id raw" using v by (simp add: frame_id_def drop_take min_def)
  with packet_wire_fields(1-4) [OF q(2)] q v show ?thesis
    by (intro exI [of _ q]) (simp add: packet_valid_def)
qed

lemma decode_invalid:
  assumes "len \<le> length raw" and "len \<le> VEX_MAX_PACKET" and "\<not> valid_frame raw len"
  shows "\<exists>q. vex_packet_decode raw len packet_local = Some (-1, q)"
  using packet_decode_reject [of len raw packet_local] assms by (auto simp: valid_frame_def)

section \<open>Relaying\<close>

lemma send_loop_take: "send_loop ps data len x w = send_loop ps (take len data) len x w"
proof -
  have "vex_transport_send_to_peer p data len w = vex_transport_send_to_peer p (take len data) len w" for p w
    by (simp add: vex_transport_send_to_peer_def split: prod.split)
  then show ?thesis by (induction ps arbitrary: w) (simp_all split: prod.splits)
qed

lemma send_to_all_take:
  "vex_transport_send_to_all node data len x w = vex_transport_send_to_all node (take len data) len x w"
  by (simp add: vex_transport_send_to_all_def send_loop_take [of _ data])

lemma length_relay_frame [simp]: "valid_frame raw len \<Longrightarrow> length (relay_frame raw len) = len"
  by (simp add: relay_frame_def valid_frame_def)

text \<open>Relaying a valid frame, reduced to the transport.\<close>

lemma relay_valid:
  assumes "valid_frame raw len"
  shows "vex_mesh_relay node raw len source_fd w =
    (if raw ! 9 \<le> 1 then Some (0, node, w)
     else let (r, node', w') = vex_transport_send_to_all node (relay_frame raw len) len source_fd w
          in Some (r, node'\<lparr>packets_relayed := packets_relayed node' + 1\<rparr>, w'))"
proof -
  obtain q where q: "vex_packet_decode raw len packet_local = Some (0, q)" "packet_valid q"
    "packet_wire q = take len raw" "ttl q = raw ! 9" "unat (payload_len q) = len - 11"
    using decode_valid [OF assms] by blast
  have len: "11 \<le> len" "len \<le> 512" using assms by (simp_all add: valid_frame_def)
  let ?q = "q\<lparr>ttl := raw ! 9 - 1\<rparr>"
  have "packet_valid ?q" using q(2) by (simp add: packet_valid_def packet_shape_def)
  then have enc: "vex_packet_encode ?q (replicate 512 0) 512 =
      Some (int len, packet_wire ?q @ drop len (replicate 512 0))"
    using packet_encode_accept [of ?q 512 "replicate 512 0"] q(5) len by simp
  have wire: "packet_wire ?q = relay_frame raw len"
    using packet_wire_fields(6) [OF q(2)] q(3) by (simp add: relay_frame_def)
  have tk: "vex_transport_send_to_all node (relay_frame raw len @ drop len (replicate 512 0)) len source_fd w =
        vex_transport_send_to_all node (relay_frame raw len) len source_fd w"
    using send_to_all_take [of node "relay_frame raw len @ drop len (replicate 512 0)" len] assms by simp
  show ?thesis
    using q(1,4) enc by (simp add: vex_mesh_relay_def Let_def wire tk del: drop_replicate)
qed

lemma relay_invalid:
  assumes "len \<le> length raw" and "len \<le> VEX_MAX_PACKET" and "\<not> valid_frame raw len"
  shows "vex_mesh_relay node raw len source_fd w = Some (-1, node, w)"
  using decode_invalid [OF assms] by (auto simp: vex_mesh_relay_def)

section \<open>The node's invariant\<close>

definition node_inv :: "vex_node \<Rightarrow> bool" where
  "node_inv n \<longleftrightarrow> node_shape n \<and> seen_inv (node_seen n) \<and> peers_open n"

text \<open>Sending changes the peer table only, and only by deactivating peers.\<close>

lemma send_loop_frame:
  assumes "send_loop ps data len x w = (s, ps', w')"
  shows "list_all2 (\<lambda>p p'. p' = p \<or> p' = p\<lparr>peer_active := False\<rparr>) ps ps' \<and> w_rx w' = w_rx w"
proof -
  have wr: "w_rx v = w_rx w" if "sys_write d b w = (n, v)" for d b w n v
    using that by (auto simp: sys_write_def split: list.splits write_result.splits)
  have peer: "(p' = p \<or> p' = p\<lparr>peer_active := False\<rparr>) \<and> w_rx v = w_rx w"
    if "vex_transport_send_to_peer p data len w = (r, p', v)" for p p' r v w
    using that wr
    by (auto simp: vex_transport_send_to_peer_def drop_peer_def sys_close_def Let_def
        split: if_splits prod.splits)
  show ?thesis
    using assms
  proof (induction ps arbitrary: w s ps' w')
    case (Cons p ps)
    then show ?case
      by (auto split: if_splits prod.splits dest!: peer)
  qed simp
qed

lemma send_to_all_frame:
  assumes "vex_transport_send_to_all node data len x w = (s, node', w')"
  obtains ps where "node' = node\<lparr>peers := ps\<rparr>" and "w_rx w' = w_rx w"
    and "list_all2 (\<lambda>p p'. p' = p \<or> p' = p\<lparr>peer_active := False\<rparr>) (peers node) ps"
  using assms send_loop_frame [of "peers node" data len x w]
  by (auto simp: vex_transport_send_to_all_def split: prod.splits)

lemma node_inv_peers:
  assumes "node_inv node" and "list_all2 (\<lambda>p p'. p' = p \<or> p' = p\<lparr>peer_active := False\<rparr>) (peers node) ps"
  shows "node_inv (node\<lparr>peers := ps\<rparr>)"
proof -
  have "length ps = length (peers node)" using assms(2) by (simp add: list_all2_lengthD)
  moreover have "length (peer_name p) = 64 \<and> length (pubkey p) = 32 \<and> (peer_active p \<longrightarrow> 0 \<le> fd p)"
    if "p \<in> set ps" for p
  proof -
    obtain p0 where "p0 \<in> set (peers node)" "p = p0 \<or> p = p0\<lparr>peer_active := False\<rparr>"
      using list_all2_ex_left [OF assms(2) \<open>p \<in> set ps\<close>] by blast
    with assms(1) show ?thesis by (auto simp: node_inv_def node_shape_def peers_open_def)
  qed
  ultimately show ?thesis using assms(1) by (simp add: node_inv_def node_shape_def peers_open_def)
qed

lemma node_inv_simps [simp]:
  "node_inv (n\<lparr>packets_sent := a\<rparr>) = node_inv n"
  "node_inv (n\<lparr>packets_received := a\<rparr>) = node_inv n"
  "node_inv (n\<lparr>packets_relayed := a\<rparr>) = node_inv n"
  "node_inv (n\<lparr>packets_dropped := a\<rparr>) = node_inv n"
  "node_inv (n\<lparr>peer_count := c\<rparr>) = node_inv n"
  "node_inv (n\<lparr>running := b\<rparr>) = node_inv n"
  by (simp_all add: node_inv_def node_shape_def peers_open_def)

lemma node_inv_seen [vex_inv]: "node_inv n \<Longrightarrow> seen_inv c \<Longrightarrow> node_inv (n\<lparr>node_seen := c\<rparr>)"
  by (simp add: node_inv_def node_shape_def peers_open_def)

section \<open>Receiving\<close>

lemma display_total:
  assumes "packet_valid q"
  shows "\<exists>evs. mesh_display node q w = Some (w\<lparr>w_trace := w_trace w @ evs\<rparr>) \<and>
     (evs = [] \<or> (\<exists>t. evs = [EDisplay t (uint (ttl q)) (uint (default_ttl node) - uint (ttl q))]))"
proof -
  obtain r out n where d: "vex_crypto_decrypt_broadcast node (payload q) (payload_len q) (replicate 501 0) 0 = Some (r, out, n)"
    "length out = 501" "r = 0 \<and> unat n + 40 = unat (payload_len q) \<or> r = -1"
    using decrypt_broadcast_total [of "payload_len q" "payload q" "replicate 501 0" node 0] assms
    by (auto simp: packet_valid_def packet_shape_def)
  show ?thesis
  proof (cases "r = 0")
    case True
    with d(3) assms have "unat n < 501" by (auto simp: packet_valid_def)
    with True d show ?thesis
      by (intro exI [of _ "[EDisplay (c_string (out[unat n := 0])) (uint (ttl q)) (uint (default_ttl node) - uint (ttl q))]"])
         (simp add: mesh_display_def emit_def set_at_def)
  next
    case False
    with d show ?thesis by (intro exI [of _ "[]"]) (simp add: mesh_display_def)
  qed
qed

lemma check_frame:
  "snd (vex_seen_check now c i) = c\<lparr>entries := entries (snd (vex_seen_check now c i))\<rparr>"
  by (simp add: vex_seen_check_def case_prod_unfold Let_def)

lemma receive_invalid:
  assumes "len \<le> length raw" and "len \<le> VEX_MAX_PACKET" and "\<not> valid_frame raw len"
  shows "vex_mesh_receive now1 now2 node raw len source_fd w =
           Some (-1, node\<lparr>packets_dropped := packets_dropped node + 1\<rparr>, w)"
  using decode_invalid [OF assms] by (auto simp: vex_mesh_receive_def)

lemma receive_duplicate:
  assumes "node_inv node" and "valid_frame raw len" and "frame_id raw \<in> seen_ids (node_seen node) now1"
  shows "vex_mesh_receive now1 now2 node raw len source_fd w =
     Some (0, node\<lparr>node_seen := snd (vex_seen_check now1 (node_seen node) (frame_id raw)),
                   packets_dropped := packets_dropped node + 1\<rparr>, w)"
proof -
  obtain q where q: "vex_packet_decode raw len packet_local = Some (0, q)" "version q = VEX_VERSION"
    "packet_id q = frame_id raw" using decode_valid [OF assms(2)] by blast
  have "fst (vex_seen_check now1 (node_seen node) (frame_id raw)) = 1"
    using assms by (simp add: check_result seen_ids_def node_inv_def)
  then obtain c where "vex_seen_check now1 (node_seen node) (frame_id raw) = (1, c)"
    by (metis prod.collapse)
  with q show ?thesis by (simp add: vex_mesh_receive_def)
qed

text \<open>A new packet: the cache and the counter first, then the display, then the relay.\<close>

definition received_node :: "int \<Rightarrow> int \<Rightarrow> vex_node \<Rightarrow> bytes \<Rightarrow> vex_node" where
  "received_node now1 now2 node i =
     node\<lparr>node_seen := vex_seen_add now2 (snd (vex_seen_check now1 (node_seen node) i)) i,
          packets_received := packets_received node + 1\<rparr>"

lemma receive_fresh:
  assumes "node_inv node" and "valid_frame raw len" and "frame_id raw \<notin> seen_ids (node_seen node) now1"
    and "vex_packet_decode raw len packet_local = Some (0, q)"
  shows "vex_mesh_receive now1 now2 node raw len source_fd w =
     (let node' = received_node now1 now2 node (frame_id raw) in
      Option.bind (if flags q AND VEX_FLAG_ENCRYPTED \<noteq> 0 then mesh_display node' q w else Some w)
        (\<lambda>w. if relay_enabled node then vex_mesh_relay node' raw len source_fd w else Some (0, node', w)))"
proof -
  have q: "version q = VEX_VERSION" "packet_id q = frame_id raw"
    using decode_valid [OF assms(2)] assms(4) by auto
  have "fst (vex_seen_check now1 (node_seen node) (frame_id raw)) = 0"
    using assms by (simp add: check_result seen_ids_def node_inv_def)
  then obtain c where "vex_seen_check now1 (node_seen node) (frame_id raw) = (0, c)"
    by (metis prod.collapse)
  with assms(4) q show ?thesis by (simp add: vex_mesh_receive_def received_node_def Let_def)
qed

lemma received_node_inv [vex_inv]:
  assumes "node_inv node" and "length i = 8"
  shows "node_inv (received_node now1 now2 node i)"
  unfolding received_node_def
  by (simp, rule node_inv_seen [OF assms(1)], rule seen_inv_add [OF seen_inv_check])
     (use assms in \<open>simp_all add: node_inv_def\<close>)

lemma received_node_simps [simp]:
  "mesh_key (received_node now1 now2 node i) = mesh_key node"
  "default_ttl (received_node now1 now2 node i) = default_ttl node"
  "peers (received_node now1 now2 node i) = peers node"
  "peer_count (received_node now1 now2 node i) = peer_count node"
  "targets (received_node now1 now2 node i) x = targets node x"
  "packets_relayed (received_node now1 now2 node i) = packets_relayed node"
  by (simp_all add: received_node_def targets_def)

text \<open>So the step from an accepted frame to the relay always has the same shape.\<close>

lemma receive_fresh_steps:
  assumes "node_inv node" and "valid_frame raw len" and "frame_id raw \<notin> seen_ids (node_seen node) now1"
  shows "\<exists>evs. vex_mesh_receive now1 now2 node raw len source_fd w =
      (let node' = received_node now1 now2 node (frame_id raw); w' = w\<lparr>w_trace := w_trace w @ evs\<rparr> in
       if relay_enabled node then vex_mesh_relay node' raw len source_fd w' else Some (0, node', w')) \<and>
     (evs = [] \<or> (\<exists>t. evs = [EDisplay t (uint (raw ! 9)) (uint (default_ttl node) - uint (raw ! 9))]))"
proof -
  obtain q where q: "vex_packet_decode raw len packet_local = Some (0, q)" "packet_valid q" "ttl q = raw ! 9"
    using decode_valid [OF assms(2)] by blast
  obtain evs where evs: "mesh_display (received_node now1 now2 node (frame_id raw)) q w =
      Some (w\<lparr>w_trace := w_trace w @ evs\<rparr>)"
    "evs = [] \<or> (\<exists>t. evs = [EDisplay t (uint (raw ! 9)) (uint (default_ttl node) - uint (raw ! 9))])"
    using display_total [OF q(2)] q(3) by fastforce
  show ?thesis
  proof (cases "flags q AND VEX_FLAG_ENCRYPTED \<noteq> 0")
    case True
    with evs show ?thesis
      by (intro exI [of _ evs]) (simp add: receive_fresh [OF assms q(1)] Let_def)
  next
    case False
    then show ?thesis
      by (intro exI [of _ "[]"]) (simp add: receive_fresh [OF assms q(1)] Let_def)
  qed
qed

lemma relay_total:
  assumes "node_inv node" and "valid_frame raw len"
  shows "\<exists>r node' w'. vex_mesh_relay node raw len source_fd w = Some (r, node', w') \<and> node_inv node' \<and>
           node_seen node' = node_seen node"
proof (cases "raw ! 9 \<le> 1")
  case True
  then show ?thesis using assms by (simp add: relay_valid)
next
  case False
  obtain r n v where st: "vex_transport_send_to_all node (relay_frame raw len) len source_fd w = (r, n, v)"
    by (metis prod_cases3)
  obtain ps where n: "n = node\<lparr>peers := ps\<rparr>"
    and ps: "list_all2 (\<lambda>p p'. p' = p \<or> p' = p\<lparr>peer_active := False\<rparr>) (peers node) ps"
    by (rule send_to_all_frame [OF st])
  have "node_inv n" unfolding n by (rule node_inv_peers [OF assms(1) ps])
  then have "node_inv (n\<lparr>packets_relayed := packets_relayed n + 1\<rparr>)" by simp
  moreover have "vex_mesh_relay node raw len source_fd w = Some (r, n\<lparr>packets_relayed := packets_relayed n + 1\<rparr>, v)"
    using False st by (simp only: relay_valid [OF assms(2)] if_False Let_def prod.case)
  ultimately show ?thesis by (auto simp: n)
qed

text \<open>Which peers a relay may write to, whatever the writes do.\<close>

definition writes_of :: "sys_event list \<Rightarrow> int set" where
  "writes_of evs = {d. \<exists>bs. EWrite d bs \<in> set evs}"

lemma send_to_all_writes:
  assumes "peers_open node" and "data \<noteq> []"
    and "vex_transport_send_to_all node data (length data) x w = (sent, node', w')"
  shows "\<exists>evs. w_trace w' = w_trace w @ evs \<and> writes_of evs \<subseteq> set (targets node x) \<and>
           (\<forall>t a b. EDisplay t a b \<notin> set evs)"
proof -
  obtain s ps v where 1: "send_loop (peers node) data (length data) x w = (s, ps, v)" by (metis prod_cases3)
  with assms(3) have w': "w' = v" by (simp add: vex_transport_send_to_all_def)
  obtain evss where e: "length evss = length (peers node)" "w_trace w' = w_trace w @ concat evss"
    "\<forall>i < length (peers node).
       if is_target x (peers node ! i) then peer_outcome data (peers node ! i) (ps ! i) (evss ! i)
       else ps ! i = peers node ! i \<and> evss ! i = []"
    using send_loop_outcome [OF _ assms(2) 1] assms(1) w' by (auto simp: peers_open_def)
  have "(\<exists>d bs. e = EWrite d bs \<and> d \<in> set (targets node x)) \<or> (\<exists>d. e = EClose d)" if "e \<in> set (concat evss)" for e
  proof -
    obtain i where i: "i < length (peers node)" "e \<in> set (evss ! i)"
      using \<open>e \<in> set (concat evss)\<close> e(1) by (auto simp: in_set_conv_nth [of _ evss])
    then have t: "is_target x (peers node ! i)" "peer_outcome data (peers node ! i) (ps ! i) (evss ! i)"
      using e(3) by (auto split: if_splits)
    then have "fd (peers node ! i) \<in> set (targets node x)" using i(1) by (auto simp: targets_def)
    with t(2) i(2) show ?thesis by (auto simp: peer_outcome_def frame_events_def)
  qed
  with e(2) show ?thesis by (force simp: writes_of_def)
qed

section \<open>Every outcome of receiving\<close>

text \<open>The part of a node that traffic does not change: keys, name and settings.\<close>

definition node_fixed :: "vex_node \<Rightarrow> vex_node" where
  "node_fixed n = n\<lparr>peers := [], node_seen := node_seen zero_node, packets_sent := 0, packets_received := 0,
                    packets_relayed := 0, packets_dropped := 0\<rparr>"

lemma node_fixed_simps [simp]:
  "node_fixed (n\<lparr>peers := ps\<rparr>) = node_fixed n"
  "node_fixed (n\<lparr>node_seen := c\<rparr>) = node_fixed n"
  "node_fixed (n\<lparr>packets_sent := a\<rparr>) = node_fixed n"
  "node_fixed (n\<lparr>packets_received := a\<rparr>) = node_fixed n"
  "node_fixed (n\<lparr>packets_relayed := a\<rparr>) = node_fixed n"
  "node_fixed (n\<lparr>packets_dropped := a\<rparr>) = node_fixed n"
  by (simp_all add: node_fixed_def)

lemma node_fixed_received [simp]: "node_fixed (received_node now1 now2 node i) = node_fixed node"
  by (simp add: received_node_def)

lemma node_fixed_fields:
  assumes "node_fixed a = node_fixed b"
  shows "mesh_key a = mesh_key b" "default_ttl a = default_ttl b" "relay_enabled a = relay_enabled b"
    "running a = running b" "listen_fd a = listen_fd b" "peer_count a = peer_count b" "node_name a = node_name b"
  using arg_cong [OF assms, of mesh_key] arg_cong [OF assms, of default_ttl] arg_cong [OF assms, of relay_enabled]
    arg_cong [OF assms, of running] arg_cong [OF assms, of listen_fd] arg_cong [OF assms, of peer_count]
    arg_cong [OF assms, of node_name]
  by (simp_all add: node_fixed_def)

text \<open>
  What sending to all peers may do to node and world: deactivate peers and write to the targets,
  nothing else. Relaying and receiving are described on top of it.
\<close>

definition sends_only :: "int set \<Rightarrow> vex_node \<Rightarrow> world \<Rightarrow> vex_node \<Rightarrow> world \<Rightarrow> bool" where
  "sends_only ds node w node' w' \<longleftrightarrow> node_inv node' \<and> node_fixed node' = node_fixed node \<and> w_rx w' = w_rx w \<and>
     list_all2 (\<lambda>p p'. p' = p \<or> p' = p\<lparr>peer_active := False\<rparr>) (peers node) (peers node') \<and>
     (\<exists>evs. w_trace w' = w_trace w @ evs \<and> writes_of evs \<subseteq> ds)"

lemma send_to_all_only:
  assumes "node_inv node" and "data \<noteq> []"
    and "vex_transport_send_to_all node data (length data) x w = (sent, node', w')"
  shows "sends_only (set (targets node x)) node w node' w' \<and> node_seen node' = node_seen node \<and>
         packets_sent node' = packets_sent node \<and> packets_received node' = packets_received node \<and>
         packets_relayed node' = packets_relayed node \<and> packets_dropped node' = packets_dropped node \<and>
         (\<exists>evs. w_trace w' = w_trace w @ evs \<and> (\<forall>t a b. EDisplay t a b \<notin> set evs))"
proof -
  obtain ps where n: "node' = node\<lparr>peers := ps\<rparr>" "w_rx w' = w_rx w"
    and ps: "list_all2 (\<lambda>p p'. p' = p \<or> p' = p\<lparr>peer_active := False\<rparr>) (peers node) ps"
    using assms(3) by (rule send_to_all_frame)
  have "node_inv node'" unfolding n(1) by (rule node_inv_peers [OF assms(1) ps])
  moreover have "peers_open node" using assms(1) by (simp add: node_inv_def)
  from send_to_all_writes [OF this assms(2,3)]
  obtain evs where "w_trace w' = w_trace w @ evs" "writes_of evs \<subseteq> set (targets node x)" "\<forall>t a b. EDisplay t a b \<notin> set evs"
    by blast
  ultimately show ?thesis using n ps by (auto simp: sends_only_def)
qed

section \<open>Sending: the frame\<close>

text \<open>The frame \<^verbatim>\<open>vex_mesh_send\<close> puts on the wire.\<close>

definition sent_payload :: "urandom \<Rightarrow> vex_node \<Rightarrow> bytes \<Rightarrow> bytes" where
  "sent_payload rnd1 node message =
     sealed_message (randombytes rnd1 (replicate 24 0) 24) (mesh_key node) (c_string message)"

definition sent_id :: "urandom \<Rightarrow> urandom \<Rightarrow> vex_node \<Rightarrow> bytes \<Rightarrow> bytes" where
  "sent_id rnd1 rnd2 node message = message_id rnd2 (sent_payload rnd1 node message)"

definition sent_frame :: "urandom \<Rightarrow> urandom \<Rightarrow> vex_node \<Rightarrow> bytes \<Rightarrow> bytes" where
  "sent_frame rnd1 rnd2 node message =
     VEX_VERSION # sent_id rnd1 rnd2 node message @
     [default_ttl node, VEX_FLAG_ENCRYPTED OR VEX_FLAG_BROADCAST] @ sent_payload rnd1 node message"

lemma length_sent_payload:
  "length (c_string m) \<le> 401 \<Longrightarrow> length (sent_payload rnd1 node m) = 40 + length (c_string m)"
  by (simp add: sent_payload_def length_sealed_message)

lemma length_sent_frame:
  "length (c_string m) \<le> 401 \<Longrightarrow> length (sent_frame rnd1 rnd2 node m) = 51 + length (c_string m)"
  by (simp add: sent_frame_def sent_id_def length_sent_payload)

lemma valid_sent_frame:
  assumes "length (c_string m) \<le> 401"
  shows "valid_frame (sent_frame rnd1 rnd2 node m) (length (sent_frame rnd1 rnd2 node m))"
  using assms by (simp add: valid_frame_def length_sent_frame) (simp add: sent_frame_def)

lemma frame_id_sent_frame [simp]: "frame_id (sent_frame rnd1 rnd2 node m) = sent_id rnd1 rnd2 node m"
  by (simp add: frame_id_def sent_frame_def sent_id_def)

lemma mesh_send_frame:
  assumes "length (c_string message) \<le> 401"
  shows "vex_mesh_send rnd1 rnd2 now node message w =
     (let n = node\<lparr>node_seen := vex_seen_add now (node_seen node) (sent_id rnd1 rnd2 node message)\<rparr>;
          frame = sent_frame rnd1 rnd2 node message;
          (sent, n, w) = vex_transport_send_to_all n frame (length frame) (-1) w
      in Some (sent, n\<lparr>packets_sent := packets_sent n + 1\<rparr>, w))"
proof -
  let ?m = "c_string message" and ?pl = "sent_payload rnd1 node message"
  let ?pid = "sent_id rnd1 rnd2 node message" and ?f = "sent_frame rnd1 rnd2 node message"
  define n where "n = 40 + length ?m"
  define cl where "cl = (of_nat n :: u16)"
  define buf where "buf = ?pl @ replicate (461 - length ?m) (0 :: u8)"
  have n: "n \<le> 441" "length ?m = n - 40" using assms by (simp_all add: n_def)
  have cl: "unat cl = n" using n by (simp add: cl_def unat_of_nat)
  have ml: "unat (of_nat (length ?m) :: u16) = length ?m" using assms by (simp add: unat_of_nat)
  have pl: "length ?pl = n" using assms by (simp add: length_sent_payload n_def)
  have buf: "length buf = 501" "take n buf = ?pl"
    using assms pl by (simp_all add: buf_def n_def)
  have tk: "take (length ?m) message = ?m" by (simp add: c_string_def takeWhile_eq_take [symmetric])
  have enc: "vex_crypto_encrypt_broadcast rnd1 node message (of_nat (length ?m)) (replicate 501 0) 0 = Some (0, buf, cl)"
    using encrypt_broadcast_result [of "of_nat (length ?m)" message "replicate 501 0" rnd1 node 0] assms ml
      length_c_string_le [of message] by (simp add: tk sent_payload_def buf_def cl_def n_def)
  have cp: "memcpy_at (replicate 501 0) 0 buf n = Some (?pl @ drop n (replicate 501 0))"
    using n buf by simp
  have pid: "vex_packet_make_id rnd2 buf cl (replicate 8 0) = Some ?pid"
    using make_id_result [of cl buf "replicate 8 0" rnd2] n buf cl by (simp add: sent_id_def)
  let ?q = "\<lparr>version = 1, packet_id = ?pid, ttl = default_ttl node,
              flags = VEX_FLAG_ENCRYPTED OR VEX_FLAG_BROADCAST, payload = ?pl @ drop n (replicate 501 0),
              payload_len = cl\<rparr>"
  have "packet_valid ?q" using n cl pl by (simp add: packet_valid_def packet_shape_def sent_id_def)
  from packet_encode_accept [OF this, of 512 "replicate 512 0"]
  have encd: "vex_packet_encode ?q (replicate 512 0) 512 = Some (int (11 + n), ?f @ drop (11 + n) (replicate 512 0))"
    using n cl pl by (simp add: packet_wire_def sent_frame_def)
  have fl: "length ?f = 11 + n" using assms by (simp add: length_sent_frame n_def)
  have tka: "vex_transport_send_to_all nd (?f @ drop (11 + n) (replicate 512 0)) (11 + n) (-1) v =
             vex_transport_send_to_all nd ?f (length ?f) (-1) v" for nd v
    by (subst send_to_all_take) (simp add: fl)
  have ni: "nat (int (11 + n)) = 11 + n" "\<not> int (11 + n) < 0" by simp_all
  show ?thesis
    using assms
    by (simp add: vex_mesh_send_def Let_def packet_local_def enc cl cp pid encd ni tka
        del: memcpy_at_Some drop_replicate of_nat_add nat_int_add)
qed

lemma mesh_send_too_long:
  "401 < length (c_string message) \<Longrightarrow> vex_mesh_send rnd1 rnd2 now node message w = Some (-1, node, w)"
  by (simp add: vex_mesh_send_def Let_def)

text \<open>The effect of a send, a relay and a receive on node and world.\<close>

lemma sends_only_refl: "node_inv node \<Longrightarrow> sends_only ds node w node w"
  by (auto simp: sends_only_def writes_of_def list_all2_refl)

lemma sends_only_node:
  assumes "sends_only ds node w node' w'" and "node_inv node''" and "node_fixed node'' = node_fixed node'"
    and "peers node'' = peers node'"
  shows "sends_only ds node w node'' w'"
  using assms by (simp add: sends_only_def)

lemma sends_only_from:
  assumes "sends_only ds node1 w1 node' w'" and "node_fixed node1 = node_fixed node" and "peers node1 = peers node"
    and "w1 = w\<lparr>w_trace := w_trace w @ evs\<rparr>" and "writes_of evs = {}"
  shows "sends_only ds node w node' w'"
proof -
  obtain evs' where "w_trace w' = w_trace w1 @ evs'" "writes_of evs' \<subseteq> ds" using assms(1) by (auto simp: sends_only_def)
  then have "w_trace w' = w_trace w @ evs @ evs'" "writes_of (evs @ evs') \<subseteq> ds"
    using assms(4,5) by (auto simp: writes_of_def)
  with assms show ?thesis unfolding sends_only_def by auto
qed

lemma mesh_send_outcome:
  assumes "node_inv node"
  shows "\<exists>r node' w'. vex_mesh_send rnd1 rnd2 now node message w = Some (r, node', w') \<and>
           sends_only (set (targets node (-1))) node w node' w' \<and>
           (\<exists>evs. w_trace w' = w_trace w @ evs \<and> (\<forall>t a b. EDisplay t a b \<notin> set evs)) \<and>
           node_seen node' = (if length (c_string message) \<le> 401
             then vex_seen_add now (node_seen node) (sent_id rnd1 rnd2 node message) else node_seen node)"
proof (cases "length (c_string message) \<le> 401")
  case False
  then show ?thesis using assms by (simp add: mesh_send_too_long sends_only_refl)
next
  case True
  let ?f = "sent_frame rnd1 rnd2 node message"
  define n where "n = node\<lparr>node_seen := vex_seen_add now (node_seen node) (sent_id rnd1 rnd2 node message)\<rparr>"
  have inv: "node_inv n" unfolding n_def
    by (rule node_inv_seen [OF assms seen_inv_add]) (use assms in \<open>simp_all add: node_inv_def sent_id_def\<close>)
  obtain r n' w' where st: "vex_transport_send_to_all n ?f (length ?f) (-1) w = (r, n', w')" by (metis prod_cases3)
  have "?f \<noteq> []" by (simp add: sent_frame_def)
  from send_to_all_only [OF inv this st]
  have o: "sends_only (set (targets n (-1))) n w n' w'" "node_seen n' = node_seen n"
    "\<exists>evs. w_trace w' = w_trace w @ evs \<and> (\<forall>t a b. EDisplay t a b \<notin> set evs)" by blast+
  have "vex_mesh_send rnd1 rnd2 now node message w = Some (r, n'\<lparr>packets_sent := packets_sent n' + 1\<rparr>, w')"
    by (simp add: mesh_send_frame [OF True] Let_def n_def [symmetric] st)
  moreover have "sends_only (set (targets node (-1))) node w (n'\<lparr>packets_sent := packets_sent n' + 1\<rparr>) w'"
    using o(1) by (simp add: sends_only_def n_def targets_def)
  ultimately show ?thesis using o True by (simp add: n_def)
qed

lemma relay_outcome:
  assumes "node_inv node" and "valid_frame raw len"
  shows "\<exists>r node' w'. vex_mesh_relay node raw len source_fd w = Some (r, node', w') \<and>
           sends_only (if raw ! 9 \<le> 1 then {} else set (targets node source_fd)) node w node' w' \<and>
           (\<exists>evs. w_trace w' = w_trace w @ evs \<and> (\<forall>t a b. EDisplay t a b \<notin> set evs)) \<and>
           node_seen node' = node_seen node \<and> packets_sent node' = packets_sent node \<and>
           packets_received node' = packets_received node \<and> packets_dropped node' = packets_dropped node \<and>
           packets_relayed node' = packets_relayed node + (if raw ! 9 \<le> 1 then 0 else 1)"
proof (cases "raw ! 9 \<le> 1")
  case True
  then show ?thesis using assms by (simp add: relay_valid sends_only_refl)
next
  case False
  have len: "length (relay_frame raw len) = len" "relay_frame raw len \<noteq> []"
    using assms(2) by (auto simp: relay_frame_def valid_frame_def)
  obtain r n w' where st: "vex_transport_send_to_all node (relay_frame raw len) len source_fd w = (r, n, w')"
    by (metis prod_cases3)
  from send_to_all_only [OF assms(1) len(2)] st len(1)
  have o: "sends_only (set (targets node source_fd)) node w n w'" "node_seen n = node_seen node"
    "packets_sent n = packets_sent node" "packets_received n = packets_received node"
    "packets_dropped n = packets_dropped node" "packets_relayed n = packets_relayed node"
    "\<exists>evs. w_trace w' = w_trace w @ evs \<and> (\<forall>t a b. EDisplay t a b \<notin> set evs)" by metis+
  have "vex_mesh_relay node raw len source_fd w = Some (r, n\<lparr>packets_relayed := packets_relayed n + 1\<rparr>, w')"
    using False st by (simp only: relay_valid [OF assms(2)] if_False Let_def prod.case)
  moreover have "sends_only (set (targets node source_fd)) node w (n\<lparr>packets_relayed := packets_relayed n + 1\<rparr>) w'"
    using o(1) by (simp add: sends_only_def)
  ultimately show ?thesis using o False by simp
qed

lemma received_node_counters [simp]:
  "packets_sent (received_node now1 now2 node i) = packets_sent node"
  "packets_received (received_node now1 now2 node i) = packets_received node + 1"
  "packets_dropped (received_node now1 now2 node i) = packets_dropped node"
  "relay_enabled (received_node now1 now2 node i) = relay_enabled node"
  "node_seen (received_node now1 now2 node i) =
     vex_seen_add now2 (snd (vex_seen_check now1 (node_seen node) i)) i"
  by (simp_all add: received_node_def)

text \<open>The operations on the cache, by what the frame is.\<close>

definition receive_ops :: "int \<Rightarrow> int \<Rightarrow> seen_cache \<Rightarrow> bytes \<Rightarrow> nat \<Rightarrow> bytes dedup_op list" where
  "receive_ops now1 now2 c raw len =
     (if \<not> valid_frame raw len then []
      else if frame_id raw \<in> seen_ids c now1 then [Check now1 (frame_id raw)]
      else [Check now1 (frame_id raw), Add now2 (frame_id raw)])"

text \<open>Whether a frame will be passed on.\<close>

definition will_relay :: "vex_node \<Rightarrow> int \<Rightarrow> bytes \<Rightarrow> nat \<Rightarrow> bool" where
  "will_relay node now raw len \<longleftrightarrow>
     valid_frame raw len \<and> frame_id raw \<notin> seen_ids (node_seen node) now \<and> relay_enabled node \<and> 1 < raw ! 9"

lemma receive_outcome:
  assumes "node_inv node" and "len \<le> length raw" and "len \<le> VEX_MAX_PACKET"
  shows "\<exists>r node' w'. vex_mesh_receive now1 now2 node raw len source_fd w = Some (r, node', w') \<and>
           sends_only (if will_relay node now1 raw len then set (targets node source_fd) else {}) node w node' w' \<and>
           node_seen node' = fold seen.step (receive_ops now1 now2 (node_seen node) raw len) (node_seen node) \<and>
           packets_sent node' = packets_sent node \<and>
           (if valid_frame raw len \<and> frame_id raw \<notin> seen_ids (node_seen node) now1
            then packets_received node' = packets_received node + 1 \<and> packets_dropped node' = packets_dropped node
            else packets_received node' = packets_received node \<and> packets_dropped node' = packets_dropped node + 1)"
    (is "\<exists>r node' w'. ?P r node' w'")
proof -
  consider (bad) "\<not> valid_frame raw len"
    | (dup) "valid_frame raw len" "frame_id raw \<in> seen_ids (node_seen node) now1"
    | (new) "valid_frame raw len" "frame_id raw \<notin> seen_ids (node_seen node) now1" by blast
  then show ?thesis
  proof cases
    case bad
    have "sends_only {} node w (node\<lparr>packets_dropped := packets_dropped node + 1\<rparr>) w"
      by (rule sends_only_node [OF sends_only_refl [OF assms(1)]]) (simp_all add: assms(1))
    with bad show ?thesis
      by (simp add: receive_invalid [OF assms(2,3) bad] will_relay_def receive_ops_def)
  next
    case dup
    let ?n = "node\<lparr>node_seen := snd (vex_seen_check now1 (node_seen node) (frame_id raw)),
                   packets_dropped := packets_dropped node + 1\<rparr>"
    have "node_inv (node\<lparr>node_seen := snd (vex_seen_check now1 (node_seen node) (frame_id raw))\<rparr>)"
      by (rule node_inv_seen [OF assms(1) seen_inv_check]) (use assms(1) in \<open>simp add: node_inv_def\<close>)
    then have "sends_only {} node w ?n w"
      by (intro sends_only_node [OF sends_only_refl [OF assms(1)]]) simp_all
    with dup show ?thesis
      by (simp add: receive_duplicate [OF assms(1) dup] will_relay_def receive_ops_def)
  next
    case new
    let ?n = "received_node now1 now2 node (frame_id raw)"
    have inv: "node_inv ?n" by (rule received_node_inv [OF assms(1) length_frame_id [OF new(1)]])
    obtain evs where rcv: "vex_mesh_receive now1 now2 node raw len source_fd w =
        (let w1 = w\<lparr>w_trace := w_trace w @ evs\<rparr> in
         if relay_enabled node then vex_mesh_relay ?n raw len source_fd w1 else Some (0, ?n, w1))"
      and evs: "writes_of evs = {}"
      using receive_fresh_steps [OF assms(1) new, of now2 source_fd w] by (auto simp: Let_def writes_of_def)
    define w1 where "w1 = w\<lparr>w_trace := w_trace w @ evs\<rparr>"
    note keep = sends_only_from [OF _ node_fixed_received received_node_simps(3) w1_def evs]
    show ?thesis
    proof (cases "relay_enabled node")
      case False
      with rcv have "vex_mesh_receive now1 now2 node raw len source_fd w = Some (0, ?n, w1)" by (simp add: w1_def)
      moreover have "sends_only {} node w ?n w1" by (rule keep [OF sends_only_refl [OF inv]])
      ultimately show ?thesis using new False by (simp add: will_relay_def receive_ops_def)
    next
      case True
      with rcv have eq: "vex_mesh_receive now1 now2 node raw len source_fd w = vex_mesh_relay ?n raw len source_fd w1"
        by (simp add: w1_def)
      obtain r n' w' where o: "vex_mesh_relay ?n raw len source_fd w1 = Some (r, n', w')"
        "sends_only (if raw ! 9 \<le> 1 then {} else set (targets ?n source_fd)) ?n w1 n' w'"
        "node_seen n' = node_seen ?n" "packets_sent n' = packets_sent ?n" "packets_received n' = packets_received ?n"
        "packets_dropped n' = packets_dropped ?n"
        using relay_outcome [OF inv new(1), of source_fd w1] by blast
      have "?P r n' w'"
        using new True eq o keep [OF o(2)]
        by (cases "raw ! 9 \<le> 1") (simp_all add: will_relay_def receive_ops_def not_le [symmetric, where 'a = "8 word"])
      then show ?thesis by blast
    qed
  qed
qed

lemma receive_inv:
  assumes "node_inv node" and "len \<le> length raw" and "len \<le> VEX_MAX_PACKET"
  obtains r node' w' where "vex_mesh_receive now1 now2 node raw len source_fd w = Some (r, node', w')"
    and "node_inv node'" and "node_fixed node' = node_fixed node"
  using receive_outcome [OF assms, of now1 now2 source_fd w] unfolding sends_only_def by blast

lemma send_inv:
  assumes "node_inv node"
  obtains r node' w' where "vex_mesh_send rnd1 rnd2 now node message w = Some (r, node', w')"
    and "node_inv node'" and "node_fixed node' = node_fixed node"
  using mesh_send_outcome [OF assms, of rnd1 rnd2 now message w] unfolding sends_only_def by blast

lemma receive_take:
  assumes "len \<le> length raw"
  shows "vex_mesh_receive now1 now2 node raw len src w = vex_mesh_receive now1 now2 node (take len raw) len src w"
proof -
  note d = packet_decode_take [OF assms, of packet_local]
  have rel: "vex_mesh_relay n (take len raw) len src v = vex_mesh_relay n raw len src v" for n v
    unfolding vex_mesh_relay_def d [symmetric] ..
  show ?thesis unfolding vex_mesh_receive_def d [symmetric] rel ..
qed

section \<open>Runs\<close>

text \<open>
  A node's life as a sequence of calls: frames received from a descriptor, messages sent, and
  prunings of the cache. Every call brings its own clock and random source.
\<close>

datatype mesh_op =
    Receive int int bytes int
  | Send urandom urandom int bytes
  | Prune_cache int

fun mesh_step :: "mesh_op \<Rightarrow> vex_node \<times> world \<Rightarrow> (vex_node \<times> world) option" where
  "mesh_step (Receive now1 now2 raw src) (node, w) = map_option snd (vex_mesh_receive now1 now2 node raw (length raw) src w)"
| "mesh_step (Send rnd1 rnd2 now message) (node, w) = map_option snd (vex_mesh_send rnd1 rnd2 now node message w)"
| "mesh_step (Prune_cache now) (node, w) = Some (node\<lparr>node_seen := vex_seen_prune now (node_seen node)\<rparr>, w)"

primrec mesh_run :: "mesh_op list \<Rightarrow> vex_node \<times> world \<Rightarrow> (vex_node \<times> world) option" where
  "mesh_run [] s = Some s"
| "mesh_run (x # xs) s = Option.bind (mesh_step x s) (mesh_run xs)"

text \<open>The operations that happen until time \<open>t\<close>, with frames that fit the receive buffer.\<close>

primrec op_until :: "int \<Rightarrow> mesh_op \<Rightarrow> bool" where
  "op_until t (Receive now1 now2 raw src) \<longleftrightarrow> now1 \<le> t \<and> now2 \<le> t \<and> length raw \<le> VEX_MAX_PACKET"
| "op_until t (Send rnd1 rnd2 now message) \<longleftrightarrow> now \<le> t"
| "op_until t (Prune_cache now) \<longleftrightarrow> now \<le> t"

definition ops_fit :: "int \<Rightarrow> bytes dedup_op list \<Rightarrow> bool" where
  "ops_fit t ops \<longleftrightarrow> (\<forall>x \<in> set ops. op_time x \<le> t) \<and>
     (\<forall>x \<in> set ops. \<forall>s i. x = Check s i \<or> x = Add s i \<longrightarrow> length i = 8)"

text \<open>Every step of a node is a short sequence of operations on its cache.\<close>

lemma mesh_step_cache:
  assumes "node_inv node" and "op_until t x"
  shows "\<exists>node' w' ops. mesh_step x (node, w) = Some (node', w') \<and> node_inv node' \<and>
           node_seen node' = fold seen.step ops (node_seen node) \<and> ops_fit t ops \<and>
           length (filter is_add ops) \<le> 1 \<and> node_fixed node' = node_fixed node"
proof (cases x)
  case (Receive now1 now2 raw src)
  with assms have len: "length raw \<le> VEX_MAX_PACKET" "now1 \<le> t" "now2 \<le> t" by simp_all
  let ?ops = "receive_ops now1 now2 (node_seen node) raw (length raw)"
  have "ops_fit t ?ops" "length (filter is_add ?ops) \<le> 1"
    using len by (auto simp: receive_ops_def ops_fit_def)
  with receive_outcome [OF assms(1) order_refl len(1), of now1 now2 src w] Receive show ?thesis
    by (fastforce simp: sends_only_def)
next
  case (Send rnd1 rnd2 now message)
  let ?ops = "if length (c_string message) \<le> 401 then [Add now (sent_id rnd1 rnd2 node message)] else []"
  have "ops_fit t ?ops" "length (filter is_add ?ops) \<le> 1"
    using assms(2) Send by (auto simp: ops_fit_def sent_id_def)
  moreover have "(if length (c_string message) \<le> 401
      then vex_seen_add now (node_seen node) (sent_id rnd1 rnd2 node message) else node_seen node) =
      fold seen.step ?ops (node_seen node)" by simp
  moreover obtain r node' w' where "vex_mesh_send rnd1 rnd2 now node message w = Some (r, node', w')"
    "sends_only (set (targets node (-1))) node w node' w'"
    "node_seen node' = (if length (c_string message) \<le> 401
      then vex_seen_add now (node_seen node) (sent_id rnd1 rnd2 node message) else node_seen node)"
    using mesh_send_outcome [OF assms(1), of rnd1 rnd2 now message w] by blast
  ultimately show ?thesis
    by (intro exI [of _ node'] exI [of _ w'] exI [of _ ?ops]) (simp add: Send sends_only_def)
next
  case (Prune_cache now)
  have "node_inv (node\<lparr>node_seen := vex_seen_prune now (node_seen node)\<rparr>)"
    by (rule node_inv_seen [OF assms(1) seen_inv_prune]) (use assms(1) in \<open>simp add: node_inv_def\<close>)
  with Prune_cache assms(2) show ?thesis
    by (intro exI [of _ "node\<lparr>node_seen := vex_seen_prune now (node_seen node)\<rparr>"] exI [of _ w] exI [of _ "[Prune now]"])
       (simp add: ops_fit_def)
qed

lemma mesh_run_cache:
  assumes "node_inv node" and "\<forall>x \<in> set xs. op_until t x"
  shows "\<exists>node' w' ops. mesh_run xs (node, w) = Some (node', w') \<and> node_inv node' \<and>
           node_seen node' = fold seen.step ops (node_seen node) \<and> ops_fit t ops \<and>
           length (filter is_add ops) \<le> length xs \<and> node_fixed node' = node_fixed node"
  using assms
proof (induction xs arbitrary: node w)
  case Nil
  then show ?case by (auto simp: ops_fit_def intro!: exI [of _ "[]"])
next
  case (Cons x xs)
  obtain n1 w1 ops1 where 1: "mesh_step x (node, w) = Some (n1, w1)" "node_inv n1"
    "node_seen n1 = fold seen.step ops1 (node_seen node)" "ops_fit t ops1" "length (filter is_add ops1) \<le> 1"
    "node_fixed n1 = node_fixed node"
    using mesh_step_cache [OF Cons.prems(1), of t x w] Cons.prems(2) by auto
  obtain n2 w2 ops2 where 2: "mesh_run xs (n1, w1) = Some (n2, w2)" "node_inv n2"
    "node_seen n2 = fold seen.step ops2 (node_seen n1)" "ops_fit t ops2" "length (filter is_add ops2) \<le> length xs"
    "node_fixed n2 = node_fixed n1"
    using Cons.IH [OF 1(2), of w1] Cons.prems(2) by auto
  show ?case
    by (rule exI [of _ n2], rule exI [of _ w2], rule exI [of _ "ops1 @ ops2"])
       (use 1 2 in \<open>auto simp: ops_fit_def\<close>)
qed

text \<open>An identifier that is in the cache stays known for its minute, through any run that is not too busy.\<close>

lemma seen_then_dropped:
  assumes "node_inv node" and "seen_held (node_seen node) j t0" and "length j = 8"
    and "\<forall>x \<in> set xs. op_until (t0 + VEX_SEEN_TTL_SEC) x"
    and "seen_recent (node_seen node) t0 + length xs \<le> VEX_SEEN_CAPACITY"
    and "valid_frame raw len" and "frame_id raw = j" and "now1 \<le> t0 + VEX_SEEN_TTL_SEC"
  shows "\<exists>node' w'. mesh_run xs (node, w) = Some (node', w') \<and>
           (\<forall>now2 src. \<exists>node''. vex_mesh_receive now1 now2 node' raw len src w' = Some (0, node'', w'))"
proof -
  obtain node' w' ops where run: "mesh_run xs (node, w) = Some (node', w')" "node_inv node'"
    and c: "node_seen node' = fold seen.step ops (node_seen node)"
    and ops: "ops_fit (t0 + VEX_SEEN_TTL_SEC) ops" "length (filter is_add ops) \<le> length xs"
    using mesh_run_cache [OF assms(1,4), of w] by blast
  have "seen_held (node_seen node') j t0"
    unfolding c
    by (rule conjunct1 [OF seen.held_run])
       (use assms ops in \<open>auto simp: node_inv_def ops_fit_def\<close>)
  then have "frame_id raw \<in> seen_ids (node_seen node') now1"
    using seen.held_mono [of "now1 - VEX_SEEN_TTL_SEC" t0] assms(7,8) by (simp add: seen_ids_def)
  from receive_duplicate [OF run(2) assms(6) this] run(1) show ?thesis by blast
qed

text \<open>A frame that carries a sealed message.\<close>

lemma display_sealed:
  assumes "packet_valid q" and "take (unat (payload_len q)) (payload q) = sealed_message nonce (mesh_key node) p"
    and "length nonce = 24" and "length p \<le> 461" and "0 \<notin> set p"
  shows "mesh_display node q w =
           Some (emit (EDisplay p (uint (ttl q)) (uint (default_ttl node) - uint (ttl q))) w)"
proof -
  let ?n = "unat (payload_len q)"
  have q: "length (payload q) = 501" "?n \<le> 501" using assms(1) by (simp_all add: packet_valid_def packet_shape_def)
  have n: "?n = 40 + length p"
    using arg_cong [OF assms(2), of length] q length_sealed_message [OF assms(3,4), of "mesh_key node"] by simp
  have "payload q = sealed_message nonce (mesh_key node) p @ drop ?n (payload q)"
    using assms(2) by (metis append_take_drop_id)
  from decrypt_broadcast_sealed [OF assms(3,4) n this, of "replicate 501 0" 0] assms(4)
  have d: "vex_crypto_decrypt_broadcast node (payload q) (payload_len q) (replicate 501 0) 0 =
      Some (0, p @ drop (length p) (replicate 501 0), of_nat (length p))" by simp
  have l: "unat (of_nat (length p) :: u16) = length p" using assms(4) by (simp add: unat_of_nat)
  have z: "set_at (p @ drop (length p) (replicate 501 0)) (length p) 0 =
      Some (p @ 0 # drop (Suc (length p)) (replicate 501 (0 :: u8)))"
    using assms(4) by (subst Cons_nth_drop_Suc [symmetric]) (simp_all add: set_at_mid del: drop_replicate)
  show ?thesis
    using assms(5) by (simp add: mesh_display_def d l z c_string_append_nul del: drop_replicate)
qed

lemma receive_sealed:
  assumes "node_inv node" and "valid_frame raw (length raw)" and "frame_id raw \<notin> seen_ids (node_seen node) now1"
    and "raw ! 10 AND VEX_FLAG_ENCRYPTED \<noteq> 0" and "drop 11 raw = sealed_message nonce (mesh_key node) p"
    and "length nonce = 24" and "length p \<le> 461" and "0 \<notin> set p"
  shows "vex_mesh_receive now1 now2 node raw (length raw) src w =
     (let node' = received_node now1 now2 node (frame_id raw);
          w1 = emit (EDisplay p (uint (raw ! 9)) (uint (default_ttl node) - uint (raw ! 9))) w
      in if relay_enabled node then vex_mesh_relay node' raw (length raw) src w1 else Some (0, node', w1))"
proof -
  obtain q where q: "vex_packet_decode raw (length raw) packet_local = Some (0, q)" "packet_valid q"
    "packet_wire q = take (length raw) raw" "ttl q = raw ! 9" "flags q = raw ! 10"
    using decode_valid [OF assms(2)] by blast
  have "take (unat (payload_len q)) (payload q) = sealed_message nonce (mesh_key (received_node now1 now2 node (frame_id raw))) p"
    using packet_wire_fields(5) [OF q(2)] q(3) assms(5) by simp
  from display_sealed [OF q(2) this assms(6-8)] q(4)
  have d: "mesh_display (received_node now1 now2 node (frame_id raw)) q w =
      Some (emit (EDisplay p (uint (raw ! 9)) (uint (default_ttl node) - uint (raw ! 9))) w)" by simp
  show ?thesis
    using receive_fresh [OF assms(1-3) q(1), of now2 src w] assms(4) by (simp add: d q(5) Let_def)
qed

section \<open>Initialisation: the node it leaves\<close>

text \<open>Key material does not matter to the rest of the node; its sizes are kept.\<close>

definition keys_only :: "vex_node \<Rightarrow> vex_node \<Rightarrow> bool" where
  "keys_only n n' \<longleftrightarrow> (\<exists>pk sk bpk bsk mk. n' = n\<lparr>sign_pk := pk, sign_sk := sk, box_pk := bpk, box_sk := bsk, mesh_key := mk\<rparr> \<and>
     length pk = 32 \<and> length sk = 64 \<and> length bpk = 32 \<and> length bsk = 32 \<and> length mk = 32)"

lemma keys_onlyI:
  assumes "n' = n\<lparr>sign_pk := pk, sign_sk := sk, box_pk := bpk, box_sk := bsk, mesh_key := mk\<rparr>"
    and "length pk = 32" and "length sk = 64" and "length bpk = 32" and "length bsk = 32" and "length mk = 32"
  shows "keys_only n n'"
  unfolding keys_only_def using assms by blast

lemma keys_only_trans:
  assumes "keys_only a b" and "keys_only b c"
  shows "keys_only a c"
proof -
  obtain pk sk bpk bsk mk where c: "c = b\<lparr>sign_pk := pk, sign_sk := sk, box_pk := bpk, box_sk := bsk, mesh_key := mk\<rparr>"
    and len: "length pk = 32" "length sk = 64" "length bpk = 32" "length bsk = 32" "length mk = 32"
    using assms(2) by (auto simp: keys_only_def)
  have "c = a\<lparr>sign_pk := pk, sign_sk := sk, box_pk := bpk, box_sk := bsk, mesh_key := mk\<rparr>"
    using assms(1) c by (auto simp: keys_only_def)
  then show ?thesis by (rule keys_onlyI) (rule len)+
qed

lemma node_shape_keys:
  "node_shape n \<Longrightarrow> length (sign_pk n) = 32 \<and> length (sign_sk n) = 64 \<and> length (box_pk n) = 32 \<and>
     length (box_sk n) = 32 \<and> length (mesh_key n) = 32 \<and> length (node_name n) = 64"
  by (simp add: node_shape_def)

lemma keys_only_load:
  assumes "node_shape n" and "vex_crypto_load_keys rnd n path fs = (r, n')"
  shows "keys_only n n' \<and> (r = 0 \<longrightarrow> mesh_key n' = the_mesh_key)"
proof -
  note len = node_shape_keys [OF assms(1)]
  show ?thesis
  proof (cases "files fs (key_path path ''identity.key'')")
    case None
    with assms(2) have "n' = n" "r = -1" by (simp_all add: vex_crypto_load_keys_def)
    then show ?thesis
      using keys_onlyI [of n' "mesh_key n" "box_sk n" "box_pk n" "sign_sk n" "sign_pk n" n] len by simp
  next
    case (Some f)
    obtain k pk f1 where 1: "fread_to (sign_pk n) 32 f = (k, pk, f1)" by (metis prod_cases3)
    obtain l sk f2 where 2: "fread_to (sign_sk n) 64 f1 = (l, sk, f2)" by (metis prod_cases3)
    have l: "length pk = 32" "length sk = 64" using 1 2 len by (auto simp: fread_to_def Let_def)
    let ?m = "n\<lparr>sign_pk := pk, sign_sk := sk\<rparr>"
    obtain bpk bsk where e: "load_ephemeral rnd ?m path fs = ?m\<lparr>box_pk := bpk, box_sk := bsk\<rparr>"
      "length (box_pk ?m) = 32 \<Longrightarrow> length bpk = 32" "length (box_sk ?m) = 32 \<Longrightarrow> length bsk = 32"
      using load_ephemeral_frame [of rnd ?m path fs] by metis
    consider "n' = n\<lparr>sign_pk := pk\<rparr>" "r = -1" | "n' = ?m" "r = -1"
      | "n' = ?m\<lparr>box_pk := bpk, box_sk := bsk, mesh_key := the_mesh_key\<rparr>" "r = 0"
      using assms(2) Some 1 2 by (auto simp: vex_crypto_load_keys_def Let_def e(1) derive_mesh_key split: if_splits)
    then show ?thesis
    proof cases
      case 1
      then show ?thesis
        using keys_onlyI [of n' "mesh_key n" "box_sk n" "box_pk n" "sign_sk n" pk n] l len by simp
    next
      case 2
      then show ?thesis
        using keys_onlyI [of n' "mesh_key n" "box_sk n" "box_pk n" sk pk n] l len by simp
    next
      case 3
      then show ?thesis
        using keys_onlyI [of n' the_mesh_key bsk bpk sk pk n] l len e(2,3) by simp
    qed
  qed
qed

lemma keys_only_init:
  assumes "node_shape n"
  shows "keys_only n (snd (vex_crypto_init rnd1 rnd2 n)) \<and> mesh_key (snd (vex_crypto_init rnd1 rnd2 n)) = the_mesh_key"
proof -
  note len = node_shape_keys [OF assms]
  obtain pk sk where s: "crypto_sign_keypair rnd1 (sign_sk n) = (pk, sk)" "length pk = 32" "length sk = 64"
    using length_sign_keypair [of "sign_sk n" rnd1] len by (metis prod.collapse)
  obtain bpk bsk where b: "crypto_box_keypair rnd2 (box_sk n) = (bpk, bsk)" "length bpk = 32" "length bsk = 32"
    using length_box_keypair [of rnd2 "box_sk n"] len by (metis prod.collapse)
  show ?thesis
    unfolding keys_only_def
    by (intro conjI exI [of _ pk] exI [of _ sk] exI [of _ bpk] exI [of _ bsk] exI [of _ the_mesh_key])
       (simp_all add: vex_crypto_init_def s b derive_mesh_key)
qed

text \<open>Everything but the keys and the name is fixed by the initialisation.\<close>

lemma mesh_init_result:
  "\<exists>n fs'. vex_mesh_init home now rnd1 rnd2 fs = Some (0, n, fs') \<and>
     length (sign_pk n) = 32 \<and> length (sign_sk n) = 64 \<and> length (box_pk n) = 32 \<and> length (box_sk n) = 32 \<and>
     length (node_name n) = 64 \<and> node_name n ! 63 = 0 \<and> mesh_key n = the_mesh_key \<and>
     c_string (node_name n) = str_bytes ''vex-'' @ hex_text (take 4 (sign_pk n)) \<and>
     n = zero_node\<lparr>default_ttl := VEX_DEFAULT_TTL, scan_interval := VEX_SCAN_INTERVAL, relay_enabled := True,
           running := True, started_at := now, listen_fd := -1, node_seen := vex_seen_init (node_seen zero_node),
           sign_pk := sign_pk n, sign_sk := sign_sk n, box_pk := box_pk n, box_sk := box_sk n,
           mesh_key := mesh_key n, node_name := node_name n\<rparr>"
proof -
  define n0 where "n0 = zero_node\<lparr>default_ttl := VEX_DEFAULT_TTL, scan_interval := VEX_SCAN_INTERVAL, relay_enabled := True,
           running := True, started_at := now, listen_fd := -1, node_seen := vex_seen_init (node_seen zero_node)\<rparr>"
  define kp where "kp = take 255 ((case home of Some h \<Rightarrow> c_string h | None \<Rightarrow> str_bytes ''/tmp'') @ str_bytes ''/.vexconnect'')"
  have shape: "node_shape n0" using node_shape_zero by (simp add: n0_def node_shape_def)
  obtain r n1 where ld: "vex_crypto_load_keys rnd1 n0 kp fs = (r, n1)" by (cases "vex_crypto_load_keys rnd1 n0 kp fs")
  obtain q n2 where init: "vex_crypto_init rnd1 rnd2 n1 = (q, n2)" by (cases "vex_crypto_init rnd1 rnd2 n1")
  obtain q' fs2 where save: "vex_crypto_save_keys n2 kp fs = (q', fs2)" by (cases "vex_crypto_save_keys n2 kp fs")
  define n3 where "n3 = (if r \<noteq> 0 then n2 else n1)"
  define fs3 where "fs3 = (if r \<noteq> 0 then fs2 else fs)"
  have k1: "keys_only n0 n1" "r = 0 \<Longrightarrow> mesh_key n1 = the_mesh_key" using keys_only_load [OF shape ld] by blast+
  then have "node_shape n1" using shape by (auto simp: keys_only_def node_shape_def)
  from keys_only_init [OF this, of rnd1 rnd2] init
  have k2: "keys_only n1 n2" "mesh_key n2 = the_mesh_key" by simp_all
  have k3: "keys_only n0 n3" "mesh_key n3 = the_mesh_key"
    using k1 k2 keys_only_trans by (auto simp: n3_def)
  have name0: "node_name n3 = replicate 64 0" and len: "length (sign_pk n3) = 32"
    using k3(1) by (auto simp: keys_only_def n0_def zero_node_def)
  let ?nm = "str_bytes ''vex-'' @ hex_text (take 4 (sign_pk n3))"
  have hex: "vex_hex (sign_pk n3) 4 (replicate 9 0) = Some (hex_text (take 4 (sign_pk n3)) @ [0])"
    using vex_hex_result [of 4 "sign_pk n3" "replicate 9 0"] len by simp
  have cs: "c_string (hex_text (take 4 (sign_pk n3)) @ [0]) = hex_text (take 4 (sign_pk n3))"
    by (rule c_string_append_nul) (rule hex_text_no_nul)
  have nul: "0 \<notin> set ?nm" using hex_text_no_nul [of "take 4 (sign_pk n3)"] by (simp add: str_bytes_def)
  have nlen: "length ?nm = 12" using len by (simp add: str_bytes_def)
  define nm where "nm = ?nm"
  define t where "t = nm @ 0 # replicate 51 (0 :: u8)"
  have nm: "length nm = 12" "0 \<notin> set nm" unfolding nm_def by (rule nlen, rule nul)
  then have "snprintf_to (replicate 64 0) 64 nm = Some t" "length t = 64" "c_string t = nm" "t ! 63 = 0"
    by (simp_all add: snprintf_to_def t_def Let_def c_string_append_nul nth_append)
  then have t: "snprintf_to (replicate 64 0) 64 ?nm = Some t" "length t = 64" "c_string t = ?nm" "t ! 63 = 0"
    unfolding nm_def by simp_all
  have "vex_mesh_init home now rnd1 rnd2 fs = Some (0, n3\<lparr>node_name := t\<rparr>, fs3)"
    unfolding vex_mesh_init_def kp_def [symmetric]
    using name0 hex cs t ld init save
    by (cases "r = 0") (simp_all add: Let_def n0_def [symmetric] n3_def fs3_def)
  moreover have "length (sign_pk n3) = 32 \<and> length (sign_sk n3) = 64 \<and> length (box_pk n3) = 32 \<and> length (box_sk n3) = 32"
    using k3(1) by (auto simp: keys_only_def)
  moreover have "n3 = n0\<lparr>sign_pk := sign_pk n3, sign_sk := sign_sk n3, box_pk := box_pk n3, box_sk := box_sk n3, mesh_key := mesh_key n3\<rparr>"
    using k3(1) by (auto simp: keys_only_def)
  ultimately show ?thesis
    using t k3(2) by (intro exI [of _ "n3\<lparr>node_name := t\<rparr>"] exI [of _ fs3] conjI) (simp_all add: n0_def)
qed

end
