(* ===== verification/Vex_Main.thy ===== *)
theory Vex_Main
  imports Vex_Mesh "HOL-Library.Signed_Division"
begin

text \<open>
  \<^verbatim>\<open>src/main.c\<close>: the options, the start of a node, one iteration of the main loop and the
  cleanup. \<^verbatim>\<open>print_stats\<close> and \<^verbatim>\<open>print_peers\<close> are events that carry the values they print;
  \<^verbatim>\<open>print_banner\<close>, \<^verbatim>\<open>print_usage\<close> and the prompts are constant text and have no model.
\<close>

section \<open>Options\<close>

text \<open>What \<^verbatim>\<open>getopt_long\<close> delivers, in order; \<open>Opt_unknown\<close> is its \<^verbatim>\<open>'?'\<close>.\<close>

datatype cli_option =
    Opt_listen bytes
  | Opt_peer bytes
  | Opt_name bytes
  | Opt_ttl bytes
  | Opt_no_relay
  | Opt_stats
  | Opt_version
  | Opt_help
  | Opt_unknown

record config =
  listen_path :: "bytes option"
  peer_paths :: "bytes list"
  cfg_name :: "bytes option"
  cfg_ttl :: int
  cfg_relay :: bool
  show_stats :: bool

text \<open>\<^verbatim>\<open>atoi\<close>: leading blanks, an optional sign, digits up to the first other byte.\<close>

definition is_digit :: "u8 \<Rightarrow> bool" where
  "is_digit c \<longleftrightarrow> 48 \<le> c \<and> c \<le> 57"

definition is_blank :: "u8 \<Rightarrow> bool" where
  "is_blank c \<longleftrightarrow> c = 32 \<or> 9 \<le> c \<and> c \<le> 13"

definition digits_value :: "bytes \<Rightarrow> int" where
  "digits_value s = fold (\<lambda>c v. 10 * v + (uint c - 48)) (takeWhile is_digit s) 0"

definition atoi :: "bytes \<Rightarrow> int" where
  "atoi s =
     (case dropWhile is_blank (c_string s) of
        [] \<Rightarrow> 0
      | c # r \<Rightarrow> if c = 45 then - digits_value r else if c = 43 then digits_value r else digits_value (c # r))"

definition config_defaults :: config where
  "config_defaults = \<lparr>listen_path = None, peer_paths = [], cfg_name = None, cfg_ttl = uint VEX_DEFAULT_TTL,
     cfg_relay = True, show_stats = False\<rparr>"

text \<open>The loop over the options; \<open>Inl\<close> is the exit code of a return from it.\<close>

fun parse_options :: "cli_option list \<Rightarrow> config \<Rightarrow> int + config" where
  "parse_options [] c = Inr c"
| "parse_options (Opt_listen p # os) c = parse_options os (c\<lparr>listen_path := Some p\<rparr>)"
| "parse_options (Opt_peer p # os) c =
     parse_options os (if length (peer_paths c) < VEX_MAX_PEERS then c\<lparr>peer_paths := peer_paths c @ [p]\<rparr> else c)"
| "parse_options (Opt_name n # os) c = parse_options os (c\<lparr>cfg_name := Some n\<rparr>)"
| "parse_options (Opt_ttl t # os) c = parse_options os (c\<lparr>cfg_ttl := atoi t\<rparr>)"
| "parse_options (Opt_no_relay # os) c = parse_options os (c\<lparr>cfg_relay := False\<rparr>)"
| "parse_options (Opt_stats # os) c = parse_options os (c\<lparr>show_stats := True\<rparr>)"
| "parse_options (Opt_version # os) c = Inl 0"
| "parse_options (Opt_help # os) c = Inl 0"
| "parse_options (Opt_unknown # os) c = Inl 1"

section \<open>Start\<close>

text \<open>Connecting to the peers named on the command line, one outcome and one time per path.\<close>

fun connect_loop :: "bytes list \<Rightarrow> (connect_result \<times> int) list \<Rightarrow> vex_node \<Rightarrow> world \<Rightarrow> (vex_node \<times> world) option" where
  "connect_loop (p # ps) ((res, now) # rs) node w = do {
     (_, node, w) \<leftarrow> vex_transport_unix_connect res now node p w;
     connect_loop ps rs node w
   }"
| "connect_loop _ _ node w = Some (node, w)"

text \<open>
  From the options to the main loop. \<open>Inl\<close> is an exit code; \<open>fs\<close> holds the key files, \<open>lres\<close> and
  \<open>conns\<close> are what the system does on the listening socket and the connections.
\<close>

definition main_start ::
  "cli_option list \<Rightarrow> bytes option \<Rightarrow> int \<Rightarrow> urandom \<Rightarrow> urandom \<Rightarrow> file_system \<Rightarrow> listen_result \<Rightarrow>
   (connect_result \<times> int) list \<Rightarrow> world \<Rightarrow> (int + config \<times> vex_node \<times> world) option" where
  "main_start opts home now rnd1 rnd2 fs lres conns w =
     (case parse_options opts config_defaults of
        Inl code \<Rightarrow> Some (Inl code)
      | Inr cfg \<Rightarrow>
          (case listen_path cfg of
             None \<Rightarrow> Some (Inl 1)
           | Some path \<Rightarrow> do {
               (_, node, fs) \<leftarrow> vex_mesh_init home now rnd1 rnd2 fs;
               nm \<leftarrow> (case cfg_name cfg of
                        Some n \<Rightarrow> strncpy_to (node_name node) n 63
                      | None \<Rightarrow> Some (node_name node));
               let node = node\<lparr>node_name := nm\<rparr>;
               let node = node\<lparr>default_ttl := word_of_int (cfg_ttl cfg)\<rparr>;
               let node = node\<lparr>relay_enabled := cfg_relay cfg\<rparr>;
               let (r, node, w) = vex_transport_unix_init lres node path w;
               if r \<noteq> 0 then Some (Inl 1)
               else do {
                 (node, w) \<leftarrow> connect_loop (peer_paths cfg) conns node w;
                 Some (Inr (cfg, node, w))
               }
             }))"

section \<open>The main loop\<close>

text \<open>
  The outcomes of the system calls of one iteration: whether \<^verbatim>\<open>poll\<close> succeeded, which of its
  entries are readable, the line \<^verbatim>\<open>fgets\<close> returns, what \<^verbatim>\<open>accept\<close> does for an entry, and every
  call of \<^verbatim>\<open>time(NULL)\<close> and of the random source.
\<close>

record tick =
  poll_ok :: bool
  readable :: "nat \<Rightarrow> bool"
  input_line :: "bytes option"
  accepts :: "nat \<Rightarrow> accept_result"
  t_accept :: "nat \<Rightarrow> int"
  t_read :: "nat \<Rightarrow> int"
  t_check :: "nat \<Rightarrow> int"
  t_add :: "nat \<Rightarrow> int"
  t_send :: int
  t_print :: int
  send_rnd1 :: urandom
  send_rnd2 :: urandom
  t_end :: int

record main_state =
  ms_node :: vex_node
  ms_world :: world
  last_prune :: int
  last_stats :: int

text \<open>The descriptors handed to \<^verbatim>\<open>poll\<close>.\<close>

definition poll_fds :: "vex_node \<Rightarrow> int list" where
  "poll_fds node = [0] @ (if listen_fd node \<ge> 0 then [listen_fd node] else []) @
     map fd (filter peer_active (take VEX_MAX_PEERS (peers node)))"

text \<open>The statistics, with C division, and the table of connected peers.\<close>

definition print_stats :: "int \<Rightarrow> vex_node \<Rightarrow> world \<Rightarrow> world" where
  "print_stats now n w =
     (let uptime = now - started_at n;
          hours = uptime sdiv 3600;
          mins = (uptime smod 3600) sdiv 60;
          active = length (filter peer_active (take VEX_MAX_PEERS (peers n)))
      in emit (EStats (c_string (node_name n)) hours mins (packets_sent n) (packets_received n)
                 (packets_relayed n) (packets_dropped n) active) w)"

definition print_peers :: "int \<Rightarrow> vex_node \<Rightarrow> world \<Rightarrow> world" where
  "print_peers now n w =
     emit (EPeers (map (\<lambda>p. (c_string (peer_name p), fd p, now - last_seen p))
                     (filter peer_active (take VEX_MAX_PEERS (peers n))))) w"

text \<open>A line from the user: the next node, and whether the iteration goes on.\<close>

definition strip_newline :: "bytes \<Rightarrow> bytes" where
  "strip_newline line =
     (let s = c_string line in if s \<noteq> [] \<and> last s = 10 then butlast s else s)"

definition handle_input :: "tick \<Rightarrow> bytes \<Rightarrow> vex_node \<Rightarrow> world \<Rightarrow> (bool \<times> vex_node \<times> world) option" where
  "handle_input k line node w =
     (let s = strip_newline line in
      if s = [] then Some (False, node, w)
      else if s = str_bytes ''/quit'' \<or> s = str_bytes ''/q'' then Some (False, node\<lparr>running := False\<rparr>, w)
      else if s = str_bytes ''/peers'' then Some (False, node, print_peers (t_print k) node w)
      else if s = str_bytes ''/stats'' then Some (False, node, print_stats (t_print k) node w)
      else do {
        (_, node, w) \<leftarrow> vex_mesh_send (send_rnd1 k) (send_rnd2 k) (t_send k) node (s @ [0]) w;
        Some (True, node, w)
      })"

text \<open>The loop over the polled descriptors that accepts connections.\<close>

definition accept_loop :: "tick \<Rightarrow> int list \<Rightarrow> vex_node \<Rightarrow> world \<Rightarrow> (vex_node \<times> world) option" where
  "accept_loop k fds node w =
     (if listen_fd node \<ge> 0 then
        for_opt (length fds) (\<lambda>i (node, w).
          if fds ! i = listen_fd node \<and> readable k i
          then map_option snd (vex_transport_unix_accept (accepts k i) (t_accept k i) node w)
          else Some (node, w)) (node, w)
      else Some (node, w))"

text \<open>The loop over the peer table that reads packets.\<close>

definition peer_step :: "tick \<Rightarrow> nat \<Rightarrow> vex_node \<times> world \<Rightarrow> (vex_node \<times> world) option" where
  "peer_step k i = (\<lambda>(node, w).
     if \<not> peer_active (peers node ! i) then Some (node, w)
     else do {
       (n, p, buf, w) \<leftarrow> vex_transport_unix_read (peers node ! i) (replicate VEX_MAX_PACKET 0) VEX_MAX_PACKET (t_read k i) w;
       let node = node\<lparr>peers := (peers node)[i := p]\<rparr>;
       if n > 0 then
         map_option snd (vex_mesh_receive (t_check k i) (t_add k i) node buf (nat n) (fd (peers node ! i)) w)
       else if n < 0 then Some (node\<lparr>peer_count := peer_count node - 1\<rparr>, w)
       else Some (node, w)
     })"

definition peer_loop :: "tick \<Rightarrow> vex_node \<times> world \<Rightarrow> (vex_node \<times> world) option" where
  "peer_loop k = for_opt VEX_MAX_PEERS (peer_step k)"

text \<open>The maintenance at the end of an iteration.\<close>

definition maintain :: "tick \<Rightarrow> bool \<Rightarrow> main_state \<Rightarrow> main_state" where
  "maintain k stats s =
     (let now = t_end k;
          s = (if now - last_prune s > 10
               then s\<lparr>ms_node := (ms_node s)\<lparr>node_seen := vex_seen_prune now (node_seen (ms_node s))\<rparr>, last_prune := now\<rparr>
               else s)
      in if stats \<and> now - last_stats s > 30 then s\<lparr>ms_world := print_stats (t_print k) (ms_node s) (ms_world s), last_stats := now\<rparr> else s)"

definition main_iteration :: "bool \<Rightarrow> tick \<Rightarrow> main_state \<Rightarrow> main_state option" where
  "main_iteration stats k s =
     (let fds = poll_fds (ms_node s) in
      if \<not> poll_ok k then Some s
      else do {
        (go, node, w) \<leftarrow>
          (case input_line k of
             Some line \<Rightarrow> if readable k 0 then handle_input k line (ms_node s) (ms_world s)
                          else Some (True, ms_node s, ms_world s)
           | None \<Rightarrow> Some (True, ms_node s, ms_world s));
        if \<not> go then Some (s\<lparr>ms_node := node, ms_world := w\<rparr>)
        else do {
          (node, w) \<leftarrow> accept_loop k fds node w;
          (node, w) \<leftarrow> peer_loop k (node, w);
          Some (maintain k stats (s\<lparr>ms_node := node, ms_world := w\<rparr>))
        }
      })"

text \<open>The signal handler, and the loop over a sequence of iterations and signals.\<close>

datatype main_event = Iterate tick | Signal

definition handle_signal :: "vex_node \<Rightarrow> vex_node" where
  "handle_signal node = node\<lparr>running := False\<rparr>"

fun main_loop :: "bool \<Rightarrow> main_event list \<Rightarrow> main_state \<Rightarrow> main_state option" where
  "main_loop stats [] s = Some s"
| "main_loop stats (Signal # es) s = main_loop stats es (s\<lparr>ms_node := handle_signal (ms_node s)\<rparr>)"
| "main_loop stats (Iterate k # es) s =
     (if running (ms_node s) then Option.bind (main_iteration stats k s) (main_loop stats es) else Some s)"

text \<open>Closing the sockets at the end.\<close>

definition main_cleanup :: "vex_node \<Rightarrow> world \<Rightarrow> world" where
  "main_cleanup node w =
     (let w = (if listen_fd node \<ge> 0 then sys_close (listen_fd node) w else w)
      in fold (\<lambda>p w. if peer_active p then sys_close (fd p) w else w) (take VEX_MAX_PEERS (peers node)) w)"

section \<open>The invariant through an iteration\<close>

text \<open>The part of a node that the main loop does not change.\<close>

definition main_fixed :: "vex_node \<Rightarrow> vex_node" where
  "main_fixed n = (node_fixed n)\<lparr>peer_count := 0\<rparr>"

lemma main_fixed_simps [simp]:
  "main_fixed (n\<lparr>peers := ps\<rparr>) = main_fixed n"
  "main_fixed (n\<lparr>peer_count := c\<rparr>) = main_fixed n"
  "main_fixed (n\<lparr>node_seen := s\<rparr>) = main_fixed n"
  by (simp_all add: main_fixed_def node_fixed_def)

lemma node_fixed_main: "node_fixed a = node_fixed b \<Longrightarrow> main_fixed a = main_fixed b"
  by (simp add: main_fixed_def)

lemma main_fixed_listen:
  assumes "main_fixed a = main_fixed b"
  shows "listen_fd a = listen_fd b \<and> running a = running b"
  using arg_cong [OF assms, of listen_fd] arg_cong [OF assms, of running]
  by (simp add: main_fixed_def node_fixed_def)

lemma node_inv_update_peer:
  assumes "node_inv node" and "length (peer_name p) = 64" and "length (pubkey p) = 32"
    and "peer_active p \<Longrightarrow> 0 \<le> fd p"
  shows "node_inv (node\<lparr>peers := (peers node)[i := p]\<rparr>)"
  using assms
  by (auto simp: node_inv_def node_shape_def peers_open_def dest!: set_update_subset_insert [THEN subsetD])

lemma node_inv_peer:
  assumes "node_inv node" and "i < VEX_MAX_PEERS"
  shows "length (peer_name (peers node ! i)) = 64 \<and> length (pubkey (peers node ! i)) = 32 \<and>
         (peer_active (peers node ! i) \<longrightarrow> 0 \<le> fd (peers node ! i))"
proof -
  have "peers node ! i \<in> set (peers node)" using assms by (simp add: node_inv_def node_shape_def)
  with assms(1) show ?thesis by (simp add: node_inv_def node_shape_def peers_open_def)
qed

lemma install_peer_inv:
  assumes "node_inv node" and "i < VEX_MAX_PEERS" and "0 \<le> d"
  shows "\<exists>node' w'. install_peer node i d name now w = Some (node', w') \<and> node_inv node' \<and>
           main_fixed node' = main_fixed node \<and> node_seen node' = node_seen node"
proof -
  note p = node_inv_peer [OF assms(1,2)]
  obtain nm where nm: "snprintf_to (peer_name (peers node ! i)) 64 name = Some nm" "length nm = 64"
    using snprintf_to_Some [of 64 "peer_name (peers node ! i)" name] p by auto
  let ?p = "(peers node ! i)\<lparr>fd := d, peer_active := True, last_seen := now, peer_name := nm\<rparr>"
  have "node_inv (node\<lparr>peers := (peers node)[i := ?p]\<rparr>)"
    by (rule node_inv_update_peer [OF assms(1)]) (use p nm assms(3) in simp_all)
  then show ?thesis by (simp add: install_peer_def nm(1) Let_def)
qed

text \<open>The system hands out descriptors that are not negative.\<close>

definition accept_ok :: "accept_result \<Rightarrow> bool" where
  "accept_ok res \<longleftrightarrow> (\<forall>d. res = Accepted d \<longrightarrow> 0 \<le> d)"

lemma accept_inv:
  assumes "node_inv node" and "accept_ok res"
  shows "\<exists>r node' w'. vex_transport_unix_accept res now node w = Some (r, node', w') \<and> node_inv node' \<and>
           main_fixed node' = main_fixed node"
proof (cases res)
  case (Accepted d)
  show ?thesis
  proof (cases "free_peer (take VEX_MAX_PEERS (peers node))")
    case None
    then show ?thesis using assms(1) Accepted by (simp add: vex_transport_unix_accept_def)
  next
    case (Some i)
    from free_peer_Some [OF this] have "i < VEX_MAX_PEERS" by simp
    moreover have "0 \<le> d" using assms(2) Accepted by (simp add: accept_ok_def)
    ultimately show ?thesis
      using install_peer_inv [OF assms(1), of i d "str_bytes ''peer-'' @ int_digits d" now w] Some Accepted
      by (auto simp: vex_transport_unix_accept_def)
  qed
qed (use assms in \<open>simp_all add: vex_transport_unix_accept_def\<close>)

lemma connect_inv:
  assumes "node_inv node" and "\<forall>d. res = Connected d \<longrightarrow> 0 \<le> d"
  shows "\<exists>r node' w'. vex_transport_unix_connect res now node path w = Some (r, node', w') \<and> node_inv node' \<and>
           main_fixed node' = main_fixed node"
proof (cases res)
  case (Connected d)
  show ?thesis
  proof (cases "free_peer (take VEX_MAX_PEERS (peers node))")
    case None
    then show ?thesis using assms(1) Connected by (simp add: vex_transport_unix_connect_def Let_def)
  next
    case (Some i)
    from free_peer_Some [OF this] have "i < VEX_MAX_PEERS" by simp
    moreover have "0 \<le> d" using assms(2) Connected by simp
    ultimately show ?thesis
      using install_peer_inv [OF assms(1), of i d "str_bytes ''peer@'' @ c_string path" now
          "emit (EConnect d (take 107 (c_string path))) w"] Some Connected
      by (auto simp: vex_transport_unix_connect_def Let_def)
  qed
qed (use assms in \<open>simp_all add: vex_transport_unix_connect_def\<close>)

text \<open>Every pass over the peer table and the polled descriptors keeps the invariant.\<close>

definition loop_inv :: "vex_node \<Rightarrow> vex_node \<times> world \<Rightarrow> bool" where
  "loop_inv node0 = (\<lambda>(node, w). node_inv node \<and> main_fixed node = main_fixed node0)"

lemma peer_step_inv:
  assumes "loop_inv node0 (node, w)" and "i < VEX_MAX_PEERS"
  shows "\<exists>s'. peer_step k i (node, w) = Some s' \<and> loop_inv node0 s'"
proof (cases "peer_active (peers node ! i)")
  case False
  with assms(1) show ?thesis by (simp add: peer_step_def)
next
  case True
  have inv: "node_inv node" "main_fixed node = main_fixed node0" using assms(1) by (simp_all add: loop_inv_def)
  obtain r p buf w1 where rd: "vex_transport_unix_read (peers node ! i) (replicate 512 0) 512 (t_read k i) w = Some (r, p, buf, w1)"
    and buf: "length buf = 512" "r = -1 \<or> 0 \<le> r \<and> r \<le> 512"
    using unix_read_result [of "replicate 512 0" "peers node ! i" "t_read k i" w] by auto
  have "length (peer_name p) = 64 \<and> length (pubkey p) = 32 \<and> (peer_active p \<longrightarrow> 0 \<le> fd p)"
    using unix_read_peer [OF rd] node_inv_peer [OF inv(1) assms(2)] by auto
  then have n1: "node_inv (node\<lparr>peers := (peers node)[i := p]\<rparr>)"
    by (intro node_inv_update_peer [OF inv(1)]) simp_all
  consider "0 < r" | "r < 0" | "r = 0" by linarith
  then show ?thesis
  proof cases
    case 1
    have le: "nat r \<le> length buf" "nat r \<le> VEX_MAX_PACKET" using buf by auto
    obtain q node' w' where rcv: "vex_mesh_receive (t_check k i) (t_add k i) (node\<lparr>peers := (peers node)[i := p]\<rparr>) buf (nat r)
        (fd ((peers node)[i := p] ! i)) w1 = Some (q, node', w')"
      and o: "node_inv node'" "node_fixed node' = node_fixed (node\<lparr>peers := (peers node)[i := p]\<rparr>)"
      by (rule receive_inv [OF n1 le])
    then show ?thesis
      using True 1 rd inv(2) node_fixed_main [OF o(2)] by (simp add: peer_step_def loop_inv_def Let_def)
  next
    case 2
    then show ?thesis using True rd n1 inv(2) by (simp add: peer_step_def loop_inv_def Let_def)
  next
    case 3
    then show ?thesis using True rd n1 inv(2) by (simp add: peer_step_def loop_inv_def Let_def)
  qed
qed

lemma peer_loop_inv:
  assumes "loop_inv node0 s"
  shows "\<exists>s'. peer_loop k s = Some s' \<and> loop_inv node0 s'"
  unfolding peer_loop_def
proof (rule for_opt_inv [where P = "\<lambda>_. loop_inv node0"])
  fix i s assume "i < VEX_MAX_PEERS" "loop_inv node0 s"
  then show "\<exists>s'. peer_step k i s = Some s' \<and> loop_inv node0 s'"
    using peer_step_inv [of node0 "fst s" "snd s" i k] by simp
qed (rule assms)

lemma accept_loop_inv:
  assumes "loop_inv node0 (node, w)" and "\<forall>i. accept_ok (accepts k i)"
  shows "\<exists>s'. accept_loop k fds node w = Some s' \<and> loop_inv node0 s'"
proof (cases "listen_fd node \<ge> 0")
  case True
  have "\<exists>s'. for_opt (length fds) (\<lambda>i (node, w). if fds ! i = listen_fd node \<and> readable k i
      then map_option snd (vex_transport_unix_accept (accepts k i) (t_accept k i) node w) else Some (node, w)) (node, w) = Some s' \<and>
      loop_inv node0 s'"
  proof (rule for_opt_inv [where P = "\<lambda>_. loop_inv node0"])
    fix i s assume "loop_inv node0 s"
    then show "\<exists>s'. (case s of (node, w) \<Rightarrow> if fds ! i = listen_fd node \<and> readable k i
        then map_option snd (vex_transport_unix_accept (accepts k i) (t_accept k i) node w) else Some (node, w)) = Some s' \<and>
        loop_inv node0 s'"
      using accept_inv [of "fst s" "accepts k i" "t_accept k i" "snd s"] assms(2)
      by (auto simp: loop_inv_def split: prod.splits)
  qed (rule assms(1))
  with True show ?thesis by (simp add: accept_loop_def)
next
  case False
  with assms(1) show ?thesis by (simp add: accept_loop_def)
qed

lemma handle_input_inv:
  assumes "node_inv node"
  shows "\<exists>go node' w'. handle_input k line node w = Some (go, node', w') \<and> node_inv node' \<and>
           (go \<longrightarrow> main_fixed node' = main_fixed node) \<and> main_fixed node' = main_fixed (node\<lparr>running := running node'\<rparr>)"
proof -
  let ?msg = "strip_newline line @ [0]"
  obtain r node' w' where snd: "vex_mesh_send (send_rnd1 k) (send_rnd2 k) (t_send k) node ?msg w = Some (r, node', w')"
    and o: "node_inv node'" "node_fixed node' = node_fixed node"
    by (rule send_inv [OF assms])
  have r: "running node' = running node" by (rule node_fixed_fields [OF o(2)])
  have "node\<lparr>running := running node\<rparr> = node" by simp
  then show ?thesis
    using assms snd o(1) r node_fixed_main [OF o(2)] by (auto simp: handle_input_def Let_def)
qed

lemma maintain_inv:
  assumes "node_inv (ms_node s)"
  shows "node_inv (ms_node (maintain k stats s)) \<and> main_fixed (ms_node (maintain k stats s)) = main_fixed (ms_node s) \<and>
         peers (ms_node (maintain k stats s)) = peers (ms_node s) \<and> peer_count (ms_node (maintain k stats s)) = peer_count (ms_node s)"
proof -
  have "node_inv ((ms_node s)\<lparr>node_seen := vex_seen_prune (t_end k) (node_seen (ms_node s))\<rparr>)"
    by (rule node_inv_seen [OF assms seen_inv_prune]) (use assms in \<open>simp add: node_inv_def\<close>)
  with assms show ?thesis by (simp add: maintain_def Let_def)
qed

text \<open>One iteration, and the whole loop.\<close>

lemma main_iteration_inv:
  assumes "node_inv (ms_node s)" and "\<forall>i. accept_ok (accepts k i)"
  shows "\<exists>s'. main_iteration stats k s = Some s' \<and> node_inv (ms_node s') \<and>
           main_fixed (ms_node s') = main_fixed ((ms_node s)\<lparr>running := running (ms_node s')\<rparr>)"
proof -
  let ?input = "case input_line k of
      Some line \<Rightarrow> if readable k 0 then handle_input k line (ms_node s) (ms_world s) else Some (True, ms_node s, ms_world s)
    | None \<Rightarrow> Some (True, ms_node s, ms_world s)"
  have run: "(ms_node s)\<lparr>running := running n\<rparr> = ms_node s" if "main_fixed n = main_fixed (ms_node s)" for n
    using main_fixed_listen [OF that] by simp
  have "\<exists>go node w. ?input = Some (go, node, w) \<and> node_inv node \<and>
      (go \<longrightarrow> main_fixed node = main_fixed (ms_node s)) \<and> main_fixed node = main_fixed ((ms_node s)\<lparr>running := running node\<rparr>)"
    using assms(1) handle_input_inv [OF assms(1), of k _ "ms_world s"] by (auto split: option.split)
  then obtain go node w where i: "?input = Some (go, node, w)" "node_inv node"
    "go \<Longrightarrow> main_fixed node = main_fixed (ms_node s)" "main_fixed node = main_fixed ((ms_node s)\<lparr>running := running node\<rparr>)"
    by blast
  show ?thesis
  proof (cases "poll_ok k \<and> go")
    case False
    then show ?thesis
      using i assms(1) by (auto simp: main_iteration_def Let_def)
  next
    case True
    obtain n1 w1 where a: "accept_loop k (poll_fds (ms_node s)) node w = Some (n1, w1)" "loop_inv node (n1, w1)"
      using accept_loop_inv [of node node w k "poll_fds (ms_node s)"] i(2) assms(2) by (auto simp: loop_inv_def)
    obtain n2 w2 where p: "peer_loop k (n1, w1) = Some (n2, w2)" "loop_inv node (n2, w2)"
      using peer_loop_inv [OF a(2), of k] by auto
    have n2: "node_inv n2" "main_fixed n2 = main_fixed (ms_node s)" using p(2) i(3) True by (simp_all add: loop_inv_def)
    let ?s = "s\<lparr>ms_node := n2, ms_world := w2\<rparr>"
    have "main_iteration stats k s = Some (maintain k stats ?s)"
      unfolding main_iteration_def Let_def i(1) using True by (simp add: a(1) p(1))
    moreover have "node_inv (ms_node (maintain k stats ?s))" "main_fixed (ms_node (maintain k stats ?s)) = main_fixed (ms_node s)"
      using maintain_inv [of ?s k stats] n2 by simp_all
    ultimately show ?thesis using run by simp
  qed
qed

lemma main_fixed_running:
  assumes "main_fixed a = main_fixed b"
  shows "main_fixed (a\<lparr>running := r\<rparr>) = main_fixed (b\<lparr>running := r\<rparr>)"
proof -
  have "main_fixed (n\<lparr>running := r\<rparr>) = (main_fixed n)\<lparr>running := r\<rparr>" for n
    by (cases n) (simp add: main_fixed_def node_fixed_def)
  with assms show ?thesis by simp
qed

lemma node_inv_running [simp]: "node_inv (handle_signal n) = node_inv n"
  by (simp add: handle_signal_def)

fun event_ok :: "main_event \<Rightarrow> bool" where
  "event_ok (Iterate k) \<longleftrightarrow> (\<forall>i. accept_ok (accepts k i))"
| "event_ok Signal \<longleftrightarrow> True"

lemma main_loop_inv:
  assumes "node_inv (ms_node s)" and "\<forall>e \<in> set es. event_ok e"
  shows "\<exists>s'. main_loop stats es s = Some s' \<and> node_inv (ms_node s') \<and>
           main_fixed (ms_node s') = main_fixed ((ms_node s)\<lparr>running := running (ms_node s')\<rparr>)"
  using assms
proof (induction stats es s rule: main_loop.induct)
  case (1 stats s)
  then show ?case by simp
next
  case (2 stats es s)
  then show ?case by (simp add: handle_signal_def)
next
  case (3 stats k es s)
  show ?case
  proof (cases "running (ms_node s)")
    case False
    then have e: "(ms_node s)\<lparr>running := False\<rparr> = ms_node s" by (cases "ms_node s") simp
    from False "3.prems" show ?thesis by (simp add: e)
  next
    case True
    obtain s1 where s1: "main_iteration stats k s = Some s1" "node_inv (ms_node s1)"
      "main_fixed (ms_node s1) = main_fixed ((ms_node s)\<lparr>running := running (ms_node s1)\<rparr>)"
      using main_iteration_inv [of s k stats] "3.prems" by auto
    obtain s' where s': "main_loop stats es s1 = Some s'" "node_inv (ms_node s')"
      "main_fixed (ms_node s') = main_fixed ((ms_node s1)\<lparr>running := running (ms_node s')\<rparr>)"
      using "3.IH" [OF True s1(1) s1(2)] "3.prems"(2) by auto
    have "main_fixed ((ms_node s1)\<lparr>running := running (ms_node s')\<rparr>) = main_fixed ((ms_node s)\<lparr>running := running (ms_node s')\<rparr>)"
      using main_fixed_running [OF s1(3), of "running (ms_node s')"] by simp
    with s' True s1(1) show ?thesis by simp
  qed
qed

end
