(* ===== verification/Mesh_Properties.thy ===== *)
theory Mesh_Properties
  imports Vex_Mesh
begin

text \<open>
  The properties of \<^verbatim>\<open>src/mesh.c\<close>: what receiving, relaying and sending do to the node and
  to the other peers, with a sample node on which their hypotheses hold.
\<close>

section \<open>A sample node\<close>

text \<open>A node with two connected peers, on descriptors 4 and 5, and a plain frame of two bytes.\<close>

definition sample_node :: vex_node where
  "sample_node = zero_node\<lparr>default_ttl := VEX_DEFAULT_TTL, relay_enabled := True, running := True,
     peers := [zero_peer\<lparr>fd := 4, peer_active := True\<rparr>, zero_peer\<lparr>fd := 5, peer_active := True\<rparr>] @ replicate 30 zero_peer\<rparr>"

definition sample_frame :: bytes where
  "sample_frame = [1, 11, 12, 13, 14, 15, 16, 17, 18, 7, 0, 104, 105]"

definition idle_world :: world where
  "idle_world = \<lparr>w_writes = [], w_rx = \<lambda>_. [], w_trace = []\<rparr>"

lemma seen_inv_zero [simp]: "seen_inv (node_seen zero_node)"
  by (simp add: seen_inv_def zero_node_def VEX_SEEN_CAPACITY_def)

lemma seen_ids_zero [simp]: "seen_ids (node_seen zero_node) t = {}"
  by (simp add: seen_ids_def seen_held_def holds_id_def zero_node_def)

lemma seen_recent_zero [simp]: "seen_recent (node_seen zero_node) t = 0"
  by (simp add: seen_recent_def zero_node_def)

lemma sample_node_seen [simp]: "node_seen sample_node = node_seen zero_node"
  by (simp add: sample_node_def)

lemma node_inv_sample [simp]: "node_inv sample_node"
proof -
  have "node_shape sample_node"
    using node_shape_zero by (auto simp: node_shape_def sample_node_def zero_peer_def VEX_MAX_PEERS_def)
  moreover have "peers_open sample_node" by (simp add: peers_open_def sample_node_def zero_peer_def)
  ultimately show ?thesis by (simp add: node_inv_def)
qed

lemma targets_sample [simp]:
  "targets sample_node x = (if x = 4 then [] else [4]) @ (if x = 5 then [] else [5])"
  by (simp add: targets_def sample_node_def is_target_def zero_peer_def)

lemma valid_sample_frame [simp]: "valid_frame sample_frame 13"
  by (simp add: valid_frame_def sample_frame_def)

lemma sample_frame_fields [simp]:
  "length sample_frame = 13" "sample_frame ! 9 = 7" "sample_frame ! 10 = 0" "relay_enabled sample_node"
  "default_ttl sample_node = 7"
  by (simp_all add: sample_frame_def sample_node_def VEX_DEFAULT_TTL_def)

lemma writable_idle [simp]: "w_writes idle_world = []" "w_trace idle_world = []"
  by (simp_all add: idle_world_def)

section \<open>Receiving\<close>

text \<open>
  C23. Receiving never leaves a buffer, whatever bytes of at most a packet arrive and whatever
  the writes do. It keeps the node's invariant and its keys and settings, and counts the frame
  either as received or as dropped.
\<close>

theorem mesh_receive_total:
  assumes "node_inv node" and "len \<le> length raw" and "len \<le> VEX_MAX_PACKET"
  shows "\<exists>r node' w'. vex_mesh_receive now1 now2 node raw len source_fd w = Some (r, node', w') \<and>
           node_inv node' \<and> node_fixed node' = node_fixed node \<and> packets_sent node' = packets_sent node \<and>
           (packets_received node' = packets_received node + 1 \<and> packets_dropped node' = packets_dropped node \<or>
            packets_received node' = packets_received node \<and> packets_dropped node' = packets_dropped node + 1)"
  using receive_outcome [OF assms, of now1 now2 source_fd w] by (elim exE conjE) (simp add: sends_only_def split: if_splits)

theorem mesh_receive_total_witness:
  "\<exists>r node' w'. vex_mesh_receive 100 100 sample_node sample_frame 13 4 idle_world = Some (r, node', w') \<and>
     node_inv node' \<and> node_fixed node' = node_fixed sample_node \<and> packets_sent node' = packets_sent sample_node \<and>
     (packets_received node' = packets_received sample_node + 1 \<and> packets_dropped node' = packets_dropped sample_node \<or>
      packets_received node' = packets_received sample_node \<and> packets_dropped node' = packets_dropped sample_node + 1)"
  by (rule mesh_receive_total) simp_all

text \<open>
  C7. Receiving writes to nobody but active peers, never to the peer the frame came from, and
  only if the frame is well formed, new, not at the end of its hops, and relaying is on. This
  holds for every behaviour of the writes.
\<close>

theorem relay_writes_only_to_others:
  assumes "node_inv node" and "len \<le> length raw" and "len \<le> VEX_MAX_PACKET"
    and "vex_mesh_receive now1 now2 node raw len source_fd w = Some (r, node', w')"
  shows "\<exists>evs. w_trace w' = w_trace w @ evs \<and> source_fd \<notin> writes_of evs \<and>
           (\<forall>d \<in> writes_of evs. (\<exists>p \<in> set (peers node). peer_active p \<and> fd p = d) \<and>
              valid_frame raw len \<and> frame_id raw \<notin> seen_ids (node_seen node) now1 \<and>
              relay_enabled node \<and> 1 < raw ! 9)"
proof -
  have "sends_only (if will_relay node now1 raw len then set (targets node source_fd) else {}) node w node' w'"
    using receive_outcome [OF assms(1-3), of now1 now2 source_fd w] assms(4) by auto
  then obtain evs where "w_trace w' = w_trace w @ evs"
    "writes_of evs \<subseteq> (if will_relay node now1 raw len then set (targets node source_fd) else {})"
    by (auto simp: sends_only_def)
  then show ?thesis
    by (intro exI [of _ evs]) (auto simp: will_relay_def targets_def is_target_def split: if_splits)
qed

lemma receive_sample:
  obtains r n v where "vex_mesh_receive 100 100 sample_node sample_frame 13 4 idle_world = Some (r, n, v)"
  using receive_outcome [of sample_node 13 sample_frame 100 100 4 idle_world] by auto

theorem relay_writes_only_to_others_witness:
  "\<exists>r n v evs. vex_mesh_receive 100 100 sample_node sample_frame 13 4 idle_world = Some (r, n, v) \<and>
     w_trace v = evs \<and> 4 \<notin> writes_of evs"
proof -
  obtain r n v where "vex_mesh_receive 100 100 sample_node sample_frame 13 4 idle_world = Some (r, n, v)"
    by (rule receive_sample)
  with relay_writes_only_to_others [OF _ _ _ this] show ?thesis by auto
qed

text \<open>
  C25. A frame that is too short or of another version is counted as dropped with
  result -1; a duplicate within its minute is counted as dropped with result 0. Neither is
  shown, relayed or otherwise visible, and a bad frame does not touch the cache.
\<close>

theorem receive_drops:
  assumes "node_inv node" and "len \<le> length raw" and "len \<le> VEX_MAX_PACKET"
  shows "(\<not> valid_frame raw len \<longrightarrow>
            vex_mesh_receive now1 now2 node raw len source_fd w =
              Some (-1, node\<lparr>packets_dropped := packets_dropped node + 1\<rparr>, w)) \<and>
         (valid_frame raw len \<and> frame_id raw \<in> seen_ids (node_seen node) now1 \<longrightarrow>
            vex_mesh_receive now1 now2 node raw len source_fd w =
              Some (0, node\<lparr>node_seen := snd (vex_seen_check now1 (node_seen node) (frame_id raw)),
                            packets_dropped := packets_dropped node + 1\<rparr>, w))"
  using receive_invalid [OF assms(2,3)] receive_duplicate [OF assms(1)] by blast

theorem receive_drops_witness:
  "vex_mesh_receive 100 100 sample_node [2, 0] 2 4 idle_world =
     Some (-1, sample_node\<lparr>packets_dropped := packets_dropped sample_node + 1\<rparr>, idle_world)"
  using receive_drops [of sample_node 2 "[2, 0]" 100 100 4 idle_world] by (simp add: valid_frame_def)

lemma receive_fresh_accepted:
  assumes "node_inv node" and "valid_frame raw len" and "frame_id raw \<notin> seen_ids (node_seen node) now1"
    and "w_writes w = []"
  shows "\<exists>shown. (shown = [] \<or> (\<exists>t. shown = [EDisplay t (uint (raw ! 9)) (uint (default_ttl node) - uint (raw ! 9))])) \<and>
    vex_mesh_receive now1 now2 node raw len source_fd w =
      (let n = received_node now1 now2 node (frame_id raw) in
       if relay_enabled node \<and> 1 < raw ! 9
       then Some (int (length (targets node source_fd)), n\<lparr>packets_relayed := packets_relayed n + 1\<rparr>,
                  w\<lparr>w_trace := w_trace w @ shown @
                     concat (map (frame_events (relay_frame raw len)) (targets node source_fd))\<rparr>)
       else Some (0, n, w\<lparr>w_trace := w_trace w @ shown\<rparr>))"
proof -
  let ?n = "received_node now1 now2 node (frame_id raw)"
  have len: "length (relay_frame raw len) = len" using assms(2) by simp
  have inv: "node_inv ?n" by (rule received_node_inv [OF assms(1) length_frame_id [OF assms(2)]])
  obtain shown where s: "shown = [] \<or> (\<exists>t. shown = [EDisplay t (uint (raw ! 9)) (uint (default_ttl node) - uint (raw ! 9))])"
    and rcv: "vex_mesh_receive now1 now2 node raw len source_fd w =
      (let w1 = w\<lparr>w_trace := w_trace w @ shown\<rparr> in
       if relay_enabled node then vex_mesh_relay ?n raw len source_fd w1 else Some (0, ?n, w1))"
    using receive_fresh_steps [OF assms(1-3), of now2 source_fd w] by (auto simp: Let_def)
  define w1 where "w1 = w\<lparr>w_trace := w_trace w @ shown\<rparr>"
  have "vex_transport_send_to_all ?n (relay_frame raw len) len source_fd w1 =
      (int (length (targets node source_fd)), ?n,
       w1\<lparr>w_trace := w_trace w1 @ concat (map (frame_events (relay_frame raw len)) (targets node source_fd))\<rparr>)"
    using send_to_all_accept [of w1 ?n len "relay_frame raw len" source_fd] inv assms(4) len
    by (simp add: w1_def node_inv_def)
  then have "vex_mesh_relay ?n raw len source_fd w1 =
      (if raw ! 9 \<le> 1 then Some (0, ?n, w1)
       else Some (int (length (targets node source_fd)), ?n\<lparr>packets_relayed := packets_relayed ?n + 1\<rparr>,
                  w1\<lparr>w_trace := w_trace w1 @ concat (map (frame_events (relay_frame raw len)) (targets node source_fd))\<rparr>))"
    by (simp add: relay_valid [OF assms(2)])
  with rcv have "vex_mesh_receive now1 now2 node raw len source_fd w =
      (if relay_enabled node \<and> 1 < raw ! 9
       then Some (int (length (targets node source_fd)), ?n\<lparr>packets_relayed := packets_relayed ?n + 1\<rparr>,
                  w\<lparr>w_trace := w_trace w @ shown @
                     concat (map (frame_events (relay_frame raw len)) (targets node source_fd))\<rparr>)
       else Some (0, ?n, w\<lparr>w_trace := w_trace w @ shown\<rparr>))"
    by (simp only: Let_def w1_def [symmetric] not_le [symmetric]) (simp add: w1_def)
  with s show ?thesis by (auto simp: Let_def)
qed

text \<open>
  C9. A new well-formed frame, when the writes are accepted: the identifier enters the cache,
  at most one message is shown, and with relaying on and a TTL above 1 every active peer but
  the source gets, in table order, exactly the frame with its TTL byte decremented. Otherwise
  nobody gets anything.
\<close>

theorem receive_relays_exactly:
  assumes "node_inv node" and "valid_frame raw len" and "frame_id raw \<notin> seen_ids (node_seen node) now1"
    and "w_writes w = []"
  shows "\<exists>shown. (shown = [] \<or> (\<exists>t. shown = [EDisplay t (uint (raw ! 9)) (uint (default_ttl node) - uint (raw ! 9))])) \<and>
    vex_mesh_receive now1 now2 node raw len source_fd w =
      (let n = received_node now1 now2 node (frame_id raw) in
       if relay_enabled node \<and> 1 < raw ! 9
       then Some (int (length (targets node source_fd)), n\<lparr>packets_relayed := packets_relayed n + 1\<rparr>,
                  w\<lparr>w_trace := w_trace w @ shown @
                     concat (map (frame_events ((take len raw)[9 := raw ! 9 - 1])) (targets node source_fd))\<rparr>)
       else Some (0, n, w\<lparr>w_trace := w_trace w @ shown\<rparr>))"
  by (rule receive_fresh_accepted [OF assms, unfolded relay_frame_def])

theorem receive_relays_exactly_witness:
  "\<exists>r n v shown. vex_mesh_receive 100 100 sample_node sample_frame 13 4 idle_world = Some (r, n, v) \<and> r = 1 \<and>
     w_trace v = shown @ [EWrite 5 [0, 13], EWrite 5 [1, 11, 12, 13, 14, 15, 16, 17, 18, 6, 0, 104, 105]]"
proof -
  from receive_relays_exactly [of sample_node sample_frame 13 100 idle_world 100 4]
  obtain shown where "vex_mesh_receive 100 100 sample_node sample_frame 13 4 idle_world =
      (let n = received_node 100 100 sample_node (frame_id sample_frame) in
       Some (1, n\<lparr>packets_relayed := packets_relayed n + 1\<rparr>,
             idle_world\<lparr>w_trace := shown @ concat (map (frame_events (sample_frame[9 := 6])) [5])\<rparr>))"
    by (auto simp: Let_def)
  then show ?thesis by (simp add: Let_def frame_events_def frame_header_def sample_frame_def)
qed

text \<open>
  C2. At most once: after a frame was accepted, every further frame with its identifier that
  comes within 60 seconds, whatever its TTL and payload and from whatever peer, is neither
  shown nor relayed - through any sequence of receives, sends and prunings in between, as long
  as their number and the recent cache entries stay within the cache's 1000 slots.
\<close>

theorem relayed_at_most_once:
  assumes "node_inv node" and "valid_frame raw len" and "frame_id raw \<notin> seen_ids (node_seen node) now1"
    and "vex_mesh_receive now1 t0 node raw len src w = Some (r, node1, w1)"
    and "\<forall>x \<in> set xs. op_until (t0 + VEX_SEEN_TTL_SEC) x"
    and "Suc (seen_recent (node_seen node) t0) + length xs \<le> VEX_SEEN_CAPACITY"
    and "valid_frame raw' len'" and "frame_id raw' = frame_id raw" and "now2 \<le> t0 + VEX_SEEN_TTL_SEC"
  shows "\<exists>node2 w2. mesh_run xs (node1, w1) = Some (node2, w2) \<and>
           (\<forall>t src'. \<exists>node3. vex_mesh_receive now2 t node2 raw' len' src' w2 = Some (0, node3, w2))"
proof -
  let ?c = "snd (vex_seen_check now1 (node_seen node) (frame_id raw))"
  have len: "len \<le> length raw" "len \<le> VEX_MAX_PACKET" using assms(2) by (simp_all add: valid_frame_def)
  have c: "seen_inv ?c" using assms(1) by (simp add: node_inv_def seen_inv_check)
  have n1: "node_inv node1" "node_seen node1 = vex_seen_add t0 ?c (frame_id raw)"
    using receive_outcome [OF assms(1) len, of now1 t0 src w] assms(2-4)
    by (auto simp: receive_ops_def sends_only_def)
  have "seen_held (node_seen node1) (frame_id raw) t0"
    unfolding n1(2) by (rule held_added [OF c]) (simp add: length_frame_id [OF assms(2)])
  moreover have "seen_recent (node_seen node1) t0 \<le> Suc (seen_recent (node_seen node) t0)"
    unfolding n1(2) using recent_add [OF c] aged_recent [OF check_aged] by (meson Suc_le_mono order_trans)
  ultimately show ?thesis
    using assms(5-9) length_frame_id [OF assms(2)] by (intro seen_then_dropped [OF n1(1), of _ t0]) auto
qed

theorem relayed_at_most_once_witness:
  "\<exists>r1 n1 v1 n2 v2 n3. vex_mesh_receive 100 100 sample_node sample_frame 13 4 idle_world = Some (r1, n1, v1) \<and>
     mesh_run [Prune_cache 120] (n1, v1) = Some (n2, v2) \<and>
     vex_mesh_receive 159 159 n2 (sample_frame[9 := 3]) 13 5 v2 = Some (0, n3, v2)"
proof -
  obtain r n v where rcv: "vex_mesh_receive 100 100 sample_node sample_frame 13 4 idle_world = Some (r, n, v)"
    by (rule receive_sample)
  have "valid_frame (sample_frame[9 := 3]) 13" "frame_id (sample_frame[9 := 3]) = frame_id sample_frame"
    by (simp_all add: valid_frame_def frame_id_def sample_frame_def)
  from relayed_at_most_once [OF _ _ _ rcv _ _ this, of "[Prune_cache 120]" 159] rcv show ?thesis
    by (fastforce simp: VEX_SEEN_TTL_SEC_def VEX_SEEN_CAPACITY_def)
qed

section \<open>Sending\<close>

lemma send_accepted:
  assumes "node_inv node" and "w_writes w = []" and len: "length (c_string message) \<le> 401"
  shows "vex_mesh_send rnd1 rnd2 now node message w =
     Some (int (length (targets node (-1))),
           node\<lparr>node_seen := vex_seen_add now (node_seen node) (sent_id rnd1 rnd2 node message),
                packets_sent := packets_sent node + 1\<rparr>,
           w\<lparr>w_trace := w_trace w @ concat (map (frame_events (sent_frame rnd1 rnd2 node message)) (targets node (-1)))\<rparr>)"
proof -
  let ?n = "node\<lparr>node_seen := vex_seen_add now (node_seen node) (sent_id rnd1 rnd2 node message)\<rparr>"
  let ?f = "sent_frame rnd1 rnd2 node message"
  have "peers_open ?n" using assms(1) by (simp add: node_inv_def peers_open_def)
  from send_to_all_accept [OF assms(2) this order_refl [of "length ?f"], of "-1"]
  have "vex_transport_send_to_all ?n ?f (length ?f) (-1) w =
      (int (length (targets node (-1))), ?n, w\<lparr>w_trace := w_trace w @ concat (map (frame_events ?f) (targets node (-1)))\<rparr>)"
    by (simp add: targets_def)
  then show ?thesis by (simp add: mesh_send_frame [OF len] Let_def)
qed

text \<open>
  C24. Sending a message of at most 401 bytes, with writes that are accepted: one and the same
  frame goes to every active peer, and the result is their number. A longer message is refused
  with -1 and changes nothing.
\<close>

theorem mesh_send_exactly:
  assumes "node_inv node" and "w_writes w = []"
  shows "vex_mesh_send rnd1 rnd2 now node message w =
    (if length (c_string message) > 401 then Some (-1, node, w)
     else Some (int (length (targets node (-1))),
                node\<lparr>node_seen := vex_seen_add now (node_seen node) (sent_id rnd1 rnd2 node message),
                     packets_sent := packets_sent node + 1\<rparr>,
                w\<lparr>w_trace := w_trace w @
                   concat (map (frame_events (sent_frame rnd1 rnd2 node message)) (targets node (-1)))\<rparr>))"
  using send_accepted [OF assms] by (simp add: mesh_send_too_long)

text \<open>Two bytes of text.\<close>

lemma c_string_hi [simp]: "c_string [104, 105, 0] = [104, 105]"
  by (simp add: c_string_def)

theorem mesh_send_exactly_witness:
  "\<exists>n v. vex_mesh_send (Urandom []) (Urandom []) 100 sample_node [104, 105, 0] idle_world = Some (2, n, v) \<and>
     packets_sent n = 1 \<and> length (w_trace v) = 4"
  using mesh_send_exactly [of sample_node idle_world "Urandom []" "Urandom []" 100 "[104, 105, 0]"]
  by (simp add: frame_events_def) (simp add: sample_node_def zero_node_def)

lemma deliver_message:
  assumes "length (c_string message) \<le> 401" and "raw = (sent_frame rnd1 rnd2 sender message)[9 := t]"
    and "node_inv receiver" and "mesh_key receiver = mesh_key sender"
    and "sent_id rnd1 rnd2 sender message \<notin> seen_ids (node_seen receiver) now1"
    and "w_writes w = []"
  shows "\<exists>r node' w'. vex_mesh_receive now1 now2 receiver raw (length raw) src w = Some (r, node', w') \<and>
           w_trace w' = w_trace w @
             [EDisplay (c_string message) (uint t) (uint (default_ttl receiver) - uint t)] @
             (if relay_enabled receiver \<and> 1 < t
              then concat (map (frame_events (raw[9 := t - 1])) (targets receiver src)) else [])"
proof -
  let ?f = "sent_frame rnd1 rnd2 sender message" and ?nonce = "randombytes rnd1 (replicate 24 0) 24"
  have len: "length raw = 51 + length (c_string message)" using assms(1,2) by (simp add: length_sent_frame)
  have v: "valid_frame raw (length raw)"
    using valid_sent_frame [OF assms(1), of rnd1 rnd2 sender] assms(2) by (simp add: valid_frame_def)
  have fid: "frame_id raw = sent_id rnd1 rnd2 sender message"
    using frame_id_sent_frame [of rnd1 rnd2 sender message] by (simp add: assms(2) frame_id_def drop_update_swap take_update_cancel)
  have fields: "raw ! 9 = t" "raw ! 10 AND VEX_FLAG_ENCRYPTED \<noteq> 0"
    "drop 11 raw = sealed_message ?nonce (mesh_key receiver) (c_string message)"
    using assms(4) by (simp_all add: assms(2) sent_frame_def sent_id_def sent_payload_def nth_append nth_Cons'
        VEX_FLAG_ENCRYPTED_def VEX_FLAG_BROADCAST_def list_update_append drop_Cons')
  let ?n = "received_node now1 now2 receiver (frame_id raw)"
  let ?w = "emit (EDisplay (c_string message) (uint t) (uint (default_ttl receiver) - uint t)) w"
  have fresh: "frame_id raw \<notin> seen_ids (node_seen receiver) now1" by (simp add: fid assms(5))
  have "0 \<notin> set (c_string message)" by (auto simp: c_string_def dest: set_takeWhileD)
  from receive_sealed [OF assms(3) v fresh fields(2,3) _ _ this, of now2 src w] assms(1)
  have rcv: "vex_mesh_receive now1 now2 receiver raw (length raw) src w =
      (if relay_enabled receiver then vex_mesh_relay ?n raw (length raw) src ?w else Some (0, ?n, ?w))"
    by (simp add: fields(1) Let_def)
  have "peers_open ?n" using received_node_inv [OF assms(3) length_frame_id [OF v]] by (simp add: node_inv_def)
  from send_to_all_accept [OF _ this, of ?w "length raw" "relay_frame raw (length raw)" src] assms(6) v
  have "vex_transport_send_to_all ?n (relay_frame raw (length raw)) (length raw) src ?w =
      (int (length (targets receiver src)), ?n,
       ?w\<lparr>w_trace := w_trace ?w @ concat (map (frame_events (raw[9 := t - 1])) (targets receiver src))\<rparr>)"
    by (simp add: relay_frame_def fields(1))
  then show ?thesis
    by (simp add: rcv relay_valid [OF v] fields(1) not_le [symmetric])
qed



text \<open>
  C22. A node does not process its own messages: once it sent one, a frame with that identifier
  that comes back within 60 seconds is dropped without being shown or relayed, through any
  sequence of calls that fits the cache.
\<close>

theorem own_message_is_dropped:
  assumes "node_inv node" and "length (c_string message) \<le> 401"
    and "vex_mesh_send rnd1 rnd2 t0 node message w = Some (r, node1, w1)"
    and "\<forall>x \<in> set xs. op_until (t0 + VEX_SEEN_TTL_SEC) x"
    and "Suc (seen_recent (node_seen node) t0) + length xs \<le> VEX_SEEN_CAPACITY"
    and "valid_frame raw len" and "frame_id raw = sent_id rnd1 rnd2 node message"
    and "now \<le> t0 + VEX_SEEN_TTL_SEC"
  shows "\<exists>node2 w2. mesh_run xs (node1, w1) = Some (node2, w2) \<and>
           (\<forall>t src. \<exists>node3. vex_mesh_receive now t node2 raw len src w2 = Some (0, node3, w2))"
proof -
  let ?i = "sent_id rnd1 rnd2 node message"
  have c: "seen_inv (node_seen node)" using assms(1) by (simp add: node_inv_def)
  have n1: "node_inv node1" "node_seen node1 = vex_seen_add t0 (node_seen node) ?i"
    using mesh_send_outcome [OF assms(1), of rnd1 rnd2 t0 message w] assms(2,3) by (auto simp: sends_only_def)
  have i: "length ?i = 8" by (simp add: sent_id_def)
  have "seen_held (node_seen node1) ?i t0" unfolding n1(2) by (rule held_added [OF c i])
  moreover have "seen_recent (node_seen node1) t0 \<le> Suc (seen_recent (node_seen node) t0)"
    unfolding n1(2) by (rule recent_add [OF c])
  ultimately show ?thesis
    using assms(4-8) i by (intro seen_then_dropped [OF n1(1), of _ t0]) auto
qed

theorem own_message_is_dropped_witness:
  "\<exists>r n1 v1 n2 v2 n3. vex_mesh_send (Urandom []) (Urandom []) 100 sample_node [104, 105, 0] idle_world = Some (r, n1, v1) \<and>
     mesh_run [Prune_cache 150] (n1, v1) = Some (n2, v2) \<and>
     vex_mesh_receive 160 160 n2 (sent_frame (Urandom []) (Urandom []) sample_node [104, 105, 0]) 53 5 v2 = Some (0, n3, v2)"
proof -
  let ?f = "sent_frame (Urandom []) (Urandom []) sample_node [104, 105, 0]"
  obtain r n1 v1 where s: "vex_mesh_send (Urandom []) (Urandom []) 100 sample_node [104, 105, 0] idle_world = Some (r, n1, v1)"
    using mesh_send_outcome [of sample_node "Urandom []" "Urandom []" 100 "[104, 105, 0]" idle_world] by auto
  have v: "valid_frame ?f 53"
    using valid_sent_frame [of "[104, 105, 0]" "Urandom []" "Urandom []" sample_node]
      length_sent_frame [of "[104, 105, 0]" "Urandom []" "Urandom []" sample_node] by simp
  have "\<exists>node2 w2. mesh_run [Prune_cache 150] (n1, v1) = Some (node2, w2) \<and>
      (\<forall>t src. \<exists>node3. vex_mesh_receive 160 t node2 ?f 53 src w2 = Some (0, node3, w2))"
    by (rule own_message_is_dropped [OF _ _ s _ _ v]) (simp_all add: VEX_SEEN_TTL_SEC_def VEX_SEEN_CAPACITY_def)
  with s show ?thesis by blast
qed

section \<open>Initialisation\<close>

text \<open>
  C29. Initialising always succeeds, inside its buffers, with or without key files, home
  directory and random source: the node satisfies the invariant, has the shared mesh key, no
  peers and an empty cache, relays with the default TTL, and is named after its public key.
\<close>

theorem mesh_init_ok:
  "\<exists>n fs'. vex_mesh_init home now rnd1 rnd2 fs = Some (0, n, fs') \<and> node_inv n \<and>
     mesh_key n = take 32 (crypto_hash VEX_SERVICE_UUID (length VEX_SERVICE_UUID)) \<and>
     default_ttl n = 7 \<and> relay_enabled n \<and> running n \<and> listen_fd n = -1 \<and> started_at n = now \<and>
     peer_count n = 0 \<and> filter peer_active (peers n) = [] \<and> (\<forall>t. seen_ids (node_seen n) t = {}) \<and>
     c_string (node_name n) = str_bytes ''vex-'' @ hex_text (take 4 (sign_pk n))"
proof -
  obtain n fs' where 1: "vex_mesh_init home now rnd1 rnd2 fs = Some (0, n, fs')"
    and len: "length (sign_pk n) = 32" "length (sign_sk n) = 64" "length (box_pk n) = 32" "length (box_sk n) = 32"
      "length (node_name n) = 64" "mesh_key n = the_mesh_key"
    and name: "c_string (node_name n) = str_bytes ''vex-'' @ hex_text (take 4 (sign_pk n))"
    and n: "n = zero_node\<lparr>default_ttl := VEX_DEFAULT_TTL, scan_interval := VEX_SCAN_INTERVAL, relay_enabled := True,
           running := True, started_at := now, listen_fd := -1, node_seen := vex_seen_init (node_seen zero_node),
           sign_pk := sign_pk n, sign_sk := sign_sk n, box_pk := box_pk n, box_sk := box_sk n,
           mesh_key := mesh_key n, node_name := node_name n\<rparr>"
    using mesh_init_result [of home now rnd1 rnd2 fs] by blast
  have f: "peers n = replicate 32 zero_peer" "node_seen n = vex_seen_init (node_seen zero_node)" "default_ttl n = 7"
    "relay_enabled n" "running n" "listen_fd n = -1" "started_at n = now" "peer_count n = 0"
    by (subst n; simp add: zero_node_def VEX_MAX_PEERS_def VEX_DEFAULT_TTL_def)+
  have "node_inv n"
    using len f by (simp add: node_inv_def node_shape_def peers_open_def zero_peer_def VEX_MAX_PEERS_def seen_inv_init)
  moreover have "seen_ids (node_seen n) t = {}" for t
    by (simp add: f seen_ids_def seen_held_def holds_id_def vex_seen_init_def)
  ultimately show ?thesis using 1 len(6) f name by (simp add: the_mesh_key_def zero_peer_def)
qed

end
