(* ===== verification/Main_Properties.thy ===== *)
theory Main_Properties
  imports Vex_Main Mesh_Properties
begin

text \<open>
  The properties of \<^verbatim>\<open>src/main.c\<close>: the start of a node, the commands, the invariant of the main
  loop, its maintenance, the bookkeeping of peers, and the cleanup.
\<close>

section \<open>A sample iteration\<close>

definition sample_tick :: "bytes option \<Rightarrow> int \<Rightarrow> tick" where
  "sample_tick line now = \<lparr>poll_ok = True, readable = \<lambda>_. True, input_line = line, accepts = \<lambda>_. Accept_again,
     t_accept = \<lambda>_. now, t_read = \<lambda>_. now, t_check = \<lambda>_. now, t_add = \<lambda>_. now, t_send = now, t_print = now,
     send_rnd1 = Urandom [], send_rnd2 = Urandom [], t_end = now\<rparr>"

definition sample_state :: main_state where
  "sample_state = \<lparr>ms_node = sample_node, ms_world = idle_world, last_prune = 0, last_stats = 0\<rparr>"

lemma sample_tick_simps [simp]:
  "poll_ok (sample_tick line now)" "readable (sample_tick line now) i" "input_line (sample_tick line now) = line"
  "accept_ok (accepts (sample_tick line now) i)" "t_end (sample_tick line now) = now"
  by (simp_all add: sample_tick_def accept_ok_def)

lemma sample_state_simps [simp]: "ms_node sample_state = sample_node" "ms_world sample_state = idle_world"
  "last_prune sample_state = 0"
  by (simp_all add: sample_state_def)

lemma running_sample [simp]: "running sample_node" by (simp add: sample_node_def)

lemma peers_sample:
  "peers sample_node = zero_peer\<lparr>fd := 4, peer_active := True\<rparr> # zero_peer\<lparr>fd := 5, peer_active := True\<rparr> # replicate 30 zero_peer"
  by (simp add: sample_node_def)

section \<open>The loop\<close>



lemma main_loop_stopped:
  "\<not> running (ms_node s) \<Longrightarrow> main_loop stats es s = Some s"
proof (induction stats es s rule: main_loop.induct)
  case (2 stats es s)
  then have e: "(ms_node s)\<lparr>running := False\<rparr> = ms_node s" by (cases "ms_node s") simp
  with 2 show ?case by (simp add: handle_signal_def e)
qed simp_all

text \<open>
  The commands: \<^verbatim>\<open>/quit\<close> and \<^verbatim>\<open>/q\<close> clear the running flag, nothing else changes, and no
  later iteration happens; \<^verbatim>\<open>/peers\<close>, \<^verbatim>\<open>/stats\<close> and an empty line leave the node alone and
  send nothing; all of them end the iteration before any socket is looked at.
\<close>

lemma commands_end_the_iteration:
  assumes "poll_ok k" and "readable k 0" and "input_line k = Some line" and "running (ms_node s)"
  shows "(strip_newline line \<in> {str_bytes ''/quit'', str_bytes ''/q''} \<longrightarrow>
            main_loop stats (Iterate k # es) s = Some (s\<lparr>ms_node := (ms_node s)\<lparr>running := False\<rparr>\<rparr>)) \<and>
         (strip_newline line \<in> {[], str_bytes ''/peers'', str_bytes ''/stats''} \<longrightarrow>
            (\<exists>evs. main_loop stats (Iterate k # es) s =
                     main_loop stats es (s\<lparr>ms_world := (ms_world s)\<lparr>w_trace := w_trace (ms_world s) @ evs\<rparr>\<rparr>) \<and>
                   writes_of evs = {}))"
proof (intro conjI impI)
  assume c: "strip_newline line \<in> {str_bytes ''/quit'', str_bytes ''/q''}"
  then have "handle_input k line (ms_node s) (ms_world s) =
      Some (False, (ms_node s)\<lparr>running := False\<rparr>, ms_world s)"
    by (auto simp: handle_input_def Let_def str_bytes_def)
  with assms show "main_loop stats (Iterate k # es) s = Some (s\<lparr>ms_node := (ms_node s)\<lparr>running := False\<rparr>\<rparr>)"
    by (simp add: main_iteration_def Let_def main_loop_stopped)
next
  assume c: "strip_newline line \<in> {[], str_bytes ''/peers'', str_bytes ''/stats''}"
  have "\<exists>evs. handle_input k line (ms_node s) (ms_world s) =
      Some (False, ms_node s, (ms_world s)\<lparr>w_trace := w_trace (ms_world s) @ evs\<rparr>) \<and> writes_of evs = {}"
    using c
  proof (elim insertE emptyE)
    assume "strip_newline line = []"
    then show ?thesis by (intro exI [of _ "[]"]) (simp add: handle_input_def writes_of_def)
  qed (auto simp: handle_input_def Let_def str_bytes_def print_peers_def print_stats_def emit_def writes_of_def)
  then obtain evs where evs: "handle_input k line (ms_node s) (ms_world s) =
      Some (False, ms_node s, (ms_world s)\<lparr>w_trace := w_trace (ms_world s) @ evs\<rparr>)" "writes_of evs = {}" by blast
  have u: "s\<lparr>ms_node := ms_node s, ms_world := v\<rparr> = s\<lparr>ms_world := v\<rparr>" for v by simp
  show "\<exists>evs. main_loop stats (Iterate k # es) s =
      main_loop stats es (s\<lparr>ms_world := (ms_world s)\<lparr>w_trace := w_trace (ms_world s) @ evs\<rparr>\<rparr>) \<and> writes_of evs = {}"
    using assms evs by (intro exI [of _ evs]) (simp add: main_iteration_def Let_def u)
qed

lemma strip_quit [simp]: "strip_newline [47, 113, 117, 105, 116, 10, 0] = str_bytes ''/quit''"
  by (simp add: strip_newline_def c_string_def str_bytes_def)

lemma commands_end_the_iteration_example:
  "main_loop False [Iterate (sample_tick (Some [47, 113, 117, 105, 116, 10, 0]) 100), Iterate (sample_tick None 101)] sample_state =
   Some (sample_state\<lparr>ms_node := sample_node\<lparr>running := False\<rparr>\<rparr>)"
  using commands_end_the_iteration [of "sample_tick (Some [47, 113, 117, 105, 116, 10, 0]) 100" _ sample_state] by simp

lemma strip_newline_line:
  assumes "0 \<notin> set msg" and "msg \<noteq> []"
  shows "strip_newline (msg @ 10 # 0 # r) = msg"
proof -
  have "c_string ((msg @ [10]) @ 0 # r) = msg @ [10]" by (rule c_string_append_nul) (use assms in auto)
  then show ?thesis by (simp add: strip_newline_def)
qed

text \<open>
  C33. What the user types is what goes out: a line that is not a command, up to 401 bytes, is
  broadcast to every active peer without its newline, in one encrypted frame.
\<close>

theorem typed_line_is_broadcast:
  assumes "node_inv node" and "w_writes w = []" and "0 \<notin> set msg" and "msg \<noteq> []" and "length msg \<le> 401"
    and "msg \<notin> {str_bytes ''/quit'', str_bytes ''/q'', str_bytes ''/peers'', str_bytes ''/stats''}"
  shows "\<exists>node'. handle_input k (msg @ 10 # 0 # r) node w =
     Some (True, node', w\<lparr>w_trace := w_trace w @
       concat (map (frame_events (sent_frame (send_rnd1 k) (send_rnd2 k) node (msg @ [0]))) (targets node (-1)))\<rparr>) \<and>
     packets_sent node' = packets_sent node + 1 \<and> c_string (msg @ [0]) = msg"
proof -
  have c: "c_string (msg @ [0]) = msg" using assms(3) by (rule c_string_append_nul)
  let ?f = "sent_frame (send_rnd1 k) (send_rnd2 k) node (msg @ [0])"
  let ?n = "node\<lparr>node_seen := vex_seen_add (t_send k) (node_seen node) (sent_id (send_rnd1 k) (send_rnd2 k) node (msg @ [0]))\<rparr>"
  have "peers_open ?n" using assms(1) by (simp add: node_inv_def peers_open_def)
  from send_to_all_accept [OF assms(2) this order_refl [of "length ?f"], of "-1"]
  have "vex_transport_send_to_all ?n ?f (length ?f) (-1) w =
      (int (length (targets node (-1))), ?n, w\<lparr>w_trace := w_trace w @ concat (map (frame_events ?f) (targets node (-1)))\<rparr>)"
    by (simp add: targets_def)
  then have "\<exists>r node'. vex_mesh_send (send_rnd1 k) (send_rnd2 k) (t_send k) node (msg @ [0]) w =
      Some (r, node', w\<lparr>w_trace := w_trace w @ concat (map (frame_events ?f) (targets node (-1)))\<rparr>) \<and>
      packets_sent node' = packets_sent node + 1"
    using mesh_send_frame [of "msg @ [0]" "send_rnd1 k" "send_rnd2 k" "t_send k" node w] assms(5) c by (simp add: Let_def)
  with assms(4,6) c strip_newline_line [OF assms(3,4), of r] show ?thesis
    by (auto simp: handle_input_def Let_def)
qed

theorem typed_line_is_broadcast_witness:
  "\<exists>node' v. handle_input (sample_tick None 100) ([104, 105] @ [10, 0]) sample_node idle_world = Some (True, node', v) \<and>
     length (w_trace v) = 4"
  using typed_line_is_broadcast [of sample_node idle_world "[104, 105]" "sample_tick None 100" "[]"]
  by (auto simp: str_bytes_def frame_events_def)

section \<open>Maintenance\<close>

lemma pruned_entries:
  assumes "seen_inv c" and "e \<in> set (entries (vex_seen_prune now c))" and "active e"
  shows "\<not> expired now e \<and> e \<in> set (entries c)"
proof -
  have split: "set (entries c) = set (take (count c) (entries c)) \<union> set (drop (count c) (entries c))"
    by (metis append_take_drop_id set_append)
  have "\<forall>e \<in> set (drop (count c) (entries c)). \<not> active e" using assms(1) by (simp add: seen_inv_def)
  with assms(2,3) show ?thesis
    unfolding vex_seen_prune_def split by (auto split: if_splits)
qed



section \<open>Bookkeeping of peers\<close>

text \<open>The number of active slots of the peer table, which \<^verbatim>\<open>peer_count\<close> is meant to be.\<close>

definition active_count :: "vex_node \<Rightarrow> int" where
  "active_count n = int (length (filter peer_active (peers n)))"

lemma failed_send_first:
  assumes "peers_open node" and "peers node = p # ps" and "is_target x p" and "w_writes w = [Write_error]"
  shows "\<exists>r w'. vex_transport_send_to_all node data (length data) x w = (r, node\<lparr>peers := p\<lparr>peer_active := False\<rparr> # ps\<rparr>, w')"
proof -
  have p: "peer_active p" "fd p \<noteq> x" "0 \<le> fd p" using assms(1-3) by (auto simp: is_target_def peers_open_def)
  let ?w1 = "sys_close (fd p) (w\<lparr>w_writes := []\<rparr>)"
  have "vex_transport_send_to_peer p data (length data) w = (-1, p\<lparr>peer_active := False\<rparr>, ?w1)"
    using p assms(4) by (simp add: vex_transport_send_to_peer_def sys_write_def drop_peer_def)
  moreover have "\<exists>r v. send_loop ps data (length data) x ?w1 = (r, ps, v)"
    using send_loop_accept [of ?w1 ps "length data" data x] assms(1,2)
    by (simp add: sys_close_def peers_open_def)
  ultimately show ?thesis
    using p by (auto simp: vex_transport_send_to_all_def assms(2))
qed

text \<open>
  C35. \<^verbatim>\<open>peer_count\<close> drifts away from the number of connected peers. A read that fails on a
  one-byte header lowers it although the peer stays connected; a failed send closes the peer
  without lowering it, and the main loop, which skips inactive peers, never makes up for it.
\<close>

theorem peer_count_drifts:
  assumes "node_inv node" and "peers node = p # ps" and "peer_active p"
  shows "(w_rx w (fd p) = [Chunk [b]] \<longrightarrow>
            (\<exists>node' w'. peer_step k 0 (node, w) = Some (node', w') \<and>
               peer_count node' = peer_count node - 1 \<and> active_count node' = active_count node)) \<and>
         (w_writes w = [Write_error] \<and> fd p \<noteq> x \<longrightarrow>
            (\<exists>r node' w'. vex_transport_send_to_all node data (length data) x w = (r, node', w') \<and>
               peer_count node' = peer_count node \<and> active_count node' = active_count node - 1 \<and>
               peer_step k 0 (node', w') = Some (node', w')))"
proof (intro conjI impI)
  assume "w_rx w (fd p) = [Chunk [b]]"
  then have "vex_transport_unix_read p (replicate 512 0) 512 (t_read k 0) w =
      Some (-1, p, replicate 512 0, w\<lparr>w_rx := (w_rx w)(fd p := [])\<rparr>)"
    using assms(3) by (simp add: vex_transport_unix_read_def sys_read_def)
  then show "\<exists>node' w'. peer_step k 0 (node, w) = Some (node', w') \<and>
      peer_count node' = peer_count node - 1 \<and> active_count node' = active_count node"
    using assms(2,3) by (simp add: peer_step_def active_count_def)
next
  assume a: "w_writes w = [Write_error] \<and> fd p \<noteq> x"
  have "peers_open node" "is_target x p" using assms a by (simp_all add: node_inv_def is_target_def)
  with failed_send_first [of node p ps x w data] assms(2) a
  obtain r w' where "vex_transport_send_to_all node data (length data) x w =
      (r, node\<lparr>peers := p\<lparr>peer_active := False\<rparr> # ps\<rparr>, w')" by blast
  with assms(2,3) show "\<exists>r node' w'. vex_transport_send_to_all node data (length data) x w = (r, node', w') \<and>
      peer_count node' = peer_count node \<and> active_count node' = active_count node - 1 \<and>
      peer_step k 0 (node', w') = Some (node', w')"
    by (simp add: active_count_def peer_step_def)
qed

theorem peer_count_drifts_witness:
  "\<exists>r n v. vex_transport_send_to_all sample_node [1, 2, 3] 3 (-1) (idle_world\<lparr>w_writes := [Write_error]\<rparr>) = (r, n, v) \<and>
     peer_count n = peer_count sample_node \<and> active_count n = active_count sample_node - 1"
  using peer_count_drifts [OF node_inv_sample peers_sample, of "idle_world\<lparr>w_writes := [Write_error]\<rparr>"
      0 "sample_tick None 100" "-1" "[1, 2, 3]"]
  by (auto simp: numeral_3_eq_3)

section \<open>Start and end\<close>

lemma parse_options_peers:
  "parse_options os c = Inr c' \<Longrightarrow> length (peer_paths c) \<le> VEX_MAX_PEERS \<Longrightarrow> length (peer_paths c') \<le> VEX_MAX_PEERS"
  by (induction os c rule: parse_options.induct) (auto split: if_splits)

lemma connect_loop_inv:
  assumes "node_inv node" and "\<forall>(res, t) \<in> set rs. \<forall>d. res = Connected d \<longrightarrow> 0 \<le> d"
  shows "\<exists>node' w'. connect_loop ps rs node w = Some (node', w') \<and> node_inv node' \<and> main_fixed node' = main_fixed node"
  using assms
proof (induction ps arbitrary: rs node w)
  case (Cons p ps)
  show ?case
  proof (cases rs)
    case (Cons r rs')
    obtain res now where r: "r = (res, now)" by (cases r)
    obtain q n1 w1 where c: "vex_transport_unix_connect res now node p w = Some (q, n1, w1)" "node_inv n1"
      "main_fixed n1 = main_fixed node"
      using connect_inv [OF Cons.prems(1), of res now p w] Cons.prems(2) \<open>rs = r # rs'\<close> r by auto
    obtain n2 w2 where "connect_loop ps rs' n1 w1 = Some (n2, w2)" "node_inv n2" "main_fixed n2 = main_fixed n1"
      using Cons.IH [OF c(2), of rs' w1] Cons.prems(2) \<open>rs = r # rs'\<close> by auto
    with c \<open>rs = r # rs'\<close> r show ?thesis by simp
  qed (use Cons.prems in simp)
qed simp

text \<open>What the options stand for.\<close>

lemma strncpy_name:
  assumes "length dst = 64" and "dst ! 63 = 0"
  shows "\<exists>t. strncpy_to dst n 63 = Some t \<and> length t = 64 \<and> c_string t = take 63 (c_string n)"
proof -
  define u where "u = take 63 (c_string n)"
  have u: "length u \<le> 63" "0 \<notin> set u" by (auto simp: u_def dest: in_set_takeD)
  have "drop 63 dst = [0]"
    using Cons_nth_drop_Suc [of 63 dst] assms by simp
  then have t: "strncpy_to dst n 63 = Some (u @ replicate (63 - length u) 0 @ [0])"
    using assms(1) u(1) unfolding strncpy_to_def Let_def u_def [symmetric] by simp
  have "replicate (63 - length u) 0 @ [0 :: u8] = 0 # replicate (63 - length u) 0"
    by (simp add: replicate_append_same)
  then have "c_string (u @ replicate (63 - length u) 0 @ [0]) = u" using c_string_append_nul [OF u(2)] by simp
  with t u show ?thesis unfolding u_def [symmetric] by simp
qed

lemma mesh_init_node_inv:
  "\<exists>n fs'. vex_mesh_init home now rnd1 rnd2 fs = Some (0, n, fs') \<and> node_inv n \<and> node_name n ! 63 = 0 \<and>
     c_string (node_name n) = str_bytes ''vex-'' @ hex_text (take 4 (sign_pk n))"
proof -
  obtain n fs' where 1: "vex_mesh_init home now rnd1 rnd2 fs = Some (0, n, fs')"
    and len: "length (sign_pk n) = 32" "length (sign_sk n) = 64" "length (box_pk n) = 32" "length (box_sk n) = 32"
      "length (node_name n) = 64" "node_name n ! 63 = 0" "mesh_key n = the_mesh_key"
    and name: "c_string (node_name n) = str_bytes ''vex-'' @ hex_text (take 4 (sign_pk n))"
    and n: "n = zero_node\<lparr>default_ttl := VEX_DEFAULT_TTL, scan_interval := VEX_SCAN_INTERVAL, relay_enabled := True,
           running := True, started_at := now, listen_fd := -1, node_seen := vex_seen_init (node_seen zero_node),
           sign_pk := sign_pk n, sign_sk := sign_sk n, box_pk := box_pk n, box_sk := box_sk n,
           mesh_key := mesh_key n, node_name := node_name n\<rparr>"
    using mesh_init_result [of home now rnd1 rnd2 fs] by blast
  have "peers n = replicate 32 zero_peer" "node_seen n = vex_seen_init (node_seen zero_node)"
    by (subst n; simp add: zero_node_def VEX_MAX_PEERS_def)+
  with len have "node_inv n"
    by (simp add: node_inv_def node_shape_def peers_open_def zero_peer_def VEX_MAX_PEERS_def seen_inv_init)
  with 1 len(6) name show ?thesis by simp
qed

lemma node_inv_settings [simp]:
  "node_inv (n\<lparr>default_ttl := a\<rparr>) = node_inv n"
  "node_inv (n\<lparr>relay_enabled := b\<rparr>) = node_inv n"
  "node_inv (n\<lparr>listen_fd := c\<rparr>) = node_inv n"
  "length nm = 64 \<Longrightarrow> node_inv n \<Longrightarrow> node_inv (n\<lparr>node_name := nm\<rparr>)"
  by (simp_all add: node_inv_def node_shape_def peers_open_def)



text \<open>
  The cleanup closes the listening socket and the descriptor of every active peer, in table
  order, each once per slot, and nothing else.
\<close>

lemma cleanup_closes_all:
  assumes "node_inv node"
  shows "main_cleanup node w = w\<lparr>w_trace := w_trace w @
     (if listen_fd node \<ge> 0 then [EClose (listen_fd node)] else []) @
     map (\<lambda>p. EClose (fd p)) (filter peer_active (peers node))\<rparr>"
proof -
  have f: "fold (\<lambda>p w. if peer_active p then sys_close (fd p) w else w) ps v =
      v\<lparr>w_trace := w_trace v @ map (\<lambda>p. EClose (fd p)) (filter peer_active ps)\<rparr>" for ps v
    by (induction ps arbitrary: v) (simp_all add: sys_close_def emit_def)
  have "length (peers node) = VEX_MAX_PEERS" using assms by (simp add: node_inv_def node_shape_def)
  then show ?thesis by (simp add: main_cleanup_def f sys_close_def emit_def)
qed

lemma cleanup_closes_all_example:
  "w_trace (main_cleanup (sample_node\<lparr>listen_fd := 3\<rparr>) idle_world) = [EClose 3, EClose 4, EClose 5]"
  by (subst cleanup_closes_all) (simp_all add: peers_sample zero_peer_def)

end
