(* ===== verification/Vex_Network.thy ===== *)
theory Vex_Network
  imports Main_Properties
begin

text \<open>
  Several nodes in a row. A hop is a node that reads one connection with the main loop's
  \<open>peer_step\<close> and receives what it finds; the bytes it writes to its next connection are the
  stream the next hop reads.
\<close>

section \<open>Hops\<close>

text \<open>A hop's node, the slot it reads, the descriptor towards the next node, and its clocks.\<close>

record hop =
  hop_node :: vex_node
  hop_slot :: nat
  hop_out :: int
  hop_tick :: tick

text \<open>The bytes written to a descriptor, and what was shown, in a trace.\<close>

definition sent_to :: "int \<Rightarrow> sys_event list \<Rightarrow> bytes" where
  "sent_to d evs = concat (map (\<lambda>e. case e of EWrite d' bs \<Rightarrow> if d' = d then bs else [] | _ \<Rightarrow> []) evs)"

definition shown :: "sys_event list \<Rightarrow> (bytes \<times> int \<times> int) list" where
  "shown evs = concat (map (\<lambda>e. case e of EDisplay t a b \<Rightarrow> [(t, a, b)] | _ \<Rightarrow> []) evs)"

definition hop_world :: "hop \<Rightarrow> bytes \<Rightarrow> world" where
  "hop_world h stream = \<lparr>w_writes = [], w_rx = (\<lambda>_. [])(fd (peers (hop_node h) ! hop_slot h) := pending stream), w_trace = []\<rparr>"

fun chain :: "hop list \<Rightarrow> bytes \<Rightarrow> (bytes \<times> int \<times> int) list list" where
  "chain [] stream = []"
| "chain (h # hs) stream =
     (case peer_step (hop_tick h) (hop_slot h) (hop_node h, hop_world h stream) of
        None \<Rightarrow> []
      | Some (_, w) \<Rightarrow> shown (w_trace w) # chain hs (sent_to (hop_out h) (w_trace w)))"

text \<open>
  A hop that can pass on a message: a relaying node that knows the mesh key, has not seen the
  identifier, and has the next node on exactly one of its connections.
\<close>

definition hop_ready :: "bytes \<Rightarrow> bytes \<Rightarrow> hop \<Rightarrow> bool" where
  "hop_ready key i h \<longleftrightarrow> node_inv (hop_node h) \<and> relay_enabled (hop_node h) \<and> mesh_key (hop_node h) = key \<and>
     hop_slot h < VEX_MAX_PEERS \<and> peer_active (peers (hop_node h) ! hop_slot h) \<and>
     i \<notin> seen_ids (node_seen (hop_node h)) (t_check (hop_tick h) (hop_slot h)) \<and>
     count_list (targets (hop_node h) (fd (peers (hop_node h) ! hop_slot h))) (hop_out h) = 1"

lemma sent_to_simps [simp]:
  "sent_to d [] = []" "sent_to d (a @ b) = sent_to d a @ sent_to d b"
  "sent_to d (EWrite d' bs # r) = (if d' = d then bs else []) @ sent_to d r"
  "sent_to d (EDisplay t x y # r) = sent_to d r"
  by (simp_all add: sent_to_def)

lemma shown_simps [simp]:
  "shown [] = []" "shown (a @ b) = shown a @ shown b" "shown (EDisplay t x y # r) = (t, x, y) # shown r"
  "shown (EWrite d bs # r) = shown r"
  by (simp_all add: shown_def)

lemma sent_to_frames:
  "sent_to d (concat (map (frame_events g) ds)) = concat (replicate (count_list ds d) (framed g))"
  by (induction ds) (simp_all add: frame_events_def framed_def)

lemma shown_frames [simp]: "shown (concat (map (frame_events g) ds)) = []"
  by (induction ds) (simp_all add: frame_events_def)

lemma targets_last_seen:
  "targets (node\<lparr>peers := (peers node)[i := (peers node ! i)\<lparr>last_seen := t\<rparr>]\<rparr>) x = targets node x"
proof -
  have "map fd (filter (is_target x) (ps[i := (ps ! i)\<lparr>last_seen := t\<rparr>])) = map fd (filter (is_target x) ps)" for ps i
  proof (induction ps arbitrary: i)
    case (Cons p ps)
    then show ?case by (cases i) (auto simp: is_target_def)
  qed simp
  then show ?thesis by (simp add: targets_def)
qed

text \<open>A silent connection leaves the hop silent.\<close>

lemma hop_silent:
  assumes "hop_ready key i h"
  shows "\<exists>n w. peer_step (hop_tick h) (hop_slot h) (hop_node h, hop_world h []) = Some (n, w) \<and> w_trace w = []"
  using assms
  by (simp add: hop_ready_def peer_step_def hop_world_def vex_transport_unix_read_def sys_read_def pending_def)

lemma chain_silent: "\<forall>h \<in> set hs. hop_ready key i h \<Longrightarrow> chain hs [] = replicate (length hs) []"
proof (induction hs)
  case (Cons h hs)
  then obtain n w where "peer_step (hop_tick h) (hop_slot h) (hop_node h, hop_world h []) = Some (n, w)" "w_trace w = []"
    using hop_silent by (metis list.set_intros(1))
  with Cons show ?case by simp
qed simp

text \<open>A hop that gets the frame of a message shows it and passes it on with a lower TTL, or ends it.\<close>

lemma hop_message:
  assumes "hop_ready (mesh_key sender) (sent_id rnd1 rnd2 sender message) h" and "length (c_string message) \<le> 401"
    and "g = (sent_frame rnd1 rnd2 sender message)[9 := t]"
  shows "\<exists>n w. peer_step (hop_tick h) (hop_slot h) (hop_node h, hop_world h (framed g)) = Some (n, w) \<and>
     shown (w_trace w) = [(c_string message, uint t, uint (default_ttl (hop_node h)) - uint t)] \<and>
     sent_to (hop_out h) (w_trace w) = (if 1 < t then framed (g[9 := t - 1]) else [])"
proof -
  let ?node = "hop_node h" and ?i = "hop_slot h" and ?k = "hop_tick h"
  let ?p = "peers ?node ! ?i"
  have h: "node_inv ?node" "relay_enabled ?node" "mesh_key ?node = mesh_key sender" "?i < VEX_MAX_PEERS" "peer_active ?p"
    "sent_id rnd1 rnd2 sender message \<notin> seen_ids (node_seen ?node) (t_check ?k ?i)"
    "count_list (targets ?node (fd ?p)) (hop_out h) = 1"
    using assms(1) by (auto simp: hop_ready_def)
  have len: "length g = 51 + length (c_string message)" using assms(2,3) by (simp add: length_sent_frame)
  define w0 where "w0 = hop_world h []"
  have w0: "(hop_world h (framed g))\<lparr>w_rx := (w_rx (hop_world h (framed g)))(fd ?p := pending [])\<rparr> = w0"
    by (simp add: hop_world_def w0_def)
  have "vex_transport_unix_read ?p (replicate 512 0) 512 (t_read ?k ?i) (hop_world h (framed g)) =
      Some (int (length g), ?p\<lparr>last_seen := t_read ?k ?i\<rparr>, g @ drop (length g) (replicate 512 0), w0)"
    using unix_read_pending [of ?p "hop_world h (framed g)" g "[]" 512 "replicate 512 0" "t_read ?k ?i"] h(5) len assms(2) w0
    by (simp add: hop_world_def)
  moreover define node where "node = ?node\<lparr>peers := (peers ?node)[?i := ?p\<lparr>last_seen := t_read ?k ?i\<rparr>]\<rparr>"
  have plen: "?i < length (peers ?node)" using h(1,4) by (simp add: node_inv_def node_shape_def)
  have inv: "node_inv node" unfolding node_def
    by (rule node_inv_update_peer [OF h(1)]) (use node_inv_peer [OF h(1,4)] in simp_all)
  have tg: "targets node x = targets ?node x" for x unfolding node_def by (rule targets_last_seen)
  obtain r n w where rcv: "vex_mesh_receive (t_check ?k ?i) (t_add ?k ?i) node g (length g) (fd ?p) w0 = Some (r, n, w)"
    and tr: "w_trace w = w_trace w0 @ [EDisplay (c_string message) (uint t) (uint (default_ttl node) - uint t)] @
             (if relay_enabled node \<and> 1 < t then concat (map (frame_events (g[9 := t - 1])) (targets node (fd ?p))) else [])"
    using deliver_message [OF assms(2,3) inv, of "t_check ?k ?i" w0 "t_add ?k ?i" "fd ?p"] h(3,6)
    by (auto simp: node_def w0_def hop_world_def)
  have "vex_mesh_receive (t_check ?k ?i) (t_add ?k ?i) node (g @ drop (length g) (replicate 512 0)) (length g) (fd ?p) w0 =
      Some (r, n, w)"
    using rcv by (subst receive_take) simp_all
  ultimately have "peer_step ?k ?i (?node, hop_world h (framed g)) = Some (n, w)"
    using h(5) len plen by (simp add: peer_step_def node_def nat_add_distrib del: drop_replicate)
  moreover have "default_ttl node = default_ttl ?node" "relay_enabled node" "w_trace w0 = []"
    using h(2) by (simp_all add: node_def w0_def hop_world_def)
  ultimately show ?thesis
    using h(7) by (simp add: tr tg sent_to_frames)
qed

text \<open>What the hops of a chain show, for a frame that starts with TTL \<open>n\<close>.\<close>

fun expected :: "bytes \<Rightarrow> nat \<Rightarrow> hop list \<Rightarrow> (bytes \<times> int \<times> int) list list" where
  "expected msg n [] = []"
| "expected msg n (h # hs) =
     (if n = 0 then [] # expected msg 0 hs
      else [(msg, int n, uint (default_ttl (hop_node h)) - int n)] # expected msg (n - 1) hs)"

lemma expected_0: "expected msg 0 hs = replicate (length hs) []"
  by (induction hs) simp_all

lemma chain_expected:
  assumes "length (c_string message) \<le> 401"
    and "\<forall>h \<in> set hs. hop_ready (mesh_key sender) (sent_id rnd1 rnd2 sender message) h" and "0 < t"
  shows "chain hs (framed ((sent_frame rnd1 rnd2 sender message)[9 := t])) = expected (c_string message) (unat t) hs"
  using assms(2,3)
proof (induction hs arbitrary: t)
  case (Cons h hs)
  let ?g = "(sent_frame rnd1 rnd2 sender message)[9 := t]"
  have h: "hop_ready (mesh_key sender) (sent_id rnd1 rnd2 sender message) h" using Cons.prems by simp
  obtain n w where st: "peer_step (hop_tick h) (hop_slot h) (hop_node h, hop_world h (framed ?g)) = Some (n, w)"
    and sh: "shown (w_trace w) = [(c_string message, uint t, uint (default_ttl (hop_node h)) - uint t)]"
    and out: "sent_to (hop_out h) (w_trace w) = (if 1 < t then framed (?g[9 := t - 1]) else [])"
    using hop_message [OF h assms(1) refl] by blast
  have t0: "unat t \<noteq> 0" "int (unat t) = uint t" using Cons.prems(2) by (simp_all add: word_gt_0 unat_eq_zero)
  show ?case
  proof (cases "1 < t")
    case True
    then have "0 < t - 1" "unat (t - 1) = unat t - 1"
      by (simp_all add: word_gt_0 unat_sub_if' word_less_nat_alt)
    with Cons.IH [of "t - 1"] Cons.prems(1) st sh out True t0 show ?thesis by simp
  next
    case False
    then have "unat t - 1 = 0" by (simp add: word_less_nat_alt)
    moreover have "chain hs [] = replicate (length hs) []" using Cons.prems(1) by (intro chain_silent) auto
    ultimately show ?thesis using st sh out False t0 by (simp add: expected_0)
  qed
qed simp

lemma sent_frame_ttl: "sent_frame rnd1 rnd2 node m = (sent_frame rnd1 rnd2 node m)[9 := default_ttl node]"
proof -
  have "sent_frame rnd1 rnd2 node m ! 9 = default_ttl node"
    by (simp add: sent_frame_def sent_id_def nth_append)
  then show ?thesis by (metis list_update_id)
qed

text \<open>
  C1. A message travels exactly as many hops as the sender's TTL says. The sender writes it to
  its connection \<open>d\<close>; the next node reads the bytes there, and so on along any chain of relaying
  nodes with the mesh key that have not seen its identifier, each having the next one on one
  connection. The first \<open>default_ttl\<close> nodes each show the text once, with the TTL falling by one
  per hop; the nodes after them show nothing.
\<close>

theorem message_travels_ttl_hops:
  assumes "node_inv sender" and "w_writes w = []" and "length (c_string message) \<le> 401" and "0 < default_ttl sender"
    and "count_list (targets sender (-1)) d = 1"
    and "\<forall>h \<in> set hs. hop_ready (mesh_key sender) (sent_id rnd1 rnd2 sender message) h"
  shows "\<exists>r n v evs. vex_mesh_send rnd1 rnd2 now sender message w = Some (r, n, v) \<and> w_trace v = w_trace w @ evs \<and>
           chain hs (sent_to d evs) = expected (c_string message) (unat (default_ttl sender)) hs"
proof -
  let ?f = "sent_frame rnd1 rnd2 sender message"
  have "sent_to d (concat (map (frame_events ?f) (targets sender (-1)))) = framed ?f"
    using assms(5) by (simp add: sent_to_frames)
  moreover have "chain hs (framed ?f) = expected (c_string message) (unat (default_ttl sender)) hs"
    by (subst sent_frame_ttl) (rule chain_expected [OF assms(3,6,4)])
  ultimately show ?thesis using send_accepted [OF assms(1-3), of rnd1 rnd2 now] by simp
qed

definition sample_hop :: hop where
  "sample_hop = \<lparr>hop_node = sample_node, hop_slot = 0, hop_out = 5, hop_tick = sample_tick None 0\<rparr>"

lemma hop_ready_sample: "hop_ready (mesh_key sample_node) i sample_hop"
  by (simp add: hop_ready_def sample_hop_def VEX_MAX_PEERS_def) (simp add: sample_node_def)

theorem message_travels_ttl_hops_witness:
  "\<exists>r n v evs. vex_mesh_send (Urandom []) (Urandom []) 100 (sample_node\<lparr>default_ttl := 2\<rparr>) [104, 105, 0] idle_world = Some (r, n, v) \<and>
     w_trace v = evs \<and>
     chain [sample_hop, sample_hop, sample_hop] (sent_to 5 evs) = [[([104, 105], 2, 5)], [([104, 105], 1, 6)], []]"
proof -
  let ?s = "sample_node\<lparr>default_ttl := 2\<rparr>"
  have "node_inv ?s" using node_inv_sample by (simp add: node_inv_def node_shape_def peers_open_def)
  moreover have "targets ?s (-1) = [4, 5]" using targets_sample by (simp add: targets_def)
  ultimately show ?thesis
    using message_travels_ttl_hops [of ?s idle_world "[104, 105, 0]" 5 "[sample_hop, sample_hop, sample_hop]"
        "Urandom []" "Urandom []" 100] hop_ready_sample
    by simp (simp add: sample_hop_def)
qed

end
