(* ===== verification/Vex_Flood.thy ===== *)
theory Vex_Flood
  imports Vex_Network
begin

text \<open>
  The whole mesh as a step relation: nodes joined by arbitrary links, with frames in flight. One
  step takes any frame in flight, lets the node it is addressed to receive it, and puts the
  frames that node writes in flight. No order, clock or topology is fixed; loops are allowed.
\<close>

section \<open>Networks\<close>

text \<open>A frame in flight, with the node and the descriptor it arrives at.\<close>

type_synonym flight = "(nat \<times> int) \<times> bytes"

type_synonym network = "(nat \<Rightarrow> vex_node) \<times> flight list"

text \<open>The complete frames in a trace: a length header and a body to the same descriptor.\<close>

fun frames_in :: "sys_event list \<Rightarrow> (int \<times> bytes) list" where
  "frames_in (EWrite d hdr # EWrite d' g # r) = (d, g) # frames_in r"
| "frames_in (e # r) = frames_in r"
| "frames_in [] = []"

inductive flood_step :: "(nat \<Rightarrow> int \<Rightarrow> nat \<times> int) \<Rightarrow> network \<Rightarrow> network \<Rightarrow> bool" for links where
  deliver: "vex_mesh_receive now1 now2 (nodes i) g (length g) src idle_world = Some (r, n, v) \<Longrightarrow>
     flood_step links (nodes, xs @ ((i, src), g) # ys)
       (nodes(i := n), xs @ ys @ map (\<lambda>(d, f). (links i d, f)) (frames_in (w_trace v)))"

inductive_cases flood_stepE: "flood_step links (nodes, fl) s"

definition network_inv :: "network \<Rightarrow> bool" where
  "network_inv s \<longleftrightarrow> (\<forall>i. node_inv (fst s i)) \<and> (\<forall>(a, g) \<in> set (snd s). length g \<le> VEX_MAX_PACKET)"

text \<open>
  The work a network can still cause. A node has at most 32 peers, so one frame with TTL \<open>t\<close>
  leads to at most 32 frames with TTL \<open>t - 1\<close>.
\<close>

definition flood_weight :: "flight list \<Rightarrow> nat" where
  "flood_weight fl = sum_list (map (\<lambda>(a, g). 33 ^ unat (g ! 9)) fl)"

lemma flood_weight_simps [simp]:
  "flood_weight [] = 0" "flood_weight (xs @ ys) = flood_weight xs + flood_weight ys"
  "flood_weight ((a, g) # fl) = 33 ^ unat (g ! 9) + flood_weight fl"
  by (simp_all add: flood_weight_def)

section \<open>Termination and progress\<close>

lemma frames_in_frame_events: "frames_in (concat (map (frame_events g) ds)) = map (\<lambda>d. (d, g)) ds"
  by (induction ds) (simp_all add: frame_events_def)

lemma targets_at_most: "node_inv node \<Longrightarrow> length (targets node x) \<le> 32"
  using length_filter_le [of "is_target x" "peers node"]
  by (simp add: targets_def node_inv_def node_shape_def VEX_MAX_PEERS_def)

text \<open>What one reception puts in flight.\<close>

lemma receive_frames:
  assumes "node_inv node" and "length g \<le> VEX_MAX_PACKET"
    and "vex_mesh_receive now1 now2 node g (length g) src idle_world = Some (r, n, v)"
  shows "frames_in (w_trace v) = [] \<or>
         1 < g ! 9 \<and> frames_in (w_trace v) = map (\<lambda>d. (d, relay_frame g (length g))) (targets node src) \<and>
         length (relay_frame g (length g)) = length g \<and> relay_frame g (length g) ! 9 = g ! 9 - 1"
proof -
  consider (bad) "\<not> valid_frame g (length g)"
    | (dup) "valid_frame g (length g)" "frame_id g \<in> seen_ids (node_seen node) now1"
    | (new) "valid_frame g (length g)" "frame_id g \<notin> seen_ids (node_seen node) now1" by blast
  then show ?thesis
  proof cases
    case bad
    with assms show ?thesis by (simp add: receive_invalid [OF order_refl assms(2) bad])
  next
    case dup
    with assms show ?thesis by (simp add: receive_duplicate [OF assms(1) dup])
  next
    case new
    have "9 < length g" using new(1) by (simp add: valid_frame_def)
    with receive_fresh_accepted [OF assms(1) new writable_idle(1), of now2 src] assms(3) show ?thesis
      by (auto simp: Let_def relay_frame_def frames_in_frame_events split: if_splits)
  qed
qed

lemma flood_step_decreases:
  assumes "flood_step links s s'" and "network_inv s"
  shows "network_inv s' \<and> flood_weight (snd s') < flood_weight (snd s)"
  using assms
proof cases
  case (deliver now1 now2 nodes i g src r n v xs ys)
  have inv: "node_inv (nodes i)" "length g \<le> VEX_MAX_PACKET"
    using assms(2) deliver(1) by (auto simp: network_inv_def)
  obtain n' where n': "node_inv n'" "n' = n"
    using receive_inv [OF inv(1) order_refl inv(2), of now1 now2 src idle_world] deliver(3) by auto
  let ?new = "map (\<lambda>(d, f). (links i d, f)) (frames_in (w_trace v))"
  have w: "flood_weight ?new < 33 ^ unat (g ! 9) \<and> (\<forall>(a, f) \<in> set ?new. length f \<le> VEX_MAX_PACKET)"
    using receive_frames [OF inv deliver(3)]
  proof (elim disjE conjE)
    assume t: "1 < g ! 9" and fr: "frames_in (w_trace v) = map (\<lambda>d. (d, relay_frame g (length g))) (targets (nodes i) src)"
      and len: "length (relay_frame g (length g)) = length g" and t1: "relay_frame g (length g) ! 9 = g ! 9 - 1"
    have "unat (g ! 9) = Suc (unat (g ! 9 - 1))" using t by (simp add: unat_sub_if' word_less_nat_alt)
    moreover have "flood_weight ?new = length (targets (nodes i) src) * 33 ^ unat (g ! 9 - 1)"
      by (simp add: fr flood_weight_def t1 o_def sum_list_triv)
    ultimately show ?thesis
      using targets_at_most [OF inv(1), of src] len inv(2) by (auto simp: fr le_imp_less_Suc)
  qed simp
  have "network_inv s'"
    using assms(2) w n' deliver(1,2) by (auto simp: network_inv_def)
  with w show ?thesis by (simp add: deliver(1,2))
qed

lemma flood_progress:
  assumes "network_inv s" and "snd s \<noteq> []"
  shows "\<exists>s'. flood_step links s s'"
proof -
  obtain nodes i src g fl where s: "s = (nodes, [] @ ((i, src), g) # fl)"
    using assms(2) by (metis append_Nil list.exhaust prod.collapse)
  then have "node_inv (nodes i)" "length g \<le> VEX_MAX_PACKET" using assms(1) by (auto simp: network_inv_def)
  from receive_inv [OF this(1) order_refl this(2)] show ?thesis
    unfolding s using deliver by (metis (no_types))
qed

lemma flood_run:
  assumes "(flood_step links ^^ k) s s'" and "network_inv s"
  shows "network_inv s' \<and> k + flood_weight (snd s') \<le> flood_weight (snd s)"
  using assms(1)
proof (induction k arbitrary: s')
  case 0
  then show ?case using assms(2) by simp
next
  case (Suc k)
  then obtain u where u: "(flood_step links ^^ k) s u" "flood_step links u s'" by auto
  from Suc.IH [OF u(1)] flood_step_decreases [OF u(2)] show ?case by linarith
qed

text \<open>
  C6. A flood ends. In any network of nodes whatever its links, every sequence of deliveries of
  the frames in flight has at most \<open>flood_weight\<close> steps, a number fixed by the TTL bytes at the
  start; and as long as a frame is in flight, the next delivery does take place. So every run
  ends with nothing in flight, cycles in the topology and emptied caches included.
\<close>

theorem flood_ends:
  assumes "\<forall>i. node_inv (nodes i)" and "\<forall>(a, g) \<in> set fl. length g \<le> VEX_MAX_PACKET"
    and "(flood_step links ^^ k) (nodes, fl) (nodes', fl')"
  shows "k \<le> flood_weight fl \<and> (\<forall>i. node_inv (nodes' i)) \<and>
         (fl' = [] \<or> (\<exists>s. flood_step links (nodes', fl') s))"
proof -
  have "network_inv (nodes, fl)" using assms(1,2) by (simp add: network_inv_def)
  from flood_run [OF assms(3) this] flood_progress [of "(nodes', fl')" links] show ?thesis
    by (auto simp: network_inv_def)
qed

theorem flood_ends_witness:
  "\<exists>s. flood_step (\<lambda>i d. (1 - i, 9 - d)) (\<lambda>_. sample_node, [((0, 4), sample_frame)]) s"
proof -
  have "(flood_step (\<lambda>i d. (1 - i, 9 - d)) ^^ 0) (\<lambda>_. sample_node, [((0, 4), sample_frame)])
          (\<lambda>_. sample_node, [((0, 4), sample_frame)])" by simp
  from flood_ends [OF _ _ this] show ?thesis by simp
qed

end
