(* ===== verification/NaCl_Limbs.thy ===== *)
theory NaCl_Limbs
  imports NaCl_Bytes
begin

text \<open>
  Numbers as byte strings and as limbs in words, for the statements of what the arithmetic of
  \<^verbatim>\<open>src/tweetnacl.c\<close> computes: little-endian values, carry loops without overflow, and sums of
  products modulo a number.
\<close>

section \<open>Little-endian numbers\<close>

primrec le_nat :: "bytes \<Rightarrow> nat" where
  "le_nat [] = 0"
| "le_nat (b # bs) = unat b + 256 * le_nat bs"

primrec le_bytes :: "nat \<Rightarrow> nat \<Rightarrow> bytes" where
  "le_bytes 0 x = []"
| "le_bytes (Suc n) x = of_nat (x mod 256) # le_bytes n (x div 256)"

lemma le_nat_sum: "le_nat bs = (\<Sum>i<length bs. unat (bs ! i) * 256 ^ i)"
  by (induction bs) (simp_all add: sum.lessThan_Suc_shift sum_distrib_left mult.assoc mult.left_commute del: sum.lessThan_Suc)

lemma le_nat_zeros [simp]: "le_nat (replicate k 0) = 0"
  by (induction k) simp_all

lemma le_bytes_le_nat: "le_bytes (length bs) (le_nat bs) = bs"
proof (induction bs)
  case (Cons b bs)
  have "(unat b + 256 * le_nat bs) mod 256 = unat b" "(unat b + 256 * le_nat bs) div 256 = le_nat bs"
    using unat_u8_less [of b] by (simp_all add: div_mult_self2)
  with Cons show ?case by simp
qed simp

lemma le_bytes_mod: "le_bytes n (x mod 256 ^ n) = le_bytes n x"
proof (induction n arbitrary: x)
  case (Suc n)
  have "x mod 256 ^ Suc n mod 256 = x mod 256"
    by (simp add: mod_mod_cancel)
  moreover have "x mod 256 ^ Suc n div 256 = x div 256 mod 256 ^ n"
    by (simp add: mod_mult2_eq)
  ultimately show ?case using Suc [of "x div 256"] by simp
qed simp

lemma le_nat_append_zeros [simp]: "le_nat (bs @ replicate k 0) = le_nat bs"
proof (induction bs)
  case Nil
  show ?case by (induction k) simp_all
qed simp

lemma le_nat_append: "le_nat (bs @ cs) = le_nat bs + 256 ^ length bs * le_nat cs"
  by (induction bs) (simp_all add: algebra_simps)

lemma le_nat_bound: "le_nat bs < 256 ^ length bs"
proof (induction bs)
  case (Cons b bs)
  then show ?case using unat_u8_less [of b] unfolding le_nat.simps(2) length_Cons power_Suc by linarith
qed simp

lemma length_le_bytes [simp]: "length (le_bytes n x) = n"
  by (induction n arbitrary: x) simp_all

lemma le_nat_le_bytes: "le_nat (le_bytes n x) = x mod 256 ^ n"
proof (induction n arbitrary: x)
  case (Suc n)
  have "unat (of_nat (x mod 256) :: u8) = x mod 256" by (simp add: unat_of_nat)
  with Suc [of "x div 256"] show ?case by (simp add: mod_mult2_eq)
qed simp

lemma le_bytes_counter: "le_bytes n (le_nat (le_bytes n x) + i) = le_bytes n (x + i)"
  using le_bytes_mod [of n "x mod 256 ^ n + i"] le_bytes_mod [of n "x + i"]
  by (simp add: le_nat_le_bytes mod_add_left_eq)

section \<open>Words without wrap-around\<close>

lemma unat_add_small: "unat a + unat b < 2 ^ 64 \<Longrightarrow> unat (a + b) = unat a + unat b" for a b :: u64
  by (simp add: unat_word_ariths)

lemma unat_mult_small: "unat a * unat b < 2 ^ 64 \<Longrightarrow> unat (a * b) = unat a * unat b" for a b :: u64
  by (simp add: unat_word_ariths)

lemma unat_sum_small:
  fixes f :: "nat \<Rightarrow> u64"
  shows "(\<Sum>j<n. unat (f j)) < 2 ^ 64 \<Longrightarrow> unat (\<Sum>j<n. f j) = (\<Sum>j<n. unat (f j))"
  by (induction n) (simp_all add: unat_add_small)

lemma unat_and_255: "unat (x AND 255) = unat x mod 256" for x :: u64
proof -
  have x: "x AND 255 = take_bit 8 x" by (simp add: take_bit_eq_mask mask_eq_exp_minus_1)
  show ?thesis by (simp add: x take_bit_eq_mod unat_mod)
qed

lemma unat_and_3: "unat (x AND 3) = unat x mod 4" for x :: u64
proof -
  have x: "x AND 3 = take_bit 2 x" by (simp add: take_bit_eq_mask mask_eq_exp_minus_1)
  show ?thesis by (simp add: x take_bit_eq_mod unat_mod)
qed

lemma unat_drop_bit: "unat (drop_bit k x) = unat x div 2 ^ k" for x :: u64
proof -
  have "unat x < 2 ^ 64" using unsigned_less [of x] by simp
  then have "take_bit 64 (unat x) = unat x" by (rule take_bit_nat_eq_self)
  then show ?thesis by (subst unsigned_drop_bit_eq) (simp add: drop_bit_eq_div)
qed

lemma push_or_byte:
  fixes u :: u64 and b :: u8
  assumes "unat u < 2 ^ 56"
  shows "unat (push_bit 8 u OR ucast b) = unat b + 256 * unat u"
proof -
  have "push_bit 8 u + ucast b = push_bit 8 u OR ucast b"
    by (rule disjunctive_add) (auto simp: bit_simps dest: bit_imp_le_length)
  moreover have u: "unat u < 72057594037927936" using assms by simp
  have lt: "256 * unat u + unat b < 18446744073709551616" using u unat_u8_less [of b] by linarith
  have "push_bit 8 u = 256 * u" by (simp add: push_bit_eq_mult)
  then have pb: "unat (push_bit 8 u) = 256 * unat u" using u by (simp add: unat_mult_small)
  have "unat (push_bit 8 u + ucast b) = 256 * unat u + unat b"
    by (subst unat_add_small) (simp_all add: pb lt)
  ultimately show ?thesis by simp
qed

section \<open>Limbs of eight bits\<close>

definition lval :: "u64 list \<Rightarrow> nat \<Rightarrow> nat" where
  "lval h n = (\<Sum>j<n. unat (h ! j) * 256 ^ j)"

lemma lval_simps [simp]:
  "lval h 0 = 0" "lval h (Suc n) = lval h n + unat (h ! n) * 256 ^ n"
  by (simp_all add: lval_def)

lemma lval_update [simp]: "n \<le> j \<Longrightarrow> lval (h[j := v]) n = lval h n"
  by (simp add: lval_def)

lemma lval_bound: "\<forall>i<n. unat (h ! i) < 256 \<Longrightarrow> lval h n < 256 ^ n"
proof (induction n)
  case (Suc n)
  then have "lval h n < 256 ^ n" by simp
  moreover from Suc.prems have "unat (h ! n) < 256" by blast
  then have "unat (h ! n) * 256 ^ n \<le> 255 * 256 ^ n" by simp
  ultimately show ?case unfolding lval_simps power_Suc by linarith
qed simp

lemma lval_cong: "\<forall>i<n. h ! i = h' ! i \<Longrightarrow> lval h n = lval h' n"
  by (simp add: lval_def)

lemma lval_bytes: "lval h n = le_nat (map (\<lambda>j. ucast (h ! j)) [0..<n])" if "\<forall>i<n. unat (h ! i) < 256"
proof -
  have "unat (ucast x :: u8) = unat x" if "unat x < 256" for x :: u64
    using that by (simp add: unsigned_ucast_eq take_bit_nat_eq_self)
  then show ?thesis using that by (simp add: lval_def le_nat_sum)
qed

text \<open>
  A pass that adds \<open>g j\<close> of limb \<open>j\<close> to a running carry, leaves the low eight bits and carries
  on with the rest: the value is kept, and the limbs it passed are bytes.
\<close>

lemma carry_pass:
  fixes u :: u64
  assumes "n \<le> length h" and "\<forall>j<n. unat (g j (h ! j)) \<le> B" and "unat u \<le> B" and B: "B \<le> 2 ^ 60"
  shows "\<exists>h' u'. FOR n (\<lambda>j (h, u). let u = u + g j (h ! j) in (h[j := u AND 255], drop_bit 8 u)) (h, u) = (h', u') \<and>
           length h' = length h \<and> (\<forall>i<n. unat (h' ! i) < 256) \<and> (\<forall>i\<ge>n. h' ! i = h ! i) \<and> unat u' \<le> B \<and>
           lval h' n + unat u' * 256 ^ n = unat u + (\<Sum>j<n. unat (g j (h ! j)) * 256 ^ j)"
  using assms(1,2)
proof (induction n)
  case 0
  then show ?case using assms(3) by simp
next
  case (Suc n)
  then obtain h' u' where IH: "FOR n (\<lambda>j (h, u). let u = u + g j (h ! j) in (h[j := u AND 255], drop_bit 8 u)) (h, u) = (h', u')"
    "length h' = length h" "\<forall>i<n. unat (h' ! i) < 256" "\<forall>i\<ge>n. h' ! i = h ! i" "unat u' \<le> B"
    "lval h' n + unat u' * 256 ^ n = unat u + (\<Sum>j<n. unat (g j (h ! j)) * 256 ^ j)"
    by auto
  define v where "v = u' + g n (h ! n)"
  have b: "unat (g n (h ! n)) \<le> B" using Suc.prems(2) by blast
  then have v: "unat v = unat u' + unat (g n (h ! n))" using IH(5) B unfolding v_def by (intro unat_add_small) simp
  have "(a + 256 * b) * K = a * K + b * (256 * K)" for a b K :: nat by (simp add: algebra_simps)
  from this [of "unat v mod 256" "unat v div 256" "256 ^ n"] have "unat v mod 256 * 256 ^ n + unat v div 256 * 256 ^ Suc n = unat v * 256 ^ n"
    by simp
  moreover have "unat v * 256 ^ n = unat u' * 256 ^ n + unat (g n (h ! n)) * 256 ^ n" by (simp add: v algebra_simps)
  ultimately have "lval h' n + (unat v mod 256 * 256 ^ n + unat v div 256 * 256 ^ Suc n) =
      unat u + (\<Sum>j<Suc n. unat (g j (h ! j)) * 256 ^ j)"
    using IH(6) by simp
  moreover have "FOR (Suc n) (\<lambda>j (h, u). let u = u + g j (h ! j) in (h[j := u AND 255], drop_bit 8 u)) (h, u) =
      (h'[n := v AND 255], drop_bit 8 v)"
    using IH(1,4) by (simp add: for_range_last v_def Let_def)
  moreover have "unat (drop_bit 8 v) \<le> B" using IH(5) b v by (simp add: unat_drop_bit)
  ultimately show ?case
    using IH(2-4) Suc.prems(1) by (simp add: unat_drop_bit unat_and_255 nth_list_update less_Suc_eq)
qed

section \<open>Sums modulo a number\<close>

lemma sum_mod_cong:
  fixes f g :: "'a \<Rightarrow> nat"
  shows "(\<And>i. i \<in> A \<Longrightarrow> f i mod p = g i mod p) \<Longrightarrow> sum f A mod p = sum g A mod p"
  by (metis (no_types, lifting) mod_sum_eq sum.cong)

text \<open>
  Multiplying by \<open>b ^ j\<close> modulo \<open>p\<close>, when \<open>b ^ n\<close> is \<open>m\<close>: the limbs move up, and those that leave
  come back at the bottom with weight \<open>m\<close>.
\<close>

lemma wrapped_shift:
  fixes R :: "nat \<Rightarrow> nat"
  assumes "b ^ n mod p = m mod p" and "j \<le> n"
  shows "(\<Sum>i<n. (if j \<le> i then R (i - j) else m * R (i + n - j)) * b ^ i) mod p = (b ^ j * (\<Sum>k<n. R k * b ^ k)) mod p"
proof -
  let ?f = "\<lambda>i. (if j \<le> i then R (i - j) else m * R (i + n - j)) * b ^ i"
  have "(\<Sum>i<n. ?f i) = (\<Sum>i\<in>{..<j} \<union> {j..<n}. ?f i)" using assms(2) by (intro sum.cong) auto
  also have "\<dots> = (\<Sum>i<j. ?f i) + (\<Sum>i=j..<n. ?f i)" by (rule sum.union_disjoint) auto
  also have "(\<Sum>i=j..<n. ?f i) = (\<Sum>k<n - j. b ^ j * (R k * b ^ k))"
    by (rule sum.reindex_bij_witness [of _ "\<lambda>k. k + j" "\<lambda>i. i - j"]) (auto simp: power_add [symmetric])
  finally have lhs: "(\<Sum>i<n. ?f i) = (\<Sum>i<j. ?f i) + (\<Sum>k<n - j. b ^ j * (R k * b ^ k))" .
  have "(\<Sum>k<n. b ^ j * (R k * b ^ k)) = (\<Sum>k\<in>{n - j..<n} \<union> {..<n - j}. b ^ j * (R k * b ^ k))"
    by (intro sum.cong) auto
  also have "\<dots> = (\<Sum>k=n - j..<n. b ^ j * (R k * b ^ k)) + (\<Sum>k<n - j. b ^ j * (R k * b ^ k))"
    by (rule sum.union_disjoint) auto
  also have "(\<Sum>k=n - j..<n. b ^ j * (R k * b ^ k)) = (\<Sum>i<j. R (i + n - j) * (b ^ i * b ^ n))"
    using assms(2)
    by (intro sum.reindex_bij_witness [of _ "\<lambda>i. i + n - j" "\<lambda>k. k + j - n"]) (auto simp: power_add [symmetric] add.commute)
  finally have rhs: "(\<Sum>k<n. b ^ j * (R k * b ^ k)) =
      (\<Sum>i<j. R (i + n - j) * (b ^ i * b ^ n)) + (\<Sum>k<n - j. b ^ j * (R k * b ^ k))" .
  have "(\<Sum>i<j. ?f i) mod p = (\<Sum>i<j. R (i + n - j) * (b ^ i * b ^ n)) mod p"
  proof (rule sum_mod_cong)
    fix i assume "i \<in> {..<j}"
    then have "?f i mod p = (R (i + n - j) * b ^ i * m) mod p" by (simp add: mult_ac)
    also have "\<dots> = (R (i + n - j) * b ^ i * b ^ n) mod p" by (rule mod_mult_cong [OF refl assms(1) [symmetric]])
    finally show "?f i mod p = (R (i + n - j) * (b ^ i * b ^ n)) mod p" by (simp add: mult.assoc)
  qed
  then have "(\<Sum>i<n. ?f i) mod p = (\<Sum>k<n. b ^ j * (R k * b ^ k)) mod p"
    unfolding lhs rhs by (rule mod_add_cong [OF _ refl])
  then show ?thesis by (simp add: sum_distrib_left)
qed

lemma wrapped_product:
  fixes R H :: "nat \<Rightarrow> nat"
  assumes "b ^ n mod p = m mod p"
  shows "(\<Sum>i<n. (\<Sum>j<n. H j * (if j \<le> i then R (i - j) else m * R (i + n - j))) * b ^ i) mod p =
         ((\<Sum>j<n. H j * b ^ j) * (\<Sum>k<n. R k * b ^ k)) mod p"
proof -
  let ?c = "\<lambda>i j. if j \<le> i then R (i - j) else m * R (i + n - j)"
  have "(\<Sum>i<n. (\<Sum>j<n. H j * ?c i j) * b ^ i) = (\<Sum>i<n. \<Sum>j<n. H j * (?c i j * b ^ i))"
    by (simp only: sum_distrib_right mult.assoc)
  also have "\<dots> = (\<Sum>j<n. \<Sum>i<n. H j * (?c i j * b ^ i))" by (rule sum.swap)
  also have "\<dots> = (\<Sum>j<n. H j * (\<Sum>i<n. ?c i j * b ^ i))"
    by (simp only: sum_distrib_left)
  finally have swap: "(\<Sum>i<n. (\<Sum>j<n. H j * ?c i j) * b ^ i) = (\<Sum>j<n. H j * (\<Sum>i<n. ?c i j * b ^ i))" .
  have "(\<Sum>j<n. H j * (\<Sum>i<n. ?c i j * b ^ i)) mod p = (\<Sum>j<n. H j * (b ^ j * (\<Sum>k<n. R k * b ^ k))) mod p"
  proof (rule sum_mod_cong)
    fix j assume "j \<in> {..<n}"
    then have "(\<Sum>i<n. ?c i j * b ^ i) mod p = (b ^ j * (\<Sum>k<n. R k * b ^ k)) mod p"
      by (intro wrapped_shift [OF assms]) simp
    then show "(H j * (\<Sum>i<n. ?c i j * b ^ i)) mod p = (H j * (b ^ j * (\<Sum>k<n. R k * b ^ k))) mod p"
      by (rule mod_mult_cong [OF refl])
  qed
  then show ?thesis unfolding swap by (simp only: sum_distrib_right mult.assoc)
qed

section \<open>Loops that update every limb\<close>

lemma FOR_update:
  assumes "length xs = n"
  shows "FOR n (\<lambda>j ys. ys[j := f j (ys ! j)]) xs = map (\<lambda>j. f j (xs ! j)) [0..<n]"
proof -
  have "FOR k (\<lambda>j ys. ys[j := f j (ys ! j)]) xs = map (\<lambda>j. f j (xs ! j)) [0..<k] @ drop k xs" if "k \<le> n" for k
    using that
  proof (induction k)
    case (Suc k)
    then have "drop k xs = xs ! k # drop (Suc k) xs" using assms by (simp add: Cons_nth_drop_Suc)
    with Suc show ?case by (simp add: for_range_last list_update_append nth_append)
  qed simp
  with assms show ?thesis by simp
qed

end
