(* ===== verification/Poly1305_Spec.thy ===== *)
theory Poly1305_Spec
  imports NaCl_Poly1305 NaCl_Limbs
begin

text \<open>
  Poly1305 as a polynomial modulo 2^130 - 5, and the proof that \<^verbatim>\<open>crypto_onetimeauth\<close> of
  \<^verbatim>\<open>src/tweetnacl.c\<close> computes it: no limb overflows its word, every carry is kept, and the
  reduction ends with the canonical representative.
\<close>

section \<open>The specification\<close>

definition p1305 :: nat where
  "p1305 = 2 ^ 130 - 5"

function poly_blocks :: "nat \<Rightarrow> nat \<Rightarrow> bytes \<Rightarrow> nat" where
  "poly_blocks r a m =
     (if m = [] then a else poly_blocks r ((a + le_nat (take 16 m @ [1])) * r mod p1305) (drop 16 m))"
  by pat_completeness auto
termination
  by (relation "measure (\<lambda>(r, a, m). length m)") (auto simp: neq_Nil_conv)

declare poly_blocks.simps [simp del]

definition clamp_mask :: bytes where
  "clamp_mask = [255, 255, 255, 15, 252, 255, 255, 15, 252, 255, 255, 15, 252, 255, 255, 15]"

definition poly1305 :: "bytes \<Rightarrow> bytes \<Rightarrow> bytes" where
  "poly1305 m k =
     (let r = le_nat (map2 (AND) (take 16 k) clamp_mask); s = le_nat (take 16 (drop 16 k))
      in le_bytes 16 ((poly_blocks r 0 m + s) mod 2 ^ 128))"

section \<open>The steps of the loop\<close>

text \<open>The accumulator between blocks: byte limbs, and a small top limb.\<close>

definition acc_inv :: "u32l list \<Rightarrow> bool" where
  "acc_inv h \<longleftrightarrow> length h = 17 \<and> (\<forall>i<16. unat (h ! i) < 256) \<and> unat (h ! 16) \<le> 4"

definition byte_limbs :: "u32l list \<Rightarrow> bool" where
  "byte_limbs h \<longleftrightarrow> length h = 17 \<and> (\<forall>i<17. unat (h ! i) < 256)"

lemma lval_17: "lval h 17 = lval h 16 + unat (h ! 16) * 2 ^ 128"
  using lval_simps(2) [of h 16] by simp

lemma acc_inv_byte_limbs: "acc_inv h \<Longrightarrow> byte_limbs h"
proof -
  have "i < 16 \<or> i = 16" if "i < 17" for i :: nat using that by linarith
  then show "acc_inv h \<Longrightarrow> byte_limbs h" by (fastforce simp: acc_inv_def byte_limbs_def)
qed

lemma acc_inv_bound: "acc_inv h \<Longrightarrow> lval h 17 < 5 * 2 ^ 128"
  using lval_bound [of 16 h] mult_le_mono1 [of "unat (h ! 16)" 4 "2 ^ 128"] by (simp add: acc_inv_def lval_17)

lemma add1305_value:
  assumes "byte_limbs h" and "byte_limbs c"
  shows "byte_limbs (add1305 h c) \<and> lval (add1305 h c) 17 = (lval h 17 + lval c 17) mod 2 ^ 136"
proof -
  have "unat (h ! j + c ! j) = unat (h ! j) + unat (c ! j)" "unat (h ! j) + unat (c ! j) \<le> 2 ^ 40" if "j < 17" for j
  proof -
    have "unat (h ! j) < 256" "unat (c ! j) < 256" using assms that by (simp_all add: byte_limbs_def)
    then show "unat (h ! j + c ! j) = unat (h ! j) + unat (c ! j)" "unat (h ! j) + unat (c ! j) \<le> 2 ^ 40"
      by (simp_all add: unat_add_small)
  qed
  then obtain h' u' where "FOR 17 (\<lambda>j (h, u). let u = u + (h ! j + c ! j) in (h[j := u AND 255], drop_bit 8 u)) (h, 0) = (h', u')"
    and h': "length h' = 17" "\<forall>i<17. unat (h' ! i) < 256"
      "lval h' 17 + unat u' * 256 ^ 17 = (\<Sum>j<17. unat (h ! j + c ! j) * 256 ^ j)"
    using carry_pass [where n = 17 and h = h and g = "\<lambda>j x. x + c ! j" and u = 0 and B = "2 ^ 40"] assms(1) by (auto simp: byte_limbs_def)
  then have "add1305 h c = h'" by (simp add: add1305_def)
  moreover have "(\<Sum>j<17. unat (h ! j + c ! j) * 256 ^ j) = lval h 17 + lval c 17"
    using \<open>\<And>j. j < 17 \<Longrightarrow> unat (h ! j + c ! j) = unat (h ! j) + unat (c ! j)\<close>
    by (simp only: lval_def sum.distrib [symmetric]) (rule sum.cong, auto simp: algebra_simps)
  moreover have "lval h' 17 < 2 ^ 136" using lval_bound [OF h'(2)] by simp
  then have "(lval h' 17 + unat u' * 256 ^ 17) mod 2 ^ 136 = lval h' 17" by simp
  ultimately show ?thesis unfolding h'(3) using h'(1,2) by (simp add: byte_limbs_def)
qed

lemma inner_product_loop:
  "FOR n (\<lambda>j x. x[i := x ! i + f j]) (x[i := 0]) = x[i := \<Sum>j<n. f j :: u32l]"
proof (cases "i < length x")
  case True
  then show ?thesis by (induction n) (simp_all add: for_range_last)
next
  case False
  then show ?thesis by (induction n) (simp_all add: for_range_last list_update_beyond)
qed

definition mul_coeff :: "u32l list \<Rightarrow> nat \<Rightarrow> nat \<Rightarrow> u32l" where
  "mul_coeff r i j = (if j \<le> i then r ! (i - j) else 320 * r ! (i + 17 - j))"

lemma mul1305_limbs: "mul1305 h r = map (\<lambda>i. \<Sum>j<17. h ! j * mul_coeff r i j) [0..<17]"
  by (simp add: mul1305_def inner_product_loop mul_coeff_def [symmetric] FOR_fill)

lemma mul1305_value:
  assumes "byte_limbs h" and "byte_limbs r"
  shows "length (mul1305 h r) = 17 \<and> (\<forall>i<17. unat (mul1305 h r ! i) \<le> 2 ^ 30) \<and>
         lval (mul1305 h r) 17 mod p1305 = (lval h 17 * lval r 17) mod p1305"
proof -
  let ?H = "\<lambda>j. unat (h ! j)" and ?R = "\<lambda>j. unat (r ! j)"
  let ?c = "\<lambda>i j. if j \<le> i then ?R (i - j) else 320 * ?R (i + 17 - j)"
  have small: "?R k < 256" "?H k < 256" if "k < 17" for k using assms that by (simp_all add: byte_limbs_def)
  have c: "unat (mul_coeff r i j) = ?c i j \<and> ?c i j \<le> 2 ^ 17" if "i < 17" "j < 17" for i j
  proof (cases "j \<le> i")
    case True
    have "?R (i - j) < 256" using that(1) by (intro small(1)) simp
    with True show ?thesis by (simp add: mul_coeff_def)
  next
    case False
    then have "?R (i + 17 - j) < 256" by (intro small(1)) simp
    with False show ?thesis by (simp add: mul_coeff_def unat_mult_small)
  qed
  have prods: "unat (h ! j * mul_coeff r i j) = ?H j * ?c i j \<and> ?H j * ?c i j \<le> 2 ^ 25" if "i < 17" "j < 17" for i j
  proof -
    have b: "?H j * ?c i j \<le> 2 ^ 8 * 2 ^ 17"
      using c [OF that] small(2) [OF that(2)] by (intro mult_le_mono) auto
    with c [OF that] show ?thesis by (simp add: unat_mult_small)
  qed
  have limb: "unat (\<Sum>j<17. h ! j * mul_coeff r i j) = (\<Sum>j<17. ?H j * ?c i j) \<and> (\<Sum>j<17. ?H j * ?c i j) \<le> 2 ^ 30"
    if "i < 17" for i
  proof -
    have "(\<Sum>j<17. ?H j * ?c i j) \<le> 17 * 2 ^ 25"
      using sum_bounded_above [of "{..<17}" "\<lambda>j. ?H j * ?c i j" "2 ^ 25"] prods [OF that] by simp
    moreover have "(\<Sum>j<17. unat (h ! j * mul_coeff r i j)) = (\<Sum>j<17. ?H j * ?c i j)"
      using prods [OF that] by (intro sum.cong) auto
    ultimately show ?thesis by (simp add: unat_sum_small)
  qed
  have "lval (mul1305 h r) 17 = (\<Sum>i<17. (\<Sum>j<17. ?H j * ?c i j) * 256 ^ i)"
    unfolding lval_def by (rule sum.cong) (use limb in \<open>simp_all add: mul1305_limbs\<close>)
  moreover have "(256 :: nat) ^ 17 mod p1305 = 320 mod p1305" by (simp add: p1305_def)
  from wrapped_product [OF this, of ?H ?R]
  have "(\<Sum>i<17. (\<Sum>j<17. ?H j * ?c i j) * 256 ^ i) mod p1305 = (lval h 17 * lval r 17) mod p1305"
    unfolding lval_def .
  ultimately show ?thesis using limb by (simp add: mul1305_limbs)
qed

lemma carry1305_pass:
  assumes "length h = 17" and "\<forall>j<16. unat (h ! j) \<le> B" and "unat u \<le> B" and "B \<le> 2 ^ 60"
  shows "\<exists>h' u'. carry1305 (h, u) = (h', u') \<and> length h' = 17 \<and> (\<forall>i<16. unat (h' ! i) < 256) \<and>
    h' ! 16 = h ! 16 \<and> unat u' \<le> B \<and> lval h' 16 + unat u' * 2 ^ 128 = unat u + lval h 16"
  using carry_pass [where n = 16 and h = h and g = "\<lambda>j x. x" and u = u and B = B] assms
  by (auto simp: carry1305_def lval_def)

lemma p1305_wrap: "q * 2 ^ 130 mod p1305 = q * 5 mod p1305"
proof -
  have "(2 ^ 130 :: nat) mod p1305 = 5 mod p1305" by (simp add: p1305_def)
  then show ?thesis by (rule mod_mult_cong [OF refl])
qed

lemma reduce1305_value:
  assumes "length h = 17" and "\<forall>i<17. unat (h ! i) \<le> 2 ^ 30"
  shows "acc_inv (reduce1305 h) \<and> lval (reduce1305 h) 17 mod p1305 = lval h 17 mod p1305"
proof -
  obtain h1 u1 where 1: "carry1305 (h, 0) = (h1, u1)" "length h1 = 17" "\<forall>i<16. unat (h1 ! i) < 256"
    "h1 ! 16 = h ! 16" "unat u1 \<le> 2 ^ 30" "lval h1 16 + unat u1 * 2 ^ 128 = lval h 16"
    using carry1305_pass [of h "2 ^ 30" 0] assms by auto
  define u2 where "u2 = u1 + h1 ! 16"
  have u2: "unat u2 = unat u1 + unat (h ! 16)" "unat u2 \<le> 2 ^ 31"
    using 1(4,5) assms(2) [rule_format, of 16] by (simp_all add: u2_def unat_add_small)
  define u3 where "u3 = 5 * drop_bit 2 u2"
  have u3: "unat u3 = 5 * (unat u2 div 4)" "unat u3 \<le> 2 ^ 32"
    using u2(2) by (simp_all add: u3_def unat_mult_small unat_drop_bit)
  define h2 where "h2 = h1[16 := u2 AND 3]"
  have h2: "length h2 = 17" "\<forall>j<16. unat (h2 ! j) \<le> 2 ^ 32" "unat (h2 ! 16) = unat u2 mod 4" "lval h2 16 = lval h1 16"
    using 1(2,3) by (auto simp: h2_def unat_and_3 less_imp_le)
  obtain h3 u4 where 3: "carry1305 (h2, u3) = (h3, u4)" "length h3 = 17" "\<forall>i<16. unat (h3 ! i) < 256"
    "h3 ! 16 = h2 ! 16" "lval h3 16 + unat u4 * 2 ^ 128 = unat u3 + lval h2 16"
    using carry1305_pass [of h2 "2 ^ 32" u3] h2(1,2) u3(2) by auto
  have "lval h1 16 < 2 ^ 128" using lval_bound [of 16 h1] 1(3) by simp
  then have "unat u4 * 2 ^ 128 < 2 * 2 ^ 128" using 3(5) h2(4) u3(2) by simp
  then have u4: "unat u4 \<le> 1" by simp
  let ?r = "h3[16 := u4 + h3 ! 16]"
  have top: "unat (u4 + h3 ! 16) = unat u4 + unat u2 mod 4" "unat (u4 + h3 ! 16) \<le> 4"
    using u4 3(4) h2(3) by (simp_all add: unat_add_small)
  have r: "reduce1305 h = ?r"
    by (simp add: reduce1305_def 1(1) Let_def u2_def [symmetric] u3_def [symmetric] h2_def [symmetric] 3(1))
  let ?d = "unat u2 div 4" and ?X = "lval h1 16 + (unat u2 mod 4) * 2 ^ 128"
  have r17: "lval ?r 17 = ?d * 5 + ?X"
    using 3(2,5) h2(4) top(1) u3(1) by (simp add: lval_17 algebra_simps)
  have "(4 * d + m) * 2 ^ 128 = d * 2 ^ 130 + m * 2 ^ 128" for d m :: nat by simp
  from this [of ?d "unat u2 mod 4"]
  have "unat u2 * 2 ^ 128 = ?d * 2 ^ 130 + (unat u2 mod 4) * 2 ^ 128"
    unfolding mult_div_mod_eq .
  then have h17: "lval h 17 = ?d * 2 ^ 130 + ?X"
    using 1(6) u2(1) by (simp add: lval_17 distrib_right)
  have "lval ?r 17 mod p1305 = lval h 17 mod p1305"
    unfolding r17 h17 by (rule mod_add_cong [OF p1305_wrap [symmetric] refl])
  moreover have "acc_inv ?r" using 3(2,3) top(2) by (simp add: acc_inv_def)
  ultimately show ?thesis by (simp add: r)
qed

section \<open>Blocks and key\<close>

lemma ucast_limbs: "map (\<lambda>j. ucast (map ucast bs ! j :: u32l)) [0..<length bs] = (bs :: bytes)"
proof -
  have "ucast (ucast b :: u32l) = b" for b :: u8 by (rule bit_word_eqI) (simp add: bit_simps)
  then show ?thesis by (intro nth_equalityI) simp_all
qed

text \<open>A limb list made of bytes has their little-endian value.\<close>

lemma byte_limbs_value:
  assumes "length bs = 17"
  shows "byte_limbs (map ucast bs) \<and> lval (map ucast bs) 17 = le_nat bs"
proof -
  have b: "\<forall>i<17. unat (map ucast bs ! i :: u32l) < 256" using assms by simp
  show ?thesis
    using assms b lval_bytes [OF b] ucast_limbs [of bs] by (simp add: byte_limbs_def)
qed

lemma block1305_value:
  assumes "0 < n" and "n \<le> length m"
  shows "byte_limbs (block1305 m n) \<and> lval (block1305 m n) 17 = le_nat (take (min 16 n) m @ [1])"
proof -
  define j where "j = min 16 n"
  have j: "j \<le> 16" "j \<le> length m" using assms by (simp_all add: j_def)
  let ?bs = "take j m @ 1 # replicate (16 - j) 0"
  have "block1305 m n = (map (\<lambda>i. ucast (m ! i)) [0..<j] @ replicate (17 - j) 0)[j := 1]"
    using j by (simp add: block1305_def Let_def FOR_fill map_replicate_const j_def [symmetric] del: map_append)
  also have "map (\<lambda>i. ucast (m ! i)) [0..<j] = map ucast (take j m)"
    using j by (auto intro!: nth_equalityI)
  also have "replicate (17 - j) 0 = (0 :: u32l) # replicate (16 - j) 0"
    using j by (simp add: Suc_diff_le flip: replicate_Suc)
  also have "(map ucast (take j m) @ (0 :: u32l) # replicate (16 - j) 0)[j := 1] = map ucast ?bs"
    using j by (simp add: list_update_append)
  finally have "block1305 m n = map ucast ?bs" .
  moreover have "length ?bs = 17" using j by simp
  moreover have "le_nat ?bs = le_nat (take j m @ [1])"
    using le_nat_append_zeros [of "take j m @ [1]" "16 - j"] by simp
  ultimately show ?thesis using byte_limbs_value [of ?bs] by (simp add: j_def [symmetric])
qed

lemma and_255_byte [simp]: "b AND 255 = b" for b :: u8
proof -
  have "255 = (- 1 :: u8)" by simp
  then show ?thesis by (metis and.right_neutral)
qed

lemma clamp1305_value:
  assumes "16 \<le> length k"
  shows "byte_limbs (clamp1305 k) \<and> lval (clamp1305 k) 17 = le_nat (map2 (AND) (take 16 k) clamp_mask)"
proof -
  let ?bs = "map2 (AND) (take 16 k) clamp_mask @ [0]"
  have k: "take 16 k = map ((!) k) [0..<16]" using assms by (auto intro!: nth_equalityI)
  have "clamp1305 k = map ucast ?bs"
    by (simp add: k clamp1305_def Let_def FOR_fill clamp_mask_def upt_rec unsigned_and_eq)
  moreover have "length ?bs = 17" using assms by (simp add: clamp_mask_def)
  moreover have "le_nat ?bs = le_nat (map2 (AND) (take 16 k) clamp_mask)"
    using le_nat_append_zeros [of _ 1] by simp
  ultimately show ?thesis using byte_limbs_value [of ?bs] by simp
qed

section \<open>The loop and the final reduction\<close>

lemma auth_loop_value:
  assumes "byte_limbs r" and "n \<le> length m" and "acc_inv h"
  shows "acc_inv (auth_loop r h m n) \<and>
         lval (auth_loop r h m n) 17 mod p1305 = poly_blocks (lval r 17) (lval h 17 mod p1305) (take n m)"
  using assms(2,3)
proof (induction n arbitrary: m h rule: less_induct)
  case (less n)
  show ?case
  proof (cases "n = 0")
    case True
    then show ?thesis
      using less.prems by (subst (1 2) auth_loop.simps) (simp add: poly_blocks.simps)
  next
    case False
    define j where "j = min 16 n"
    define c where "c = block1305 m n"
    define x where "x = mul1305 (add1305 h c) r"
    have c: "byte_limbs c" "lval c 17 = le_nat (take j m @ [1])"
      using block1305_value [of n m] False less.prems(1) by (simp_all add: j_def c_def)
    have "lval c 17 < 2 * 2 ^ 128"
    proof -
      have "length (take j m) \<le> 16" by (simp add: j_def)
      then have "(256 :: nat) ^ length (take j m) \<le> 256 ^ 16" by (intro power_increasing) simp_all
      with le_nat_bound [of "take j m"] show ?thesis by (simp add: c(2) le_nat_append)
    qed
    then have "lval h 17 + lval c 17 < 2 ^ 136" using acc_inv_bound [OF less.prems(2)] by simp
    then have s: "byte_limbs (add1305 h c)" "lval (add1305 h c) 17 = lval h 17 + lval c 17"
      using add1305_value [OF acc_inv_byte_limbs [OF less.prems(2)] c(1)] by simp_all
    have x: "length x = 17" "\<forall>i<17. unat (x ! i) \<le> 2 ^ 30" "lval x 17 mod p1305 = (lval h 17 + lval c 17) * lval r 17 mod p1305"
      using mul1305_value [OF s(1) assms(1)] by (simp_all add: x_def s(2))
    note red = reduce1305_value [OF x(1,2)]
    have "FOR 17 (\<lambda>i h. h[i := x ! i]) (add1305 h c) = x"
      using s(1) x(1) map_nth [of x] by (simp add: FOR_fill byte_limbs_def)
    then have step: "auth_loop r h m n = auth_loop r (reduce1305 x) (drop j m) (n - j)"
      using False by (subst auth_loop.simps) (simp add: Let_def j_def c_def x_def)
    have "acc_inv (auth_loop r (reduce1305 x) (drop j m) (n - j)) \<and>
        lval (auth_loop r (reduce1305 x) (drop j m) (n - j)) 17 mod p1305 =
        poly_blocks (lval r 17) (lval (reduce1305 x) 17 mod p1305) (take (n - j) (drop j m))"
      by (rule less.IH) (use False less.prems(1) red in \<open>auto simp: j_def\<close>)
    moreover have "lval (reduce1305 x) 17 mod p1305 = (lval h 17 mod p1305 + le_nat (take j m @ [1])) * lval r 17 mod p1305"
    proof -
      have "(lval h 17 + lval c 17) mod p1305 = (lval h 17 mod p1305 + le_nat (take j m @ [1])) mod p1305"
        by (simp only: c(2) mod_add_left_eq)
      then show ?thesis unfolding conjunct2 [OF red] x(3) by (rule mod_mult_cong [OF _ refl])
    qed
    moreover have "poly_blocks R a (take n m) =
        poly_blocks R ((a + le_nat (take j m @ [1])) * R mod p1305) (take (n - j) (drop j m))" for R a
    proof -
      have "take n m \<noteq> []" using False less.prems(1) by auto
      moreover have "take 16 (take n m) = take j m" "drop 16 (take n m) = take (n - j) (drop j m)"
        by (simp_all add: j_def min_def drop_take)
      ultimately show ?thesis by (subst poly_blocks.simps) simp
    qed
    ultimately show ?thesis by (simp add: step)
  qed
qed

lemma minusp_value: "byte_limbs minusp \<and> lval minusp 17 = 2 ^ 136 - p1305"
proof -
  let ?bs = "[5, 0, 0, 0, 0, 0, 0, 0, 0, 0, 0, 0, 0, 0, 0, 0, 252] :: bytes"
  have "minusp = map ucast ?bs" by (simp add: minusp_def)
  moreover have "le_nat ?bs = 2 ^ 136 - p1305" by (simp add: p1305_def)
  ultimately show ?thesis using byte_limbs_value [of ?bs] by simp
qed

text \<open>The mask is all ones or all zeros, as bit 7 of the top limb says.\<close>

lemma freeze1305_select:
  assumes "byte_limbs h"
  shows "freeze1305 h = (if unat (add1305 h minusp ! 16) < 128 then add1305 h minusp else h)"
proof -
  define g where "g = add1305 h minusp"
  have len: "length h = 17" "length g = 17" "unat (g ! 16) < 256"
    using assms add1305_value [OF assms] minusp_value by (simp_all add: byte_limbs_def g_def)
  define s where "s = - drop_bit 7 (g ! 16)"
  have "freeze1305 h = FOR 17 (\<lambda>j h'. h'[j := h' ! j XOR (s AND (h ! j XOR h' ! j))]) g"
    by (simp add: freeze1305_def Let_def g_def s_def)
  also have "\<dots> = map (\<lambda>j. g ! j XOR (s AND (h ! j XOR g ! j))) [0..<17]"
    by (rule FOR_update [OF len(2)])
  finally have r: "freeze1305 h = map (\<lambda>j. g ! j XOR (s AND (h ! j XOR g ! j))) [0..<17]" .
  show ?thesis
  proof (cases "unat (g ! 16) < 128")
    case True
    then have "drop_bit 7 (g ! 16) = 0" by (simp only: word_unat_eq_iff unat_drop_bit) simp
    then have "s = 0" by (simp add: s_def)
    then show ?thesis using True r len map_nth [of g] by (simp add: g_def [symmetric])
  next
    case False
    then have "unat (g ! 16) div 128 = 1" using len(3) by simp
    then have "drop_bit 7 (g ! 16) = 1" by (simp only: word_unat_eq_iff unat_drop_bit) simp
    then have "s = -1" by (simp add: s_def)
    have "a XOR (b XOR a) = b" for a b :: u32l by (rule bit_word_eqI) (auto simp: bit_simps)
    with \<open>s = -1\<close> show ?thesis using False r len map_nth [of h] by (simp add: g_def [symmetric])
  qed
qed

lemma freeze1305_value:
  assumes "acc_inv h"
  shows "byte_limbs (freeze1305 h) \<and> lval (freeze1305 h) 17 = lval h 17 mod p1305"
proof -
  have h: "byte_limbs h" by (rule acc_inv_byte_limbs [OF assms])
  define g where "g = add1305 h minusp"
  have g: "byte_limbs g" "lval g 17 = (lval h 17 + (2 ^ 136 - p1305)) mod 2 ^ 136"
    using add1305_value [OF h] minusp_value by (simp_all add: g_def)
  have b: "lval h 17 < 5 * 2 ^ 128" by (rule acc_inv_bound [OF assms])
  have g16: "lval g 16 < 2 ^ 128" using lval_bound [of 16 g] g(1) by (simp add: byte_limbs_def)
  show ?thesis
  proof (cases "lval h 17 < p1305")
    case True
    then have "lval g 17 = lval h 17 + (2 ^ 136 - p1305)" using g(2) by (simp add: p1305_def)
    then have "128 * 2 ^ 128 < lval g 17" by (simp add: p1305_def)
    then have "\<not> unat (g ! 16) < 128" using g16 unfolding lval_17 by simp
    then show ?thesis using True h by (simp add: freeze1305_select [OF h] g_def [symmetric])
  next
    case False
    then have "lval h 17 + (2 ^ 136 - p1305) = (lval h 17 - p1305) + 2 ^ 136" by (simp add: p1305_def)
    then have "lval g 17 = (lval h 17 - p1305) mod 2 ^ 136" by (simp only: g(2) mod_add_self2)
    moreover have "lval h 17 - p1305 < 2 ^ 136" using b by simp
    ultimately have "lval g 17 = lval h 17 - p1305" by simp
    moreover have "lval h 17 - p1305 < p1305" using b by (simp add: p1305_def)
    then have "lval h 17 mod p1305 = lval h 17 - p1305" using False by (simp add: mod_if)
    moreover have "unat (g ! 16) < 128"
      using calculation b unfolding lval_17 p1305_def by simp
    ultimately show ?thesis using g(1) by (simp add: freeze1305_select [OF h] g_def [symmetric])
  qed
qed

lemma onetimeauth_value:
  assumes "n \<le> length m" and "32 \<le> length k"
  shows "crypto_onetimeauth m n k = poly1305 (take n m) k"
proof -
  let ?z = "replicate 17 0 :: u32l list" and ?s = "take 16 (drop 16 k)"
  define h where "h = auth_loop (clamp1305 k) ?z m n"
  have z: "acc_inv ?z" "lval ?z 17 = 0" by (simp_all add: acc_inv_def lval_def)
  have r: "byte_limbs (clamp1305 k)" "lval (clamp1305 k) 17 = le_nat (map2 (AND) (take 16 k) clamp_mask)"
    using clamp1305_value [of k] assms(2) by simp_all
  have h: "acc_inv h" "lval h 17 mod p1305 = poly_blocks (lval (clamp1305 k) 17) 0 (take n m)"
    using auth_loop_value [OF r(1) assms(1) z(1)] by (simp_all add: h_def z(2))
  have f: "byte_limbs (freeze1305 h)" "lval (freeze1305 h) 17 = poly_blocks (lval (clamp1305 k) 17) 0 (take n m)"
    using freeze1305_value [OF h(1)] h(2) by simp_all
  let ?c = "map ucast (?s @ [0]) :: u32l list"
  have len: "length (?s @ [0]) = 17" using assms(2) by simp
  have c: "byte_limbs ?c" "lval ?c 17 = le_nat ?s"
    using byte_limbs_value [OF len] le_nat_append_zeros [of ?s 1] by simp_all
  have "?s = map (\<lambda>j. k ! (j + 16)) [0..<16]" using assms(2) by (auto intro!: nth_equalityI simp: add.commute)
  then have seq: "(FOR 16 (\<lambda>j c. c[j := ucast (k ! (j + 16))]) ?z)[16 := 0] = ?c"
    by (simp add: FOR_fill list_update_append)
  have zz: "FOR 17 (\<lambda>j h. h[j := 0]) ?z = ?z" by (simp add: FOR_fill map_replicate_const)
  define t where "t = add1305 (freeze1305 h) ?c"
  have t: "byte_limbs t" "lval t 17 = (lval (freeze1305 h) 17 + le_nat ?s) mod 2 ^ 136"
    using add1305_value [OF f(1) c(1)] c(2) by (simp_all add: t_def)
  have tag: "crypto_onetimeauth m n k = map (\<lambda>j. ucast (t ! j)) [0..<16]"
    by (simp only: crypto_onetimeauth_def Let_def zz seq h_def t_def)
  have b: "\<forall>i<16. unat (t ! i) < 256" using t(1) by (simp add: byte_limbs_def)
  have "lval t 16 = lval t 17 mod 2 ^ 128" using lval_bound [OF b] by (simp add: lval_17)
  also have "\<dots> = (lval (freeze1305 h) 17 + le_nat ?s) mod 2 ^ 128" by (simp add: t(2) mod_mod_cancel)
  finally have "le_nat (map (\<lambda>j. ucast (t ! j)) [0..<16]) = (lval (freeze1305 h) 17 + le_nat ?s) mod 2 ^ 128"
    using lval_bytes [OF b] by simp
  with le_bytes_le_nat [of "map (\<lambda>j. ucast (t ! j)) [0..<16]"] show ?thesis
    by (simp add: tag poly1305_def Let_def f(2) r(2))
qed

text \<open>
  C12. \<^verbatim>\<open>crypto_onetimeauth\<close> computes Poly1305: the tag is the little-endian form of the message
  polynomial at the clamped key, reduced modulo 2^130 - 5, plus the second half of the key,
  modulo 2^128. In particular no limb of the 17 overflows and the final reduction is complete.
\<close>

theorem onetimeauth_is_poly1305:
  assumes "n \<le> length m" and "32 \<le> length k"
  shows "crypto_onetimeauth m n k = poly1305 (take n m) k"
  by (rule onetimeauth_value [OF assms])

text \<open>The one-byte message 1 under the key r = 1, s = 0 evaluates to 1 + 256.\<close>

theorem onetimeauth_is_poly1305_witness:
  "crypto_onetimeauth [1] 1 (1 # replicate 31 0) = [1, 1] @ replicate 14 0"
proof -
  have "poly_blocks 1 0 [1] = 257" by (simp add: poly_blocks.simps p1305_def)
  moreover have "le_nat (map2 (AND) (take 16 (1 # replicate 31 0)) clamp_mask) = 1" by code_simp
  moreover have "le_nat (take 16 (drop 16 (1 # replicate 31 0))) = 0" by code_simp
  moreover have "le_bytes 16 257 = [1, 1] @ replicate 14 0" by code_simp
  ultimately show ?thesis
    using onetimeauth_is_poly1305 [of 1 "[1]" "1 # replicate 31 0"] by (simp add: poly1305_def)
qed

end
