(* ===== verification/Salsa20_Spec.thy ===== *)
theory Salsa20_Spec
  imports NaCl_Salsa20 NaCl_Limbs
begin

text \<open>
  Salsa20, HSalsa20 and XSalsa20 as their specification gives them, on 32-bit words and with
  separate row and column rounds, and the proof that \<^verbatim>\<open>src/tweetnacl.c\<close> computes them although its
  \<^verbatim>\<open>u32\<close> has 64 bits and its round transposes the matrix instead of alternating.
\<close>

section \<open>The specification\<close>

type_synonym w32 = "32 word"

fun quarterround :: "w32 \<Rightarrow> w32 \<Rightarrow> w32 \<Rightarrow> w32 \<Rightarrow> w32 list" where
  "quarterround y0 y1 y2 y3 =
     (let z1 = y1 XOR word_rotl 7 (y0 + y3);
          z2 = y2 XOR word_rotl 9 (z1 + y0);
          z3 = y3 XOR word_rotl 13 (z2 + z1);
          z0 = y0 XOR word_rotl 18 (z3 + z2)
      in [z0, z1, z2, z3])"

definition columnround :: "w32 list \<Rightarrow> w32 list" where
  "columnround x =
     (let a = quarterround (x ! 0) (x ! 4) (x ! 8) (x ! 12);
          b = quarterround (x ! 5) (x ! 9) (x ! 13) (x ! 1);
          c = quarterround (x ! 10) (x ! 14) (x ! 2) (x ! 6);
          d = quarterround (x ! 15) (x ! 3) (x ! 7) (x ! 11)
      in [a ! 0, b ! 3, c ! 2, d ! 1, a ! 1, b ! 0, c ! 3, d ! 2, a ! 2, b ! 1, c ! 0, d ! 3, a ! 3, b ! 2, c ! 1, d ! 0])"

definition rowround :: "w32 list \<Rightarrow> w32 list" where
  "rowround y =
     (let a = quarterround (y ! 0) (y ! 1) (y ! 2) (y ! 3);
          b = quarterround (y ! 5) (y ! 6) (y ! 7) (y ! 4);
          c = quarterround (y ! 10) (y ! 11) (y ! 8) (y ! 9);
          d = quarterround (y ! 15) (y ! 12) (y ! 13) (y ! 14)
      in [a ! 0, a ! 1, a ! 2, a ! 3, b ! 3, b ! 0, b ! 1, b ! 2, c ! 2, c ! 3, c ! 0, c ! 1, d ! 1, d ! 2, d ! 3, d ! 0])"

definition doubleround :: "w32 list \<Rightarrow> w32 list" where
  "doubleround x = rowround (columnround x)"

definition le32 :: "bytes \<Rightarrow> nat \<Rightarrow> w32" where
  "le32 bs i = of_nat (le_nat (take 4 (drop (4 * i) bs)))"

definition salsa20_matrix :: "bytes \<Rightarrow> bytes \<Rightarrow> bytes \<Rightarrow> w32 list" where
  "salsa20_matrix n k c =
     [le32 c 0, le32 k 0, le32 k 1, le32 k 2, le32 k 3, le32 c 1, le32 n 0, le32 n 1, le32 n 2, le32 n 3,
      le32 c 2, le32 k 4, le32 k 5, le32 k 6, le32 k 7, le32 c 3]"

definition word_bytes :: "w32 \<Rightarrow> bytes" where
  "word_bytes w = le_bytes 4 (unat w)"

definition salsa20 :: "bytes \<Rightarrow> bytes \<Rightarrow> bytes \<Rightarrow> bytes" where
  "salsa20 n k c =
     (let x = salsa20_matrix n k c in concat (map word_bytes (map2 (+) x ((doubleround ^^ 10) x))))"

definition hsalsa20 :: "bytes \<Rightarrow> bytes \<Rightarrow> bytes \<Rightarrow> bytes" where
  "hsalsa20 n k c =
     (let z = (doubleround ^^ 10) (salsa20_matrix n k c)
      in concat (map (\<lambda>i. word_bytes (z ! i)) [0, 5, 10, 15, 6, 7, 8, 9]))"

section \<open>One round\<close>

abbreviation low32 :: "u32l \<Rightarrow> w32" where
  "low32 x \<equiv> ucast x"

lemma low32_nat: "unat (low32 a) = unat a mod 2 ^ 32"
  by (simp add: unsigned_ucast_eq take_bit_eq_mod)

lemma low32_add: "low32 (a + b) = low32 a + low32 b"
  by (simp add: word_unat_eq_iff low32_nat unat_word_ariths mod_mod_cancel mod_add_eq)

lemma low32_xor: "low32 (a XOR b) = low32 a XOR low32 b"
  by (simp add: unsigned_xor_eq)

lemma low32_L32:
  assumes "0 < c" and "c < 32"
  shows "low32 (L32 x c) = word_rotl c (low32 x)"
proof -
  have m: "x AND 4294967295 = take_bit 32 x" by (simp add: take_bit_eq_mask mask_eq_exp_minus_1)
  show ?thesis
  proof (rule bit_word_eqI)
    fix n assume "n < LENGTH(32)"
    then have n: "n < 32" by simp
    show "bit (low32 (L32 x c)) n \<longleftrightarrow> bit (word_rotl c (low32 x)) n"
    proof (cases "c \<le> n")
      case True
      then have e: "n + (32 - c) = n - c + 32" using assms by simp
      have "(n + (32 - c)) mod 32 = n - c" unfolding e mod_add_self2 by (rule mod_less) (use n in simp)
      moreover have "\<not> 32 - c + n < 32" "n - c < 32" using True assms n by linarith+
      ultimately show ?thesis using True n assms
        by (simp add: L32_def m bit_word_rotl_iff bit_or_iff bit_ucast_iff bit_push_bit_iff bit_drop_bit_eq bit_take_bit_iff)
    next
      case False
      then have lt: "n + (32 - c) < 32" using assms by linarith
      have "bit (word_rotl c (low32 x)) n \<longleftrightarrow> bit x (n + (32 - c))"
        unfolding bit_word_rotl_iff using assms mod_less [OF lt] lt by (simp only: bit_ucast_iff) (simp add: n)
      moreover have "bit (low32 (L32 x c)) n \<longleftrightarrow> bit x (32 - c + n)"
        unfolding L32_def m bit_ucast_iff bit_or_iff bit_push_bit_iff bit_drop_bit_eq o_def bit_take_bit_iff
        using False n lt by (simp add: add.commute)
      ultimately show ?thesis by (simp only: add.commute)
    qed
  qed
qed

text \<open>The four words of a column after its four updates.\<close>

definition quarter_words :: "u32l \<Rightarrow> u32l \<Rightarrow> u32l \<Rightarrow> u32l \<Rightarrow> u32l list" where
  "quarter_words t0 t1 t2 t3 =
     (let u1 = t1 XOR L32 (t0 + t3) 7;
          u2 = t2 XOR L32 (u1 + t0) 9;
          u3 = t3 XOR L32 (u2 + u1) 13;
          u0 = t0 XOR L32 (u3 + u2) 18
      in [u0, u1, u2, u3])"

lemma length_quarter_words [simp]: "length (quarter_words a b c d) = 4"
  by (simp add: quarter_words_def Let_def)

lemma quarter_low: "map low32 (quarter_words a b c d) = quarterround (low32 a) (low32 b) (low32 c) (low32 d)"
  by (simp add: quarter_words_def Let_def low32_xor low32_L32 low32_add)

lemma quarter_low_nth: "i < 4 \<Longrightarrow> low32 (quarter_words a b c d ! i) = quarterround (low32 a) (low32 b) (low32 c) (low32 d) ! i"
  unfolding quarter_low [symmetric] by (simp add: length_quarter_words)

lemma core_column_quarter:
  "j < 4 \<Longrightarrow> core_column x j w =
     (let q = quarter_words (x ! ((5 * j) mod 16)) (x ! ((5 * j + 4) mod 16)) (x ! ((5 * j + 8) mod 16)) (x ! ((5 * j + 12) mod 16))
      in w[4 * j + j mod 4 := q ! 0, 4 * j + (j + 1) mod 4 := q ! 1,
           4 * j + (j + 2) mod 4 := q ! 2, 4 * j + (j + 3) mod 4 := q ! 3])"
proof -
  assume "j < 4"
  then consider "j = 0" | "j = 1" | "j = 2" | "j = 3" by linarith
  then show ?thesis
    by cases (simp_all add: core_column_def quarter_words_def Let_def for_range_def upt_rec)
qed

text \<open>One round transposes the matrix and then works on its rows.\<close>

definition transpose16 :: "'a list \<Rightarrow> 'a list" where
  "transpose16 x = map (\<lambda>i. x ! i) [0, 4, 8, 12, 1, 5, 9, 13, 2, 6, 10, 14, 3, 7, 11, 15]"

lemma explicit_16:
  assumes "length x = 16"
  obtains a b c d e f g h i j k l m n u v where "x = [a, b, c, d, e, f, g, h, i, j, k, l, m, n, u, v]"
  using assms by (auto simp: numeral_eq_Suc length_Suc_conv)

lemma core_round_low:
  assumes "length x = 16" and "length w = 16"
  shows "\<exists>y. core_round (x, w) = (y, y) \<and> length y = 16 \<and> map low32 y = rowround (transpose16 (map low32 x))"
proof -
  define y where "y = FOR 4 (core_column x) w"
  obtain x0 x1 x2 x3 x4 x5 x6 x7 x8 x9 x10 x11 x12 x13 x14 x15
    where x: "x = [x0, x1, x2, x3, x4, x5, x6, x7, x8, x9, x10, x11, x12, x13, x14, x15]"
    by (rule explicit_16 [OF assms(1)])
  obtain w0 w1 w2 w3 w4 w5 w6 w7 w8 w9 w10 w11 w12 w13 w14 w15
    where w: "w = [w0, w1, w2, w3, w4, w5, w6, w7, w8, w9, w10, w11, w12, w13, w14, w15]"
    by (rule explicit_16 [OF assms(2)])
  let ?a = "quarter_words x0 x4 x8 x12" and ?b = "quarter_words x5 x9 x13 x1"
    and ?c = "quarter_words x10 x14 x2 x6" and ?d = "quarter_words x15 x3 x7 x11"
  have y: "y = [?a ! 0, ?a ! 1, ?a ! 2, ?a ! 3, ?b ! 3, ?b ! 0, ?b ! 1, ?b ! 2, ?c ! 2, ?c ! 3, ?c ! 0, ?c ! 1,
     ?d ! 1, ?d ! 2, ?d ! 3, ?d ! 0]"
    by (simp add: y_def x w core_column_quarter Let_def for_range_def upt_rec)
  have "core_round (x, w) = (map ((!) y) [0..<16], y)"
    using assms by (simp add: core_round_def y_def [symmetric] FOR_fill)
  moreover have "length y = 16" by (simp add: y)
  moreover from this have "map ((!) y) [0..<16] = y" using map_nth [of y] by simp
  moreover have "map low32 y = rowround (transpose16 (map low32 x))"
    by (simp add: y x transpose16_def rowround_def Let_def quarter_low_nth del: quarterround.simps)
  ultimately show ?thesis by simp
qed

lemma two_rounds: "length z = 16 \<Longrightarrow> rowround (transpose16 (rowround (transpose16 z))) = doubleround z"
  by (simp add: doubleround_def transpose16_def rowround_def columnround_def Let_def del: quarterround.simps)

lemma rounds_low:
  assumes "length x = 16"
  shows "\<exists>y w. FOR (2 * n) (\<lambda>_. core_round) (x, replicate 16 0) = (y, w) \<and> length y = 16 \<and> length w = 16 \<and>
     map low32 y = (doubleround ^^ n) (map low32 x)"
proof (induction n)
  case 0
  show ?case using assms by simp
next
  case (Suc n)
  then obtain y w where IH: "FOR (2 * n) (\<lambda>_. core_round) (x, replicate 16 0) = (y, w)" "length y = 16" "length w = 16"
    "map low32 y = (doubleround ^^ n) (map low32 x)" by blast
  obtain y1 where 1: "core_round (y, w) = (y1, y1)" "length y1 = 16" "map low32 y1 = rowround (transpose16 (map low32 y))"
    using core_round_low [OF IH(2,3)] by blast
  obtain y2 where 2: "core_round (y1, y1) = (y2, y2)" "length y2 = 16" "map low32 y2 = rowround (transpose16 (map low32 y1))"
    using core_round_low [OF 1(2,2)] by blast
  have "map low32 y2 = doubleround (map low32 y)" using 1(3) 2(3) two_rounds [of "map low32 y"] IH(2) by simp
  with IH 1 2 show ?case by (simp add: for_range_last)
qed

section \<open>The core\<close>

lemma ld32_value:
  assumes "4 \<le> length x"
  shows "unat (ld32 x) = le_nat (take 4 x)"
proof -
  obtain ys r where ys: "x = ys @ r" "length ys = 4" by (rule split_at [OF assms])
  then obtain a b c d where "ys = [a, b, c, d]" by (auto simp: numeral_eq_Suc length_Suc_conv)
  with ys have x: "x = a # b # c # d # r" by simp
  let ?u1 = "ucast d :: u32l" let ?u2 = "push_bit 8 ?u1 OR ucast c" let ?u3 = "push_bit 8 ?u2 OR ucast b"
  have 1: "unat ?u1 < 256" using unat_u8_less [of d] by (simp only: unat_ucast_u8)
  have 2: "unat ?u2 = unat c + 256 * unat ?u1" by (rule push_or_byte [OF less_trans [OF 1]]) simp
  then have "unat ?u2 < 65536" using 1 unat_u8_less [of c] by linarith
  then have "unat ?u2 < 2 ^ 56" by simp
  then have 3: "unat ?u3 = unat b + 256 * unat ?u2" by (rule push_or_byte)
  then have "unat ?u3 < 16777216" using \<open>unat ?u2 < 65536\<close> unat_u8_less [of b] by linarith
  then have "unat ?u3 < 2 ^ 56" by simp
  then have "unat (push_bit 8 ?u3 OR ucast a) = unat a + 256 * unat ?u3" by (rule push_or_byte)
  moreover have "ld32 x = push_bit 8 (push_bit 8 (push_bit 8 (ucast d) OR ucast c) OR ucast b) OR ucast a"
    by (simp add: x ld32_def)
  ultimately have "unat (ld32 x) = unat a + 256 * (unat b + 256 * (unat c + 256 * unat d))"
    by (simp only: 2 3 unat_ucast_u8)
  then show ?thesis by (simp add: x)
qed

lemma low32_of_nat: "low32 w = of_nat (unat w)"
  by (simp add: word_unat_eq_iff low32_nat unat_of_nat)

lemma low32_ld32: "4 * i + 4 \<le> length bs \<Longrightarrow> low32 (ld32 (drop (4 * i) bs)) = le32 bs i"
  by (simp add: low32_of_nat le32_def ld32_value)

lemma st32_low: "st32 w = word_bytes (low32 w)"
proof -
  have b: "of_nat (unat v mod 256) = (ucast v :: u8)" for v :: u32l
    by (simp add: word_unat_eq_iff unat_of_nat unsigned_ucast_eq take_bit_eq_mod)
  have "word_bytes (low32 w) = le_bytes 4 (unat w)"
    using le_bytes_mod [of 4 "unat w"] by (simp add: word_bytes_def low32_nat)
  also have "\<dots> = [of_nat (unat w mod 256), of_nat (unat w div 256 mod 256),
      of_nat (unat w div 65536 mod 256), of_nat (unat w div 16777216 mod 256)]"
  proof -
    have "4 = Suc (Suc (Suc (Suc 0)))" by simp
    then show ?thesis by (simp only: le_bytes.simps div_mult2_eq [symmetric]) simp
  qed
  also have "\<dots> = st32 w"
    using b [of w] b [of "drop_bit 8 w"] b [of "drop_bit 16 w"] b [of "drop_bit 24 w"]
    by (simp add: st32_bytes unat_drop_bit)
  finally show ?thesis ..
qed

lemma core_init_low:
  assumes "16 \<le> length n" and "32 \<le> length k" and "16 \<le> length c"
  shows "length (core_init n k c) = 16 \<and> map low32 (core_init n k c) = salsa20_matrix n k c"
proof -
  have c: "low32 (ld32 c) = le32 c 0" "low32 (ld32 (drop 4 c)) = le32 c 1" "low32 (ld32 (drop 8 c)) = le32 c 2"
    "low32 (ld32 (drop 12 c)) = le32 c 3"
    using low32_ld32 [of 0 c] low32_ld32 [of 1 c] low32_ld32 [of 2 c] low32_ld32 [of 3 c] assms by simp_all
  have n: "low32 (ld32 n) = le32 n 0" "low32 (ld32 (drop 4 n)) = le32 n 1" "low32 (ld32 (drop 8 n)) = le32 n 2"
    "low32 (ld32 (drop 12 n)) = le32 n 3"
    using low32_ld32 [of 0 n] low32_ld32 [of 1 n] low32_ld32 [of 2 n] low32_ld32 [of 3 n] assms by simp_all
  have k: "low32 (ld32 k) = le32 k 0" "low32 (ld32 (drop 4 k)) = le32 k 1" "low32 (ld32 (drop 8 k)) = le32 k 2"
    "low32 (ld32 (drop 12 k)) = le32 k 3" "low32 (ld32 (drop 16 k)) = le32 k 4" "low32 (ld32 (drop 20 k)) = le32 k 5"
    "low32 (ld32 (drop 24 k)) = le32 k 6" "low32 (ld32 (drop 28 k)) = le32 k 7"
    using low32_ld32 [of 0 k] low32_ld32 [of 1 k] low32_ld32 [of 2 k] low32_ld32 [of 3 k] low32_ld32 [of 4 k]
      low32_ld32 [of 5 k] low32_ld32 [of 6 k] low32_ld32 [of 7 k] assms by simp_all
  have "replicate 16 (0 :: u32l) = [0, 0, 0, 0, 0, 0, 0, 0, 0, 0, 0, 0, 0, 0, 0, 0]" by (simp add: numeral_eq_Suc)
  then show ?thesis
    by (simp add: core_init_def for_range_def upt_rec salsa20_matrix_def c n k)
qed

lemma length_doubleround: "length (doubleround x) = 16"
  by (simp add: doubleround_def rowround_def Let_def)

lemma core_rounds:
  assumes "16 \<le> length n" and "32 \<le> length k" and "16 \<le> length c"
  shows "\<exists>y w. FOR 20 (\<lambda>_. core_round) (core_init n k c, replicate 16 0) = (y, w) \<and> length y = 16 \<and>
     map low32 y = (doubleround ^^ 10) (salsa20_matrix n k c)"
  using rounds_low [of "core_init n k c" 10] core_init_low [OF assms] by auto

lemma core_salsa20_spec:
  assumes "16 \<le> length n" and "32 \<le> length k" and "16 \<le> length c"
  shows "crypto_core_salsa20 n k c = salsa20 n k c"
proof -
  define x where "x = core_init n k c"
  obtain y w where y: "FOR 20 (\<lambda>_. core_round) (x, replicate 16 0) = (y, w)" "length y = 16"
    "map low32 y = (doubleround ^^ 10) (salsa20_matrix n k c)"
    using core_rounds [OF assms] by (auto simp: x_def)
  have x: "length x = 16" "map low32 x = salsa20_matrix n k c" using core_init_low [OF assms] by (simp_all add: x_def)
  have "map2 (+) (map low32 x) (map low32 y) = map (\<lambda>i. low32 (y ! i + x ! i)) [0..<16]"
    using x(1) y(2) by (auto intro!: nth_equalityI simp: low32_add add.commute)
  then have "salsa20 n k c = concat (map word_bytes (map (\<lambda>i. low32 (y ! i + x ! i)) [0..<16]))"
    by (simp only: salsa20_def Let_def x(2) y(3))
  also have "\<dots> = concat (map (\<lambda>i. st32 (y ! i + x ! i)) [0..<16])" by (simp add: st32_low comp_def)
  also have "\<dots> = crypto_core_salsa20 n k c"
    by (simp add: crypto_core_salsa20_def nacl_core_def Let_def x_def [symmetric] y(1))
  finally show ?thesis ..
qed

lemma core_hsalsa20_spec:
  assumes "16 \<le> length n" and "32 \<le> length k" and "16 \<le> length c"
  shows "crypto_core_hsalsa20 n k c = hsalsa20 n k c"
proof -
  define x where "x = core_init n k c"
  obtain y w where y: "FOR 20 (\<lambda>_. core_round) (x, replicate 16 0) = (y, w)" "length y = 16"
    "map low32 y = (doubleround ^^ 10) (salsa20_matrix n k c)"
    using core_rounds [OF assms] by (auto simp: x_def)
  have x: "length x = 16" "map low32 x = salsa20_matrix n k c" using core_init_low [OF assms] by (simp_all add: x_def)
  define s where "s = map (\<lambda>i. y ! i + x ! i) [0..<16]"
  have s: "length s = 16" "\<And>i. i < 16 \<Longrightarrow> s ! i = y ! i + x ! i" by (simp_all add: s_def)
  let ?z = "FOR 4 (\<lambda>i x. let x = x[5 * i := x ! (5 * i) - ld32 (drop (4 * i) c)]
                         in x[6 + i := x ! (6 + i) - ld32 (drop (4 * i) n)]) s"
  have xs: "x ! 0 = ld32 c" "x ! 5 = ld32 (drop 4 c)" "x ! 10 = ld32 (drop 8 c)" "x ! 15 = ld32 (drop 12 c)"
    "x ! 6 = ld32 n" "x ! 7 = ld32 (drop 4 n)" "x ! 8 = ld32 (drop 8 n)" "x ! 9 = ld32 (drop 12 n)"
    by (simp_all add: x_def core_init_def for_range_def upt_rec)
  have z: "map (\<lambda>i. ?z ! i) [0, 5, 10, 15, 6, 7, 8, 9] = map (\<lambda>i. y ! i) [0, 5, 10, 15, 6, 7, 8, 9]"
    by (simp add: for_range_def upt_rec xs s)
  have "FOR 16 (\<lambda>i y. y[i := y ! i + x ! i]) y = s"
    using FOR_update [OF y(2), of "\<lambda>i v. v + x ! i"] by (simp add: s_def)
  then have "crypto_core_hsalsa20 n k c = concat (map st32 (map (\<lambda>i. ?z ! i) [0, 5, 10, 15, 6, 7, 8, 9]))"
    by (simp add: crypto_core_hsalsa20_def nacl_core_def Let_def x_def [symmetric] y(1) upt_rec)
  also have "\<dots> = concat (map (\<lambda>i. word_bytes (map low32 y ! i)) [0, 5, 10, 15, 6, 7, 8, 9])"
    unfolding z using y(2) by (simp add: st32_low)
  finally show ?thesis by (simp only: hsalsa20_def Let_def y(3))
qed

section \<open>The stream\<close>

text \<open>
  XSalsa20: the first 16 bytes of the nonce select the key of a Salsa20 stream under the other
  eight, whose blocks are numbered by a 64-bit counter.
\<close>

definition xsalsa20_block :: "bytes \<Rightarrow> bytes \<Rightarrow> nat \<Rightarrow> bytes" where
  "xsalsa20_block n k i =
     salsa20 (take 8 (drop 16 n) @ le_bytes 8 i) (hsalsa20 (take 16 n) k nacl_sigma) nacl_sigma"

definition xsalsa20 :: "nat \<Rightarrow> bytes \<Rightarrow> bytes \<Rightarrow> bytes" where
  "xsalsa20 d n k = take d (concat (map (xsalsa20_block n k) [0..<(d + 63) div 64]))"

lemma counter_loop:
  assumes "unat u \<le> 1"
  shows "fst (for_range (length xs) (length xs + length bs)
           (\<lambda>i (z, u). let u = u + ucast (z ! i) in (z[i := ucast u], drop_bit 8 u)) (xs @ bs @ ys, u :: u32l)) =
         xs @ le_bytes (length bs) (le_nat bs + unat u) @ ys"
  using assms
proof (induction bs arbitrary: xs u)
  case (Cons b bs)
  define v where "v = u + ucast b"
  have v: "unat v = unat b + unat u"
  proof -
    have "unat u + unat b < 18446744073709551616" using Cons.prems unat_u8_less [of b] by linarith
    then show ?thesis by (simp add: v_def unat_add_small)
  qed
  have "(unat b + unat u) div 256 \<le> 1" using Cons.prems unat_u8_less [of b] by linarith
  then have carry: "unat (drop_bit 8 v) \<le> 1" by (simp add: unat_drop_bit v)
  have byte: "ucast v = (of_nat (unat v mod 256) :: u8)"
    by (simp add: word_unat_eq_iff unat_of_nat unsigned_ucast_eq take_bit_eq_mod)
  have sum: "unat b + 256 * le_nat bs + unat u = unat v + 256 * le_nat bs" by (simp add: v)
  have "(unat b + 256 * le_nat bs + unat u) mod 256 = unat v mod 256"
    "(unat b + 256 * le_nat bs + unat u) div 256 = le_nat bs + unat (drop_bit 8 v)"
    unfolding sum by (simp_all add: unat_drop_bit)
  then have le: "le_bytes (length (b # bs)) (le_nat (b # bs) + unat u) =
      ucast v # le_bytes (length bs) (le_nat bs + unat (drop_bit 8 v))"
    by (simp add: byte)
  from Cons.IH [OF carry, of "xs @ [ucast v]"] show ?case
    by (simp only: le) (simp add: for_range_first v_def [symmetric])
qed simp

lemma salsa20_next_value:
  assumes "length z = 16"
  shows "salsa20_next z = take 8 z @ le_bytes 8 (le_nat (drop 8 z) + 1)"
  using counter_loop [of 1 "take 8 z" "drop 8 z" "[]"] assms by (simp add: salsa20_next_def)

lemma length_nacl_sigma [simp]: "length nacl_sigma = 16"
  by (simp add: nacl_sigma_def str_bytes_def)

lemma length_salsa20: "16 \<le> length n \<Longrightarrow> 32 \<le> length k \<Longrightarrow> 16 \<le> length c \<Longrightarrow> length (salsa20 n k c) = 64"
  by (metis core_salsa20_spec length_core_salsa20)

lemma xor_loop_blocks:
  assumes "length z = 16" and "32 \<le> length k"
  shows "salsa20_xor_loop None b z k =
     take b (concat (map (\<lambda>i. salsa20 (take 8 z @ le_bytes 8 (le_nat (drop 8 z) + i)) k nacl_sigma) [0..<(b + 63) div 64]))"
  using assms(1)
proof (induction b arbitrary: z rule: less_induct)
  case (less b)
  let ?B = "\<lambda>z i. salsa20 (take 8 z @ le_bytes 8 (le_nat (drop 8 z) + i)) k nacl_sigma"
  let ?x = "crypto_core_salsa20 z k nacl_sigma"
  have B0: "?B z 0 = ?x"
  proof -
    have "le_bytes 8 (le_nat (drop 8 z)) = drop 8 z" using le_bytes_le_nat [of "drop 8 z"] less.prems by simp
    then show ?thesis using less.prems assms(2) by (simp add: core_salsa20_spec)
  qed
  have x: "map (\<lambda>i. msg_byte None i XOR ?x ! i) [0..<n] = take n ?x" if "n \<le> 64" for n
    using that by (auto intro!: nth_equalityI simp: msg_byte_def)
  have len: "length ?x = 64" by simp
  consider "b = 0" | "0 < b" "b < 64" | "64 \<le> b" by linarith
  then show ?case
  proof cases
    case 1
    then show ?thesis by (subst salsa20_xor_loop.simps) simp
  next
    case 2
    then have "(b + 63) div 64 = Suc 0" by (intro div_nat_eqI) simp_all
    with 2 B0 x [of b] show ?thesis by (subst salsa20_xor_loop.simps) (simp add: Let_def)
  next
    case 3
    let ?z = "salsa20_next z" and ?m = "(b - 64 + 63) div 64"
    have z: "?z = take 8 z @ le_bytes 8 (le_nat (drop 8 z) + 1)" by (rule salsa20_next_value [OF less.prems])
    have "?B ?z i = ?B z (Suc i)" for i
    proof -
      have "take 8 ?z = take 8 z" "drop 8 ?z = le_bytes 8 (le_nat (drop 8 z) + 1)" using less.prems by (simp_all add: z)
      then show ?thesis by (simp only: le_bytes_counter add.assoc plus_1_eq_Suc)
    qed
    moreover have "length ?z = 16" using less.prems by (simp add: z)
    ultimately have IH: "salsa20_xor_loop None (b - 64) ?z k =
        take (b - 64) (concat (map (\<lambda>i. ?B z (Suc i)) [0..<?m]))"
      using less.IH [of "b - 64" ?z] 3 by simp
    have "b + 63 = (b - 64 + 63) + 64" using 3 by simp
    then have "(b + 63) div 64 = Suc ?m" by simp
    then have "concat (map (?B z) [0..<(b + 63) div 64]) = ?x @ concat (map (\<lambda>i. ?B z (Suc i)) [0..<?m])"
    proof -
      have "[0..<Suc ?m] = 0 # map Suc [0..<?m]" by (simp add: upt_conv_Cons map_Suc_upt del: upt_Suc)
      then show ?thesis using B0 \<open>(b + 63) div 64 = Suc ?m\<close> by (simp add: comp_def del: upt_Suc)
    qed
    then have "take b (concat (map (?B z) [0..<(b + 63) div 64])) =
        ?x @ take (b - 64) (concat (map (\<lambda>i. ?B z (Suc i)) [0..<?m]))"
      using 3 len by simp
    with 3 IH x [of 64] len show ?thesis by (subst salsa20_xor_loop.simps) (simp add: Let_def)
  qed
qed

lemma hsalsa20_take: "hsalsa20 (take 16 n) k c = hsalsa20 n k c"
  by (simp add: hsalsa20_def salsa20_matrix_def le32_def take_drop min_def)

lemma stream_xsalsa20:
  assumes "24 \<le> length n" and "32 \<le> length k"
  shows "crypto_stream d n k = xsalsa20 d n k"
proof -
  let ?k = "crypto_core_hsalsa20 n k nacl_sigma" and ?z = "take 8 (drop 16 n) @ replicate 8 0"
  have k: "?k = hsalsa20 (take 16 n) k nacl_sigma"
    using assms by (simp add: core_hsalsa20_spec hsalsa20_take)
  have z: "FOR 8 (\<lambda>i z. z[i := n ! (16 + i)]) (replicate 16 0) = ?z"
  proof -
    have "map (\<lambda>i. n ! (16 + i)) [0..<8] = take 8 (drop 16 n)" using assms(1) by (auto intro!: nth_equalityI)
    then show ?thesis by (simp add: FOR_fill)
  qed
  have "length ?z = 16" "32 \<le> length ?k" "le_nat (drop 8 ?z) = 0" "take 8 ?z = take 8 (drop 16 n)"
    using assms le_nat_zeros [of 8] by simp_all
  from xor_loop_blocks [OF this(1,2)] this(3,4) k show ?thesis
    by (simp add: crypto_stream_def crypto_stream_salsa20_def stream_salsa20_xor_loop Let_def z xsalsa20_def
        xsalsa20_block_def [abs_def])
qed

text \<open>
  C13. The stream cipher is XSalsa20: \<^verbatim>\<open>crypto_stream\<close> returns the first \<open>d\<close> bytes of the blocks
  that the specification defines on 32-bit words, and \<^verbatim>\<open>crypto_stream_xor\<close> adds them to the message.
  The high halves of the 64-bit \<^verbatim>\<open>u32\<close> words never reach the output.
\<close>

theorem stream_is_xsalsa20:
  assumes "24 \<le> length n" and "32 \<le> length k" and "d \<le> length m"
  shows "crypto_stream d n k = xsalsa20 d n k \<and>
         crypto_stream_xor m d n k = map2 (XOR) (take d m) (xsalsa20 d n k)"
  using stream_xsalsa20 [OF assms(1,2)] stream_xor_keystream [OF assms(3)] by simp

theorem stream_is_xsalsa20_witness:
  "crypto_stream_xor [1, 2, 3] 3 (replicate 24 0) (replicate 32 0) =
     map2 (XOR) [1, 2, 3] (xsalsa20 3 (replicate 24 0) (replicate 32 0))"
  using stream_is_xsalsa20 [of "replicate 24 0" "replicate 32 0" 3 "[1, 2, 3]"] by simp

end
