(* ===== verification/Secretbox_Spec.thy ===== *)
theory Secretbox_Spec
  imports Vex_Crypto Poly1305_Spec Salsa20_Spec
begin

text \<open>
  What the node's messages are made of, by the specifications of the primitives: nonce, Poly1305
  tag and XSalsa20 ciphertext. Encryption produces exactly that, and decryption accepts nothing else.
\<close>

definition xsalsa20_poly1305 :: "bytes \<Rightarrow> bytes \<Rightarrow> bytes \<Rightarrow> bytes" where
  "xsalsa20_poly1305 n k p =
     (let ks = xsalsa20 (32 + length p) n k; ct = map2 (XOR) p (drop 32 ks)
      in poly1305 ct (take 32 ks) @ ct)"

lemma length_xsalsa20: "24 \<le> length n \<Longrightarrow> 32 \<le> length k \<Longrightarrow> length (xsalsa20 d n k) = d"
  by (metis length_stream stream_xsalsa20)

lemma onetimeauth_poly1305:
  assumes "n \<le> length m" and "32 \<le> length k"
  shows "crypto_onetimeauth m n k = poly1305 (take n m) (take 32 k)"
  using onetimeauth_value [of n m "take 32 k"] onetimeauth_cong [of n m m k "take 32 k"] assms by simp

lemma secretbox_spec:
  assumes "24 \<le> length n" and "32 \<le> length k" and "m = replicate 32 0 @ p @ junk"
    and "d = 32 + length p" and "d \<le> length c"
  shows "crypto_secretbox c m d n k = (0, replicate 16 0 @ xsalsa20_poly1305 n k p @ drop d c)"
proof -
  let ?ks = "xsalsa20 d n k"
  let ?s = "crypto_stream_xor m d n k"
  have ks: "length ?ks = d" using assms by (simp add: length_xsalsa20)
  have s: "?s = map2 (XOR) (take d m) ?ks"
    using assms by (simp add: stream_xor_keystream stream_xsalsa20)
  have "take 32 ?ks = crypto_stream 32 n k"
    using assms stream_prefix [of 32 d n k] by (simp add: stream_xsalsa20)
  then have s32: "take 32 ?s = take 32 ?ks"
    using stream_xor_zero_prefix [of d m n k] assms by simp
  have ct: "drop 32 ?s = map2 (XOR) p (drop 32 ?ks)"
    unfolding s using assms by (simp add: drop_map drop_zip)
  have "crypto_onetimeauth (drop 32 (?s @ drop d c)) (d - 32) (?s @ drop d c) = poly1305 (drop 32 ?s) (take 32 ?s)"
    using assms by (subst onetimeauth_poly1305) simp_all
  moreover have "xsalsa20_poly1305 n k p = poly1305 (drop 32 ?s) (take 32 ?s) @ drop 32 ?s"
    unfolding xsalsa20_poly1305_def Let_def assms(4) [symmetric] ct s32 ..
  moreover have "32 \<le> d" using assms(4) by simp
  ultimately show ?thesis using assms(5) by (simp only: secretbox_result append_assoc)
qed

text \<open>Opening succeeds only on the sealed form of what it returns.\<close>

lemma secretbox_open_spec:
  assumes "24 \<le> length n" and "32 \<le> length k" and "d \<le> length c"
    and "crypto_secretbox_open m c d n k = (0, m')"
  shows "take (d - 16) (drop 16 c) = xsalsa20_poly1305 n k (take (d - 32) (drop 32 m')) \<and> 32 \<le> d"
proof -
  have d: "32 \<le> d" using assms(4) by (simp add: crypto_secretbox_open_def split: if_splits)
  let ?ks = "xsalsa20 d n k" and ?ct = "take (d - 32) (drop 32 c)"
  have ks: "length ?ks = d" using assms by (simp add: length_xsalsa20)
  have k32: "crypto_stream 32 n k = take 32 ?ks"
    using assms(1,2) d stream_prefix [of 32 d n k] by (simp add: stream_xsalsa20)
  have ver: "crypto_onetimeauth_verify (drop 16 c) (drop 32 c) (d - 32) (take 32 ?ks) = 0"
    using assms(4) d by (simp add: crypto_secretbox_open_def k32 Let_def split: if_splits)
  have tag: "take 16 (drop 16 c) = poly1305 ?ct (take 32 ?ks)"
  proof -
    have "crypto_onetimeauth (drop 32 c) (d - 32) (take 32 ?ks) = poly1305 ?ct (take 32 ?ks)"
      using assms(3) d ks by (subst onetimeauth_poly1305) simp_all
    moreover have "take 16 (drop 16 c) = take 16 (crypto_onetimeauth (drop 32 c) (d - 32) (take 32 ?ks))"
      using ver assms(3) d
      by (simp add: crypto_onetimeauth_verify_def crypto_verify_16_def vn_take Let_def split: if_splits)
    ultimately show ?thesis using length_onetimeauth [of "drop 32 c" "d - 32" "take 32 ?ks"] by simp
  qed
  have m': "m' = FOR 32 (\<lambda>i m. m[i := 0]) (crypto_stream_xor c d n k @ drop d m)"
    using assms(4) d by (simp add: crypto_secretbox_open_def Let_def split: if_splits)
  have "take (d - 32) (drop 32 m') = drop 32 (crypto_stream_xor c d n k)"
    using d by (simp add: m' FOR_fill)
  also have "\<dots> = map2 (XOR) ?ct (drop 32 ?ks)"
    using assms(1-3) by (simp add: stream_xor_keystream stream_xsalsa20 drop_map drop_zip drop_take)
  finally have p: "take (d - 32) (drop 32 m') = map2 (XOR) ?ct (drop 32 ?ks)" .
  have ct: "length ?ct = d - 32" "length (drop 32 ?ks) = d - 32" using assms(3) ks by simp_all
  then have "?ct = map2 (XOR) (map2 (XOR) ?ct (drop 32 ?ks)) (drop 32 ?ks)"
    by (auto intro!: nth_equalityI simp: xor.assoc)
  moreover have "take (d - 16) (drop 16 c) = take 16 (drop 16 c) @ ?ct"
    using d take_add [of 16 "d - 32" "drop 16 c"] by (simp add: add.commute)
  ultimately show ?thesis
    using d ct tag by (simp add: p xsalsa20_poly1305_def Let_def)
qed

section \<open>Broadcast messages\<close>

lemma sealed_message_spec:
  assumes "length nonce = 24" and "length key = 32" and "length p \<le> 461"
  shows "sealed_message nonce key p = nonce @ xsalsa20_poly1305 nonce key p"
proof -
  have "length (xsalsa20_poly1305 nonce key p) = 16 + length p"
    using assms by (simp add: xsalsa20_poly1305_def Let_def length_xsalsa20 poly1305_def)
  then show ?thesis
    using assms secretbox_spec [of nonce key _ p "replicate (501 - length p) 0" "32 + length p" "replicate 533 0"]
    by (simp add: sealed_message_def)
qed

text \<open>
  C5. What \<^verbatim>\<open>vex_crypto_encrypt_broadcast\<close> puts on the wire is, by the specifications of
  XSalsa20 and Poly1305, the nonce, the one-time authenticator of the ciphertext under the first
  32 bytes of the key stream, and the message added to the rest of the key stream.
\<close>

theorem broadcast_is_xsalsa20_poly1305:
  assumes "unat len \<le> 461" and "unat len \<le> length plain" and "40 + unat len \<le> length cipher"
    and "length (mesh_key node) = 32"
  shows "vex_crypto_encrypt_broadcast rnd node plain len cipher cl =
     Some (0, randombytes rnd (replicate 24 0) 24 @
              xsalsa20_poly1305 (randombytes rnd (replicate 24 0) 24) (mesh_key node) (take (unat len) plain) @
              drop (40 + unat len) cipher, of_nat (40 + unat len))"
  using encrypt_broadcast_result [OF assms(1-3)] assms by (simp add: sealed_message_spec)

theorem broadcast_is_xsalsa20_poly1305_witness:
  "vex_crypto_encrypt_broadcast (Urandom []) zero_node [104, 105] 2 (replicate 501 0) 0 =
     Some (0, randombytes (Urandom []) (replicate 24 0) 24 @
              xsalsa20_poly1305 (randombytes (Urandom []) (replicate 24 0) 24) (replicate 32 0) [104, 105] @
              replicate 459 0, 42)"
  using broadcast_is_xsalsa20_poly1305 [of 2 "[104, 105]" "replicate 501 0" zero_node "Urandom []" 0]
  by (simp add: zero_node_def)

text \<open>
  C3. Decryption accepts nothing but sealed messages: whenever \<^verbatim>\<open>vex_crypto_decrypt_broadcast\<close>
  returns 0, the input is exactly its nonce followed by the sealed form, under that nonce and the
  mesh key, of the bytes returned. Every other payload is refused.
\<close>

theorem decrypt_accepts_only_sealed:
  assumes "vex_crypto_decrypt_broadcast node cipher len plain pl = Some (0, out, n)"
    and "unat len \<le> length cipher" and "unat len \<le> 501" and "length plain = 501" and "length (mesh_key node) = 32"
  shows "take (unat len) cipher =
           take 24 cipher @ xsalsa20_poly1305 (take 24 cipher) (mesh_key node) (take (unat n) out) \<and>
         unat n + 40 = unat len"
proof -
  have long: "24 < unat len" using assms(1) by (auto simp: vex_crypto_decrypt_broadcast_def split: if_splits)
  let ?ct = "len - 24" and ?c = "take (unat len - 24) (drop 24 cipher)"
  have ct: "unat ?ct = unat len - 24" using long by (simp add: unat_sub_if')
  have 3: "memcpy_at (replicate 517 0) 0 (replicate 16 0) 16 = Some (replicate 517 (0 :: u8))"
    by (simp flip: replicate_add)
  define pc where "pc = replicate 16 0 @ ?c @ replicate (501 - (unat len - 24)) (0 :: u8)"
  have 5: "memcpy_at (replicate 517 0) 16 ?c (unat len - 24) = Some pc"
    using assms(2,3) long by (simp add: pc_def)
  let ?op = "crypto_secretbox_open (replicate 533 0) pc (unat len - 8) (take 24 cipher) (mesh_key node)"
  obtain r d where op: "?op = (r, d)" by (cases ?op)
  have r: "r = 0" using assms long by (simp add: vex_crypto_decrypt_broadcast_def Let_def ct 3 5 op split: if_splits)
  have len_pc: "unat len - 8 \<le> length pc" using assms(2,3) long by (simp add: pc_def)
  have open_ok: "take (unat len - 24) (drop 16 pc) =
      xsalsa20_poly1305 (take 24 cipher) (mesh_key node) (take (unat len - 40) (drop 32 d)) \<and> 40 \<le> unat len"
    using secretbox_open_spec [OF _ _ len_pc op [unfolded r]] assms(2,5) long by auto
  have dl: "length d = 533"
    using secretbox_open_cases [OF _ op] assms(3) by simp
  have pl: "unat (len - 40) = unat len - 40" using open_ok by (simp add: unat_sub_if')
  have "out = take (unat len - 40) (drop 32 d) @ drop (unat len - 40) plain \<and> n = len - 40"
    using assms(1-4) long dl open_ok
    by (auto simp: vex_crypto_decrypt_broadcast_def Let_def ct 3 5 op r pl)
  moreover have "take (unat len - 24) (drop 16 pc) = ?c" using assms(2) by (simp add: pc_def)
  moreover have "take (unat len) cipher = take 24 cipher @ ?c"
    using long take_add [of 24 "unat len - 24" cipher] by simp
  ultimately show ?thesis using open_ok dl assms(3) by (simp add: pl)
qed

theorem decrypt_accepts_only_sealed_witness:
  "\<exists>c n p. vex_crypto_encrypt_broadcast (Urandom []) zero_node [104, 105] 2 (replicate 501 0) 0 = Some (0, c, n) \<and>
     vex_crypto_decrypt_broadcast zero_node c n (replicate 501 0) 0 = Some (0, p, 2) \<and>
     take (unat n) c = take 24 c @ xsalsa20_poly1305 (take 24 c) (replicate 32 0) (take 2 p)"
proof -
  let ?nonce = "randombytes (Urandom []) (replicate 24 0) 24"
  let ?c = "sealed_message ?nonce (mesh_key zero_node) [104, 105] @ replicate 459 0"
  have key: "length (mesh_key zero_node) = 32" "mesh_key zero_node = replicate 32 0" by (simp_all add: zero_node_def)
  have enc: "vex_crypto_encrypt_broadcast (Urandom []) zero_node [104, 105] 2 (replicate 501 0) 0 = Some (0, ?c, 42)"
    using encrypt_broadcast_result [of 2 "[104, 105]" "replicate 501 0" "Urandom []" zero_node 0] by simp
  have dec: "vex_crypto_decrypt_broadcast zero_node ?c 42 (replicate 501 0) 0 = Some (0, [104, 105] @ replicate 499 0, 2)"
    using decrypt_broadcast_sealed [of ?nonce "[104, 105]" 42 ?c zero_node "replicate 459 0" "replicate 501 0" 0] by simp
  have "length ?c = 501" by (simp add: length_sealed_message)
  with decrypt_accepts_only_sealed [OF dec _ _ _ key(1)] enc dec key(2) show ?thesis by simp
qed

end
