(* ===== verification/SHA512_Spec.thy ===== *)
theory SHA512_Spec
  imports NaCl_Hash NaCl_Limbs
begin

text \<open>
  SHA-512 as FIPS 180-4 defines it, with the padded message and the message schedule of 80
  words, and the proof that \<^verbatim>\<open>crypto_hash\<close> of \<^verbatim>\<open>src/tweetnacl.c\<close> computes it: with a window of 16
  words updated in place, registers rotated by index, and a tail block or two built on the stack.
  The constants are those of the source.
\<close>

section \<open>The specification\<close>

definition sha_Sigma0 :: "u64 \<Rightarrow> u64" where
  "sha_Sigma0 x = word_rotr 28 x XOR word_rotr 34 x XOR word_rotr 39 x"

definition sha_Sigma1 :: "u64 \<Rightarrow> u64" where
  "sha_Sigma1 x = word_rotr 14 x XOR word_rotr 18 x XOR word_rotr 41 x"

definition sha_sigma0 :: "u64 \<Rightarrow> u64" where
  "sha_sigma0 x = word_rotr 1 x XOR word_rotr 8 x XOR drop_bit 7 x"

definition sha_sigma1 :: "u64 \<Rightarrow> u64" where
  "sha_sigma1 x = word_rotr 19 x XOR word_rotr 61 x XOR drop_bit 6 x"

fun schedule :: "u64 list \<Rightarrow> nat \<Rightarrow> u64" where
  "schedule M t =
     (if t < 16 then M ! t
      else sha_sigma1 (schedule M (t - 2)) + schedule M (t - 7) + sha_sigma0 (schedule M (t - 15)) + schedule M (t - 16))"

declare schedule.simps [simp del]

fun sha_round :: "u64 \<Rightarrow> u64 \<Rightarrow> u64 list \<Rightarrow> u64 list" where
  "sha_round k w [a, b, c, d, e, f, g, h] =
     (let t1 = h + sha_Sigma1 e + ((e AND f) XOR (NOT e AND g)) + k + w;
          t2 = sha_Sigma0 a + ((a AND b) XOR (a AND c) XOR (b AND c))
      in [t1 + t2, a, b, c, d + t1, e, f, g])"
| "sha_round k w _ = []"

definition be64 :: "bytes \<Rightarrow> nat \<Rightarrow> u64" where
  "be64 bs i = of_nat (le_nat (rev (take 8 (drop (8 * i) bs))))"

definition be_bytes :: "nat \<Rightarrow> nat \<Rightarrow> bytes" where
  "be_bytes n x = rev (le_bytes n x)"

definition sha_block :: "u64 list \<Rightarrow> bytes \<Rightarrow> u64 list" where
  "sha_block z bs =
     map2 (+) z (fold (\<lambda>t. sha_round (nacl_K ! t) (schedule (map (be64 bs) [0..<16]) t)) [0..<80] z)"

function sha_blocks :: "u64 list \<Rightarrow> bytes \<Rightarrow> u64 list" where
  "sha_blocks z bs = (if length bs < 128 then z else sha_blocks (sha_block z (take 128 bs)) (drop 128 bs))"
  by pat_completeness auto
termination
  by (relation "measure (\<lambda>(z, bs). length bs)") auto

declare sha_blocks.simps [simp del]

definition sha_pad :: "bytes \<Rightarrow> bytes" where
  "sha_pad m = m @ 128 # replicate ((239 - length m mod 128) mod 128) 0 @ be_bytes 16 (8 * length m)"

definition sha512 :: "bytes \<Rightarrow> bytes" where
  "sha512 m = concat (map (\<lambda>w. be_bytes 8 (unat w)) (sha_blocks (map (be64 nacl_iv) [0..<8]) (sha_pad m)))"

section \<open>Words and bytes\<close>

lemma nacl_R_rotr: "0 < c \<Longrightarrow> c < 64 \<Longrightarrow> nacl_R x c = word_rotr c x"
proof (rule bit_word_eqI)
  fix n assume c: "0 < c" "c < 64" and n: "n < LENGTH(64)"
  have r: "bit (word_rotr c x) n \<longleftrightarrow> bit x ((n + c) mod 64)"
    using c n by (simp add: bit_word_rotr_iff)
  have l: "bit (nacl_R x c) n \<longleftrightarrow> bit x (c + n) \<or> 64 - c \<le> n \<and> bit x (n - (64 - c))"
    using c n by (auto simp: nacl_R_def bit_or_iff bit_drop_bit_eq bit_push_bit_iff)
  show "bit (nacl_R x c) n \<longleftrightarrow> bit (word_rotr c x) n"
  proof (cases "n + c < 64")
    case True
    then show ?thesis using c unfolding l r by (auto simp: add.commute)
  next
    case False
    then have "(n + c) mod 64 = n + c - 64" using c n by (simp add: mod_if)
    moreover have "n - (64 - c) = n + c - 64" using c by simp
    moreover have "\<not> bit x (c + n)" using False by (auto dest: bit_imp_le_length)
    ultimately show ?thesis using False c unfolding l r by auto
  qed
qed

lemma nacl_functions:
  "nacl_Sigma0 = sha_Sigma0" "nacl_Sigma1 = sha_Sigma1" "nacl_sigma0 = sha_sigma0" "nacl_sigma1 = sha_sigma1"
  by (simp_all add: fun_eq_iff nacl_Sigma0_def nacl_Sigma1_def nacl_sigma0_def nacl_sigma1_def
      sha_Sigma0_def sha_Sigma1_def sha_sigma0_def sha_sigma1_def nacl_R_rotr)

lemma dl64_value:
  assumes "8 \<le> length x"
  shows "dl64 x = be64 x 0"
proof -
  have "unat (FOR k (\<lambda>i u. push_bit 8 u OR ucast (x ! i)) (0 :: u64)) = le_nat (rev (take k x))" if "k \<le> 8" for k
    using that
  proof (induction k)
    case (Suc k)
    then have IH: "unat (FOR k (\<lambda>i u. push_bit 8 u OR ucast (x ! i)) (0 :: u64)) = le_nat (rev (take k x))" by simp
    have "le_nat (rev (take k x)) < 256 ^ length (rev (take k x))" by (rule le_nat_bound)
    also have "\<dots> \<le> 256 ^ 7" using Suc.prems by (intro power_increasing) simp_all
    finally have "le_nat (rev (take k x)) < 2 ^ 56" by simp
    then have "unat (FOR (Suc k) (\<lambda>i u. push_bit 8 u OR ucast (x ! i)) (0 :: u64)) =
        unat (x ! k) + 256 * le_nat (rev (take k x))"
      using push_or_byte IH by (simp add: for_range_last)
    moreover have "take (Suc k) x = take k x @ [x ! k]" using Suc.prems assms by (simp add: take_Suc_conv_app_nth)
    ultimately show ?case by simp
  qed simp
  then have "unat (dl64 x) = le_nat (rev (take 8 x))" by (simp add: dl64_def)
  moreover have "of_nat (unat (dl64 x)) = dl64 x" by simp
  ultimately have "dl64 x = of_nat (le_nat (rev (take 8 x)))" by simp
  then show ?thesis by (simp add: be64_def)
qed

lemma dl64_be64: "8 * i + 8 \<le> length x \<Longrightarrow> dl64 (drop (8 * i) x) = be64 x i"
  by (simp add: dl64_value) (simp add: be64_def)

lemma ts64_be: "ts64 w = be_bytes 8 (unat w)"
proof -
  have b: "of_nat (unat v mod 256) = (ucast v :: u8)" for v :: u64
    by (simp add: word_unat_eq_iff unat_of_nat unsigned_ucast_eq take_bit_eq_mod)
  have "8 = Suc (Suc (Suc (Suc (Suc (Suc (Suc (Suc 0)))))))" by simp
  then have "le_bytes 8 (unat w) = map (\<lambda>i. of_nat (unat w div 256 ^ i mod 256)) [0..<8]"
    by (simp only: le_bytes.simps) (simp add: upt_rec div_mult2_eq [symmetric])
  also have "\<dots> = map (\<lambda>i. ucast (drop_bit (8 * i) w)) [0..<8]"
    by (simp add: b [symmetric] unat_drop_bit power_mult)
  finally show ?thesis by (simp add: be_bytes_def ts64_bytes upt_rec)
qed

section \<open>The block function\<close>

lemma explicit_8:
  assumes "length x = 8"
  obtains a b c d e f g h where "x = [a, b, c, d, e, f, g, h]"
  using assms by (auto simp: numeral_eq_Suc length_Suc_conv)

lemma length_sha_round [simp]: "length a = 8 \<Longrightarrow> length (sha_round k w a) = 8"
  by (rule explicit_8 [of a]) (auto simp: Let_def)

text \<open>The window after \<open>q\<close> updates of all its words.\<close>

definition window :: "u64 list \<Rightarrow> nat \<Rightarrow> u64 list" where
  "window M q = map (\<lambda>j. schedule M (16 * q + j)) [0..<16]"

lemma window_update:
  "FOR 16 (\<lambda>j w. w[j := w ! j + (w ! ((j + 9) mod 16)
      + nacl_sigma0 (w ! ((j + 1) mod 16)) + nacl_sigma1 (w ! ((j + 14) mod 16)))]) (window M q) = window M (Suc q)"
proof -
  let ?f = "\<lambda>j w. w[j := w ! j + (w ! ((j + 9) mod 16)
      + nacl_sigma0 (w ! ((j + 1) mod 16)) + nacl_sigma1 (w ! ((j + 14) mod 16)))]"
  let ?g = "\<lambda>k. map (\<lambda>j. schedule M (16 * q + (if j < k then 16 + j else j))) [0..<16]"
  have "FOR k ?f (window M q) = ?g k" if "k \<le> 16" for k
    using that
  proof (induction k)
    case 0
    then show ?case by (simp add: window_def)
  next
    case (Suc k)
    then have IH: "FOR k ?f (window M q) = ?g k" and k: "k < 16" by simp_all
    have at: "?g k ! ((k + d) mod 16) = schedule M (16 * q + k + d)" if "0 < d" "d < 16" for d
    proof (cases "k + d < 16")
      case True
      then show ?thesis using that by (simp add: add.assoc)
    next
      case False
      then have "(k + d) mod 16 = k + d - 16" using k that by (simp add: mod_if)
      moreover have "k + d - 16 < k" "k + d - 16 < 16" "16 + (k + d - 16) = k + d" using False k that by linarith+
      ultimately show ?thesis by (simp add: add.assoc)
    qed
    have "schedule M (16 * q + (16 + k)) = sha_sigma1 (schedule M (16 * q + k + 14)) + schedule M (16 * q + k + 9)
        + sha_sigma0 (schedule M (16 * q + k + 1)) + schedule M (16 * q + k)"
      by (subst schedule.simps) (simp add: add.commute add.left_commute)
    moreover define g where "g = ?g k"
    moreover have "g ! k = schedule M (16 * q + k)" unfolding g_def using k by simp
    moreover have "g ! ((k + 9) mod 16) = schedule M (16 * q + k + 9)" unfolding g_def by (rule at) simp_all
    moreover have "g ! ((k + 1) mod 16) = schedule M (16 * q + k + 1)" unfolding g_def by (rule at) simp_all
    moreover have "g ! ((k + 14) mod 16) = schedule M (16 * q + k + 14)" unfolding g_def by (rule at) simp_all
    ultimately have new: "g ! k + (g ! ((k + 9) mod 16) + nacl_sigma0 (g ! ((k + 1) mod 16))
        + nacl_sigma1 (g ! ((k + 14) mod 16))) = schedule M (16 * q + (16 + k))"
      unfolding nacl_functions by (simp only: add_ac)
    have "g[k := schedule M (16 * q + (16 + k))] = ?g (Suc k)"
      unfolding g_def using k by (intro nth_equalityI) (simp_all add: nth_list_update less_Suc_eq)
    then have "?f k g = ?g (Suc k)" by (simp only: new)
    with IH show ?case by (simp only: for_range_last g_def)
  qed
  from this [of 16] have "FOR 16 ?f (window M q) = ?g 16" by (rule mp [OF impI]) simp_all
  also have "?g 16 = window M (Suc q)" unfolding window_def by (intro map_cong refl) (simp add: algebra_simps)
  finally show ?thesis .
qed

lemma hashblocks_step_round:
  assumes "length a = 8" and "w = window M (i div 16)"
  shows "hashblocks_step i (a, w) = (sha_round (nacl_K ! i) (schedule M i) a, window M (Suc i div 16))"
proof -
  obtain a0 a1 a2 a3 a4 a5 a6 a7 where a: "a = [a0, a1, a2, a3, a4, a5, a6, a7]" by (rule explicit_8 [OF assms(1)])
  have w: "w ! (i mod 16) = schedule M i" by (simp add: assms(2) window_def)
  have d: "Suc i div 16 = (if i mod 16 = 15 then Suc (i div 16) else i div 16)"
    by (simp add: div_Suc mod_Suc)
  have "FOR 8 (\<lambda>j a. a[Suc j mod 8 := b ! j]) a = [b ! 7, b ! 0, b ! 1, b ! 2, b ! 3, b ! 4, b ! 5, b ! 6]" for b
  proof -
    have "[0..<8] = [0, 1, 2, 3, 4, 5, 6, 7]" by code_simp
    then show ?thesis by (simp add: a for_range_def)
  qed
  note rotate = this
  have "fst (hashblocks_step i (a, w)) = sha_round (nacl_K ! i) (schedule M i) a"
    by (simp add: hashblocks_step_def Let_def rotate w) (simp add: a nacl_functions nacl_Ch_def nacl_Maj_def Let_def add.assoc)
  moreover have "snd (hashblocks_step i (a, w)) = window M (Suc i div 16)"
    by (simp add: hashblocks_step_def Let_def d assms(2) window_update [simplified])
  ultimately show ?thesis by (metis prod.collapse)
qed

lemma hashblocks_rounds:
  assumes "length a = 8" and "length M = 16" and "n \<le> 80"
  shows "FOR n hashblocks_step (a, M) =
           (fold (\<lambda>t. sha_round (nacl_K ! t) (schedule M t)) [0..<n] a, window M (n div 16)) \<and>
         length (fold (\<lambda>t. sha_round (nacl_K ! t) (schedule M t)) [0..<n] a) = 8"
  using assms(3)
proof (induction n)
  case 0
  have "window M 0 = M"
    using assms(2) by (intro nth_equalityI) (simp_all add: window_def schedule.simps)
  with assms(1) show ?case by simp
next
  case (Suc n)
  then show ?case by (simp add: for_range_last hashblocks_step_round [OF _ refl])
qed

lemma length_sha_block: "length z = 8 \<Longrightarrow> length (sha_block z bs) = 8"
  using hashblocks_rounds [of z "map (be64 bs) [0..<16]" 80] by (simp add: sha_block_def)

lemma sum_registers:
  assumes "length a = 8" and "length z = 8"
  shows "FOR 8 (\<lambda>i (a, z). let a = a[i := a ! i + z ! i] in (a, z[i := a ! i])) (a, z) =
           (map2 (+) z a, map2 (+) z (a :: u64 list))"
proof -
  obtain a0 a1 a2 a3 a4 a5 a6 a7 where a: "a = [a0, a1, a2, a3, a4, a5, a6, a7]" by (rule explicit_8 [OF assms(1)])
  obtain z0 z1 z2 z3 z4 z5 z6 z7 where z: "z = [z0, z1, z2, z3, z4, z5, z6, z7]" by (rule explicit_8 [OF assms(2)])
  have "[0..<8] = [0, 1, 2, 3, 4, 5, 6, 7]" by code_simp
  then show ?thesis by (simp add: a z for_range_def add.commute)
qed

lemma be64_take: "8 * i + 8 \<le> n \<Longrightarrow> be64 (take n bs) i = be64 bs i"
  by (simp add: be64_def drop_take min_def)

lemma hashblocks_loop_blocks:
  assumes "length z = 8" and "n \<le> length m"
  shows "hashblocks_loop z z m n = (sha_blocks z (take n m), n mod 128)"
  using assms
proof (induction n arbitrary: z m rule: less_induct)
  case (less n)
  show ?case
  proof (cases "128 \<le> n")
    case False
    then show ?thesis using less.prems by (simp add: hashblocks_loop.simps sha_blocks.simps)
  next
    case True
    let ?M = "map (be64 m) [0..<16]"
    have w: "map (\<lambda>i. dl64 (drop (8 * i) m)) [0..<16] = ?M"
      using True less.prems(2) by (auto simp: dl64_be64)
    let ?a = "fold (\<lambda>t. sha_round (nacl_K ! t) (schedule ?M t)) [0..<80] z"
    have a: "FOR 80 hashblocks_step (z, ?M) = (?a, window ?M 5)" "length ?a = 8"
      using hashblocks_rounds [of z ?M 80] less.prems(1) by simp_all
    have M: "map (be64 (take 128 m)) [0..<16] = ?M" by (auto simp: be64_take)
    have sums: "FOR 8 (\<lambda>i (a, z). let a = a[i := a ! i + z ! i] in (a, z[i := a ! i])) (?a, z) =
        (sha_block z (take 128 m), sha_block z (take 128 m))"
      using sum_registers [OF a(2) less.prems(1)] by (simp only: sha_block_def M)
    have "hashblocks_loop z z m n =
        hashblocks_loop (sha_block z (take 128 m)) (sha_block z (take 128 m)) (drop 128 m) (n - 128)"
      using True by (subst hashblocks_loop.simps) (simp only: w a(1) sums [unfolded Let_def] Let_def if_True prod.case)
    also have "\<dots> = (sha_blocks (sha_block z (take 128 m)) (take (n - 128) (drop 128 m)), (n - 128) mod 128)"
      by (rule less.IH) (use True less.prems in \<open>simp_all add: length_sha_block\<close>)
    also have "sha_blocks (sha_block z (take 128 m)) (take (n - 128) (drop 128 m)) = sha_blocks z (take n m)"
      using True less.prems(2) by (subst (2) sha_blocks.simps) (simp add: drop_take min_def)
    finally show ?thesis using True by (simp add: le_mod_geq)
  qed
qed

section \<open>The hash\<close>

lemma sha_blocks_append:
  assumes "128 dvd length xs"
  shows "sha_blocks z (xs @ ys) = sha_blocks (sha_blocks z xs) ys"
  using assms
proof (induction xs arbitrary: z rule: length_induct)
  case (1 xs)
  show ?case
  proof (cases "xs = []")
    case True
    then show ?thesis by (simp add: sha_blocks.simps [of z "[]"])
  next
    case False
    then have "128 \<le> length xs" using 1(2) by (auto dest: dvd_imp_le)
    moreover have "128 dvd length (drop 128 xs)" using 1(2) calculation by (simp add: dvd_diff_nat)
    ultimately have IH: "sha_blocks y (drop 128 xs @ ys) = sha_blocks (sha_blocks y (drop 128 xs)) ys" for y
      using 1(1) False by simp
    have "sha_blocks z (xs @ ys) = sha_blocks (sha_block z (take 128 xs)) (drop 128 xs @ ys)"
      using \<open>128 \<le> length xs\<close> by (subst sha_blocks.simps) simp
    moreover have "sha_blocks z xs = sha_blocks (sha_block z (take 128 xs)) (drop 128 xs)"
      using \<open>128 \<le> length xs\<close> by (subst sha_blocks.simps) simp
    ultimately show ?thesis by (simp only: IH)
  qed
qed

lemma sha_blocks_whole:
  "sha_blocks z m = sha_blocks z (take (length m - length m mod 128) m)"
proof -
  let ?k = "length m - length m mod 128"
  have "128 dvd length (take ?k m)" by (simp only: length_take min.absorb2 diff_le_self dvd_minus_mod)
  from sha_blocks_append [OF this, of z "drop ?k m"]
  have "sha_blocks z m = sha_blocks (sha_blocks z (take ?k m)) (drop ?k m)" by simp
  then show ?thesis by (simp add: sha_blocks.simps [of _ "drop ?k m"])
qed

text \<open>Storing the registers and loading them again.\<close>

definition store :: "u64 list \<Rightarrow> bytes" where
  "store z = concat (map (\<lambda>w. be_bytes 8 (unat w)) z)"

lemma store_ts64: "store z = concat (map ts64 z)"
  by (simp only: store_def ts64_be [symmetric])

lemma load_store:
  assumes "length z = 8"
  shows "map (\<lambda>i. dl64 (drop (8 * i) (store z))) [0..<8] = z \<and> length (store z) = 64"
proof -
  have be: "length (be_bytes 8 x) = 8" for x by (simp add: be_bytes_def)
  have "le_nat (le_bytes 8 (unat w)) = unat w" for w :: u64
  proof -
    have "unat w < 2 ^ 64" using unsigned_less [of w] by simp
    then show ?thesis by (simp add: le_nat_le_bytes)
  qed
  then have b: "be64 (be_bytes 8 (unat w) @ r) 0 = w" for w r by (simp add: be64_def be_bytes_def)
  from this [of _ "[]"] have b0: "be64 (be_bytes 8 (unat w)) 0 = w" for w by simp
  obtain z0 z1 z2 z3 z4 z5 z6 z7 where z: "z = [z0, z1, z2, z3, z4, z5, z6, z7]" by (rule explicit_8 [OF assms])
  have "[0..<8] = [0, 1, 2, 3, 4, 5, 6, 7]" by code_simp
  then show ?thesis
    by (simp add: z store_def be dl64_value b b0)
qed

lemma length_sha_blocks: "length z = 8 \<Longrightarrow> length (sha_blocks z m) = 8"
proof (induction z m rule: sha_blocks.induct)
  case (1 z m)
  then show ?case by (subst sha_blocks.simps) (simp add: length_sha_block)
qed

lemma crypto_hashblocks_store:
  assumes "length z = 8" and "map (\<lambda>i. dl64 (drop (8 * i) x)) [0..<8] = z" and "n \<le> length m"
  shows "fst (crypto_hashblocks x m n) = store (sha_blocks z (take n m))"
proof -
  have "map ((!) (sha_blocks z (take n m))) [0..<8] = sha_blocks z (take n m)"
    using map_nth [of "sha_blocks z (take n m)"] length_sha_blocks [OF assms(1)] by simp
  then have "map (\<lambda>i. ts64 (sha_blocks z (take n m) ! i)) [0..<8] = map ts64 (sha_blocks z (take n m))"
    by (metis (no_types, lifting) list.map_comp comp_apply map_cong)
  then show ?thesis
    by (simp only: crypto_hashblocks_def Let_def assms(2) hashblocks_loop_blocks [OF assms(1,3)] prod.case fst_conv
        store_ts64)
qed

text \<open>The tail block or blocks of \<^verbatim>\<open>crypto_hash\<close> are the end of the padded message.\<close>

lemma be_bytes_length_field:
  assumes "n < 2 ^ 64"
  shows "be_bytes 16 (8 * n) = replicate 7 0 @ ucast (drop_bit 61 (of_nat n :: u64)) # ts64 (push_bit 3 (of_nat n))"
proof -
  have add: "le_bytes (b + a) x = le_bytes b x @ le_bytes a (x div 256 ^ b)" for a b x
    by (induction b arbitrary: x) (simp_all add: div_mult2_eq)
  have zeros: "le_bytes a 0 = replicate a 0" for a by (induction a) simp_all
  have n: "unat (of_nat n :: u64) = n" using assms by (simp add: unat_of_nat)
  define y where "y = n div 2 ^ 61"
  have y: "y < 8" "8 * n div 256 ^ 8 = y" using assms by (simp_all add: y_def)
  have "le_bytes 8 y = of_nat y # replicate 7 0"
  proof -
    have "8 = Suc 7" by simp
    then show ?thesis using y(1) by (simp only: le_bytes.simps) (simp add: zeros)
  qed
  moreover have "ucast (drop_bit 61 (of_nat n :: u64)) = (of_nat y :: u8)"
    using n y(1) by (simp add: word_unat_eq_iff unat_of_nat unsigned_ucast_eq take_bit_eq_mod unat_drop_bit y_def)
  moreover have "unat (push_bit 3 (of_nat n :: u64)) = 8 * n mod 2 ^ 64"
    by (simp add: push_bit_eq_mult unat_word_ariths n mult.commute)
  then have "be_bytes 8 (unat (push_bit 3 (of_nat n :: u64))) = be_bytes 8 (8 * n)"
    using le_bytes_mod [of 8 "8 * n"] by (simp add: be_bytes_def)
  ultimately show ?thesis
    using add [of 8 8 "8 * n"] y(2) by (simp add: be_bytes_def ts64_be)
qed

lemma sha_pad_tail:
  assumes "n < 2 ^ 64" and "n \<le> length m" and "r = n mod 128" and "p = 256 - 128 * (if r < 112 then 1 else 0)"
  shows "sha_pad (take n m) = take (n - r) m @ take r (drop (n - r) m) @ 128 # replicate (p - 10 - r) 0 @
           ucast (drop_bit 61 (of_nat n :: u64)) # ts64 (push_bit 3 (of_nat n))"
proof -
  have r: "r < 128" "r \<le> n" by (simp_all add: assms(3))
  have "take n m = take (n - r) m @ take r (drop (n - r) m)"
    using r(2) take_add [of "n - r" r m] by simp
  moreover have len: "length (take n m) = n" using assms(2) by simp
  moreover have "(239 - r) mod 128 + 7 = p - 10 - r"
    using r(1) by (simp add: assms(4) mod_if)
  then have "replicate ((239 - r) mod 128) 0 @ replicate 7 (0 :: u8) = replicate (p - 10 - r) 0"
    by (simp only: replicate_add [symmetric])
  then have "replicate ((239 - r) mod 128) 0 @ replicate 7 (0 :: u8) @ t = replicate (p - 10 - r) 0 @ t" for t
    by (simp only: append_assoc [symmetric])
  ultimately show ?thesis
    by (simp only: sha_pad_def len assms(3) [symmetric] be_bytes_length_field [OF assms(1)] append_assoc append_Cons)
qed

lemma hash_sha512:
  assumes "n < 2 ^ 64" and "n \<le> length m"
  shows "crypto_hash m n = sha512 (take n m)"
proof -
  let ?iv = "map (be64 nacl_iv) [0..<8]"
  define r where "r = n mod 128"
  define p where "p = 256 - 128 * (if r < 112 then 1 else 0 :: nat)"
  have r: "r < 128" "r \<le> n" by (simp_all add: r_def)
  then have p: "r < p - 9" "p \<le> 256" "128 \<le> p" by (simp_all add: p_def)
  define h where "h = fst (crypto_hashblocks nacl_iv m n)"
  have iv: "length ?iv = 8" "map (\<lambda>i. dl64 (drop (8 * i) nacl_iv)) [0..<8] = ?iv"
    by (auto simp: dl64_be64)
  have h: "h = store (sha_blocks ?iv (take n m))"
    unfolding h_def by (rule crypto_hashblocks_store [OF iv assms(2)])
  let ?m = "drop (n - r) m" and ?u = "ucast (drop_bit 61 (of_nat n :: u64)) :: u8" and ?l = "ts64 (push_bit 3 (of_nat n))"
  let ?tail = "take r ?m @ 128 # replicate (p - 10 - r) 0 @ ?u # ?l"
  have fill: "FOR r (\<lambda>i x. x[i := ?m ! i]) (replicate 256 0) = take r ?m @ replicate (256 - r) 0"
  proof -
    have "map ((!) ?m) [0..<r] = take r ?m" using assms(2) r(2) by (auto intro!: nth_equalityI)
    then show ?thesis using r(1) by (simp add: FOR_fill)
  qed
  have lr: "length (take r ?m) = r" using assms(2) r(2) by simp
  let ?x = "(take r ?m @ replicate (256 - r) 0)[r := 128, p - 9 := ?u]"
  have x: "?x = (take r ?m @ 128 # replicate (p - 10 - r) 0) @ ?u # replicate (264 - p) 0"
  proof -
    have "Suc (p - 10 - r) + Suc (264 - p) = 256 - r" using p by simp
    then have "replicate (256 - r) 0 = replicate (Suc (p - 10 - r)) 0 @ replicate (Suc (264 - p)) (0 :: u8)"
      by (simp only: replicate_add [symmetric])
    then have "take r ?m @ replicate (256 - r) 0 = take r ?m @ 0 # replicate (p - 10 - r) 0 @ 0 # replicate (264 - p) 0"
      by simp
    also have "\<dots>[r := 128] = (take r ?m @ 128 # replicate (p - 10 - r) 0) @ 0 # replicate (264 - p) 0"
      using list_update_length [of "take r ?m"] lr by simp
    finally have "?x = ((take r ?m @ 128 # replicate (p - 10 - r) 0) @ 0 # replicate (264 - p) 0)[p - 9 := ?u]"
      by (simp only:)
    moreover have "length (take r ?m @ 128 # replicate (p - 10 - r) (0 :: u8)) = p - 9" using lr p by simp
    ultimately show ?thesis by (metis list_update_length)
  qed
  let ?X = "take (p - 8) ?x @ ?l @ drop p ?x"
  have t8: "take (p - 8) ?x = take r ?m @ 128 # replicate (p - 10 - r) 0 @ [?u]" and lx: "length (take (p - 8) ?x) = p - 8"
  proof -
    define A where "A = take r ?m @ 128 # replicate (p - 10 - r) (0 :: u8)"
    have "p - 8 = Suc (length A)" using lr p by (simp add: A_def)
    then have "take (p - 8) (A @ ?u # replicate (264 - p) 0) = A @ [?u]" by simp
    then show "take (p - 8) ?x = take r ?m @ 128 # replicate (p - 10 - r) 0 @ [?u]" by (simp only: x A_def) simp
    then show "length (take (p - 8) ?x) = p - 8" using lr p by simp
  qed
  have cut: "take p (a @ b @ c) = a @ b" "p \<le> length (a @ b @ c)" if "length a = p - 8" "length b = 8" for a b c :: bytes
    using that p by simp_all
  have tail: "take p ?X = ?tail" "p \<le> length ?X"
    using cut [OF lx length_ts64] by (simp_all only: t8) simp
  have hz: "map (\<lambda>i. dl64 (drop (8 * i) h)) [0..<8] = sha_blocks ?iv (take n m)"
    using load_store [OF length_sha_blocks [OF iv(1)]] by (simp only: h)
  have "crypto_hash m n = fst (crypto_hashblocks h ?X p)"
    by (simp only: crypto_hash_def Let_def r_def [symmetric] p_def [symmetric] h_def [symmetric] fill)
  also have "\<dots> = store (sha_blocks (sha_blocks ?iv (take n m)) ?tail)"
    using crypto_hashblocks_store [OF length_sha_blocks [OF iv(1)] hz tail(2)] by (simp only: tail(1))
  also have "sha_blocks ?iv (take n m) = sha_blocks ?iv (take (n - r) m)"
  proof -
    have "take (length (take n m) - length (take n m) mod 128) (take n m) = take (n - r) m"
      using assms(2) by (simp add: r_def min_def)
    with sha_blocks_whole [of ?iv "take n m"] show ?thesis by (simp only:)
  qed
  also have "sha_blocks \<dots> ?tail = sha_blocks ?iv (take (n - r) m @ ?tail)"
  proof (rule sha_blocks_append [symmetric])
    have "length (take (n - r) m) = n - r" using assms(2) by simp
    then show "128 dvd length (take (n - r) m)" by (simp add: r_def dvd_minus_mod)
  qed
  also have "take (n - r) m @ ?tail = sha_pad (take n m)"
    by (rule sha_pad_tail [OF assms r_def p_def, symmetric])
  finally show ?thesis by (simp only: sha512_def store_def)
qed



end
