(* ===== verification/Spec2Isabelle.thy ===== *)
theory Spec2Isabelle
  imports Main_Properties Vex_Flood Secretbox_Spec SHA512_Spec
begin

text \<open>
  VexConnect's mesh relay node, the C program under \<^verbatim>\<open>src/\<close>.
\<close>

end
